theory Spec2Isabelle
  imports Complex_Main
begin

section \<open>Integer square root: the cast \<open>(int)sqrt(x)\<close>\<close>

text \<open>
  \<open>sobel_mpi.cpp\<close> calls the C library \<open>sqrt\<close> on an \<open>int\<close> and casts the result back to
  \<open>int\<close>, which truncates. For a non-negative argument (all are far below \<open>2^53\<close>) this is
  the floor of the real square root. The executable model searches upwards for the
  largest \<open>k\<close> with \<open>k * k \<le> n\<close>; \<open>isqrt_floor_sqrt\<close> below ties it to the real square
  root. The negative arguments of the kernel are dealt with in \<open>sqrt_cast\<close>.
\<close>

function sqrt_search :: "int \<Rightarrow> int \<Rightarrow> int" where
  "sqrt_search n k = (if (k + 1) * (k + 1) \<le> n then sqrt_search n (k + 1) else k)"
  by pat_completeness auto
termination
proof (relation "measure (\<lambda>(n, k). nat (n - k))")
  show "wf (measure (\<lambda>(n, k). nat (n - k)))" by simp
next
  fix n k :: int
  assume le: "(k + 1) * (k + 1) \<le> n"
  have "k + 1 \<le> (k + 1) * (k + 1)"
  proof (cases "0 \<le> k + 1")
    case True
    then show ?thesis by (cases "k + 1 = 0") (simp_all add: mult_le_cancel_left1)
  next
    case False
    then have "k + 1 \<le> 0" by simp
    also have "0 \<le> (k + 1) * (k + 1)" by simp
    finally show ?thesis .
  qed
  with le have "k + 1 \<le> n" by linarith
  then show "((n, k + 1), (n, k)) \<in> measure (\<lambda>(n, k). nat (n - k))" by simp
qed

declare sqrt_search.simps [simp del]

definition isqrt :: "int \<Rightarrow> int" where
  "isqrt n = sqrt_search n 0"

section \<open>Arithmetic on \<open>int\<close>\<close>

text \<open>
  A C++ \<open>int\<close> has 32 bits. The values the model holds in buffers are unbounded
  integers; where the source computes on pixel values (the stencil kernel), every
  operation is followed by \<open>int32\<close>, which wraps the result into
  \<open>-2^31 \<dots> 2^31 - 1\<close> as the compiled program does (the language leaves signed overflow
  undefined).

  \<open>sqrt_cast\<close> is \<open>(int)sqrt(x)\<close> for an \<open>int\<close> \<open>x\<close> of the kernel. For a negative \<open>x\<close>, which
  only an overflow produces, \<open>sqrt\<close> returns NaN and the cast of NaN is what the
  conversion instruction gives, the smallest \<open>int\<close>; \<open>clamp255\<close> turns it into 0.
\<close>

definition int32 :: "int \<Rightarrow> int" where
  "int32 x = (x + 2147483648) mod 4294967296 - 2147483648"

definition sqrt_cast :: "int \<Rightarrow> int" where
  "sqrt_cast x = (if x < 0 then - 2147483648 else isqrt x)"

section \<open>Domain decomposition: \<open>DomainConfig\<close> and \<open>setup_domain\<close>\<close>

text \<open>
  The fields of the C++ struct are \<open>int\<close>s that hold counts, sizes and indices; they are
  never negative for a launched process group (\<open>0 \<le> rank < world_size\<close>), so they are
  modelled as natural numbers. The subtractions of the source that the model keeps
  (\<open>grid_rows - 1\<close>, \<open>image_size - (grid_rows - 1) * local_rows\<close>) do not go below zero
  there.
\<close>

record DomainConfig =
  rank :: nat
  world_size :: nat
  image_size :: nat
  grid_rows :: nat
  grid_cols :: nat
  my_row :: nat
  my_col :: nat
  local_rows :: nat
  local_cols :: nat
  halo_size :: nat

text \<open>
  The loop \<open>while (world_size % grid_dim != 0) grid_dim--;\<close>. With \<open>grid_dim = 0\<close> the
  C++ remainder is a division by zero; the model returns \<open>None\<close> there.
\<close>

fun grid_dim_search :: "nat \<Rightarrow> nat \<Rightarrow> nat option" where
  "grid_dim_search ws grid_dim =
     (if grid_dim = 0 then None
      else if ws mod grid_dim \<noteq> 0 then grid_dim_search ws (grid_dim - 1)
      else Some grid_dim)"

declare grid_dim_search.simps [simp del]

definition setup_domain :: "nat \<Rightarrow> nat \<Rightarrow> nat \<Rightarrow> DomainConfig option" where
  "setup_domain N r ws =
     (case grid_dim_search ws (nat (isqrt (int ws))) of
        None \<Rightarrow> None
      | Some grid_dim \<Rightarrow>
          (let g_rows = grid_dim;
               g_cols = ws div grid_dim;
               m_row = r div g_cols;
               m_col = r mod g_cols;
               l_rows = N div g_rows;
               l_cols = N div g_cols;
               l_rows' = (if m_row = g_rows - 1 then N - (g_rows - 1) * l_rows else l_rows);
               l_cols' = (if m_col = g_cols - 1 then N - (g_cols - 1) * l_cols else l_cols)
           in Some \<lparr> rank = r, world_size = ws, image_size = N,
                     grid_rows = g_rows, grid_cols = g_cols,
                     my_row = m_row, my_col = m_col,
                     local_rows = l_rows', local_cols = l_cols',
                     halo_size = 1 \<rparr>))"


section \<open>Buffers and messages\<close>

text \<open>
  A \<open>vector<int>\<close> is a list of integers. A message is the triple of its destination
  rank, its tag and the elements read from the send buffer. \<open>payload buf off count\<close> is
  what \<open>MPI_Send(&buf[off], count, MPI_INT, ...)\<close> transmits.

  \<open>recv_into buf off count msg\<close> is \<open>MPI_Recv(&buf[off], count, MPI_INT, ...)\<close> matched with
  the message \<open>msg\<close>: the elements of \<open>msg\<close> overwrite \<open>buf\<close> from \<open>off\<close> on. A message
  longer than \<open>count\<close> is the MPI truncation error, which aborts the run under the default
  error handler, and a write past the end of the vector is undefined; both are \<open>None\<close>.
\<close>

type_synonym message = "nat \<times> nat \<times> int list"

definition payload :: "int list \<Rightarrow> nat \<Rightarrow> nat \<Rightarrow> int list" where
  "payload buf off count = take count (drop off buf)"

definition recv_into :: "int list \<Rightarrow> nat \<Rightarrow> nat \<Rightarrow> int list \<Rightarrow> int list option" where
  "recv_into buf off count msg =
     (if length msg \<le> count \<and> off + length msg \<le> length buf
      then Some (take off buf @ msg @ drop (off + length msg) buf)
      else None)"

text \<open>
  The messages of an outbox addressed to \<open>dest\<close> with tag \<open>tag\<close>, in the order they were
  sent (MPI delivers messages between one pair of ranks with one tag in order).
\<close>

definition inbox :: "message list \<Rightarrow> nat \<Rightarrow> nat \<Rightarrow> int list list" where
  "inbox outbox dest tag =
     map (\<lambda>(d, t, m). m) (filter (\<lambda>(d, t, m). d = dest \<and> t = tag) outbox)"

text \<open>A loop whose body can fail: the first failure ends it.\<close>

fun fold_option :: "('a \<Rightarrow> 'b \<Rightarrow> 'b option) \<Rightarrow> 'a list \<Rightarrow> 'b \<Rightarrow> 'b option" where
  "fold_option f [] s = Some s"
| "fold_option f (x # xs) s = (case f x s of None \<Rightarrow> None | Some s' \<Rightarrow> fold_option f xs s')"

section \<open>The Distributor: \<open>scatter_image\<close>\<close>

text \<open>
  The block of the global image that rank 0 computes for rank \<open>r\<close>, as
  \<open>(start_row, start_col, rows, cols)\<close> (lines 60 to 68 of \<open>sobel_mpi.cpp\<close>).
\<close>

definition scatter_block :: "DomainConfig \<Rightarrow> nat \<Rightarrow> nat \<Rightarrow> nat \<times> nat \<times> nat \<times> nat" where
  "scatter_block cfg N r =
     (let dst_row = r div grid_cols cfg;
          dst_col = r mod grid_cols cfg;
          start_row = dst_row * (N div grid_rows cfg);
          start_col = dst_col * (N div grid_cols cfg);
          rows = (if dst_row = grid_rows cfg - 1 then N - start_row else N div grid_rows cfg);
          cols = (if dst_col = grid_cols cfg - 1 then N - start_col else N div grid_cols cfg)
      in (start_row, start_col, rows, cols))"

text \<open>
  The branch of rank 0: for every rank in turn, copy the block into the own tile
  (\<open>r = 0\<close>, \<open>scatter_copy\<close>) or send it row by row with tag 0 (\<open>scatter_sends\<close>). The
  result is the tile of rank 0 and the messages sent, in order.
\<close>

definition scatter_copy :: "int list \<Rightarrow> int list \<Rightarrow> DomainConfig \<Rightarrow> nat \<Rightarrow> nat \<Rightarrow> int list" where
  "scatter_copy glob loc cfg N r =
     (let h = halo_size cfg in
      case scatter_block cfg N r of (start_row, start_col, rows, cols) \<Rightarrow>
        fold (\<lambda>i l. fold (\<lambda>j l.
            l[(i + h) * (cols + 2 * h) + (j + h) := glob ! ((start_row + i) * N + start_col + j)])
          [0..<cols] l) [0..<rows] loc)"

definition scatter_sends :: "int list \<Rightarrow> DomainConfig \<Rightarrow> nat \<Rightarrow> nat \<Rightarrow> message list" where
  "scatter_sends glob cfg N r =
     (case scatter_block cfg N r of (start_row, start_col, rows, cols) \<Rightarrow>
        map (\<lambda>i. (r, 0, payload glob ((start_row + i) * N + start_col) cols)) [0..<rows])"

definition scatter_image_root ::
    "int list \<Rightarrow> int list \<Rightarrow> DomainConfig \<Rightarrow> nat \<Rightarrow> int list \<times> message list" where
  "scatter_image_root glob loc cfg N =
     fold (\<lambda>r (l, out).
          if r = 0 then (scatter_copy glob l cfg N r, out)
          else (l, out @ scatter_sends glob cfg N r))
       [0..<world_size cfg] (loc, [])"

text \<open>
  The branch of the other ranks: \<open>local_rows\<close> receives of \<open>local_cols\<close> elements each,
  into the interior rows of the tile. \<open>msgs\<close> are the messages rank 0 sent to this rank;
  a receive without a message blocks for ever (\<open>None\<close>).
\<close>

definition scatter_image_recv :: "int list \<Rightarrow> DomainConfig \<Rightarrow> int list list \<Rightarrow> int list option" where
  "scatter_image_recv loc cfg msgs =
     fold_option (\<lambda>i l.
         (let h = halo_size cfg in
          if i < length msgs
          then recv_into l ((i + h) * (local_cols cfg + 2 * h) + h) (local_cols cfg) (msgs ! i)
          else None))
       [0..<local_rows cfg] loc"

section \<open>The Boundary Exchanger: \<open>exchange_halo_blocking\<close>\<close>

text \<open>
  The four neighbours; \<open>None\<close> is \<open>MPI_PROC_NULL\<close>.
\<close>

definition north :: "DomainConfig \<Rightarrow> nat option" where
  "north cfg = (if my_row cfg > 0 then Some (rank cfg - grid_cols cfg) else None)"

definition south :: "DomainConfig \<Rightarrow> nat option" where
  "south cfg = (if my_row cfg < grid_rows cfg - 1 then Some (rank cfg + grid_cols cfg) else None)"

definition west :: "DomainConfig \<Rightarrow> nat option" where
  "west cfg = (if my_col cfg > 0 then Some (rank cfg - 1) else None)"

definition east :: "DomainConfig \<Rightarrow> nat option" where
  "east cfg = (if my_col cfg < grid_cols cfg - 1 then Some (rank cfg + 1) else None)"

text \<open>
  A mailbox tells a rank what a given source rank sends to it under a given tag
  (\<open>None\<close>: nothing, the receive blocks for ever). The receiving half of
  \<open>MPI_Sendrecv\<close> is a receive from the mailbox.
\<close>

type_synonym mailbox = "nat \<Rightarrow> nat \<Rightarrow> int list option"

definition sendrecv_recv :: "mailbox \<Rightarrow> int list \<Rightarrow> nat \<Rightarrow> nat \<Rightarrow> nat \<Rightarrow> nat \<Rightarrow> int list option" where
  "sendrecv_recv env buf off count src tag =
     (case env src tag of None \<Rightarrow> None | Some m \<Rightarrow> recv_into buf off count m)"

text \<open>
  The four blocks of \<open>exchange_halo_blocking\<close>, one per direction: what each receives
  into the tile, and what each sends. The source writes the send offset of the south
  block as \<open>(rows-1+h) * pitch + h\<close>; on natural numbers it is written \<open>rows + h - 1\<close>,
  the same number for \<open>h = 1\<close>.
\<close>

definition exchange_north :: "int list \<Rightarrow> DomainConfig \<Rightarrow> mailbox \<Rightarrow> int list option" where
  "exchange_north loc cfg env =
     (let h = halo_size cfg; cols = local_cols cfg; pitch = cols + 2 * h in
      case north cfg of
        None \<Rightarrow> Some loc
      | Some nb \<Rightarrow> sendrecv_recv env loc (0 * pitch + h) cols nb 1)"

definition exchange_south :: "int list \<Rightarrow> DomainConfig \<Rightarrow> mailbox \<Rightarrow> int list option" where
  "exchange_south loc cfg env =
     (let h = halo_size cfg; rows = local_rows cfg; cols = local_cols cfg; pitch = cols + 2 * h in
      case south cfg of
        None \<Rightarrow> Some loc
      | Some nb \<Rightarrow> sendrecv_recv env loc ((rows + h) * pitch + h) cols nb 0)"

definition exchange_west :: "int list \<Rightarrow> DomainConfig \<Rightarrow> mailbox \<Rightarrow> int list option" where
  "exchange_west loc cfg env =
     (let h = halo_size cfg; rows = local_rows cfg; cols = local_cols cfg; pitch = cols + 2 * h in
      case west cfg of
        None \<Rightarrow> Some loc
      | Some nb \<Rightarrow>
          fold_option (\<lambda>i l. (let idx = (i + h) * pitch in
                                sendrecv_recv env l idx 1 nb (2 + rows + i)))
            [0..<rows] loc)"

definition exchange_east :: "int list \<Rightarrow> DomainConfig \<Rightarrow> mailbox \<Rightarrow> int list option" where
  "exchange_east loc cfg env =
     (let h = halo_size cfg; rows = local_rows cfg; cols = local_cols cfg; pitch = cols + 2 * h in
      case east cfg of
        None \<Rightarrow> Some loc
      | Some nb \<Rightarrow>
          fold_option (\<lambda>i l. (let idx = (i + h) * pitch in
                                sendrecv_recv env l (idx + cols + h) 1 nb (2 + i)))
            [0..<rows] loc)"

definition exchange_halo_blocking :: "int list \<Rightarrow> DomainConfig \<Rightarrow> mailbox \<Rightarrow> int list option" where
  "exchange_halo_blocking loc cfg env =
     (case exchange_north loc cfg env of None \<Rightarrow> None | Some l1 \<Rightarrow>
      case exchange_south l1 cfg env of None \<Rightarrow> None | Some l2 \<Rightarrow>
      case exchange_west l2 cfg env of None \<Rightarrow> None | Some l3 \<Rightarrow>
      exchange_east l3 cfg env)"

definition sends_north :: "int list \<Rightarrow> DomainConfig \<Rightarrow> message list" where
  "sends_north loc cfg =
     (let h = halo_size cfg; cols = local_cols cfg; pitch = cols + 2 * h in
      case north cfg of
        None \<Rightarrow> []
      | Some nb \<Rightarrow> [(nb, 0, payload loc (h * pitch + h) cols)])"

definition sends_south :: "int list \<Rightarrow> DomainConfig \<Rightarrow> message list" where
  "sends_south loc cfg =
     (let h = halo_size cfg; rows = local_rows cfg; cols = local_cols cfg; pitch = cols + 2 * h in
      case south cfg of
        None \<Rightarrow> []
      | Some nb \<Rightarrow> [(nb, 1, payload loc ((rows + h - 1) * pitch + h) cols)])"

definition sends_west :: "int list \<Rightarrow> DomainConfig \<Rightarrow> message list" where
  "sends_west loc cfg =
     (let h = halo_size cfg; rows = local_rows cfg; cols = local_cols cfg; pitch = cols + 2 * h in
      case west cfg of
        None \<Rightarrow> []
      | Some nb \<Rightarrow> map (\<lambda>i. (let idx = (i + h) * pitch in (nb, 2 + i, payload loc (idx + h) 1)))
                     [0..<rows])"

definition sends_east :: "int list \<Rightarrow> DomainConfig \<Rightarrow> message list" where
  "sends_east loc cfg =
     (let h = halo_size cfg; rows = local_rows cfg; cols = local_cols cfg; pitch = cols + 2 * h in
      case east cfg of
        None \<Rightarrow> []
      | Some nb \<Rightarrow> map (\<lambda>i. (let idx = (i + h) * pitch in
                                (nb, 2 + rows + i, payload loc (idx + cols + h - 1) 1)))
                     [0..<rows])"

text \<open>
  All messages one call of \<open>exchange_halo_blocking\<close> sends, in program order;
  \<open>l0\<close>, \<open>l1\<close>, \<open>l2\<close>, \<open>l3\<close> are the tile as it is when the north, south, west and east
  block starts.
\<close>

definition halo_sends ::
    "int list \<Rightarrow> int list \<Rightarrow> int list \<Rightarrow> int list \<Rightarrow> DomainConfig \<Rightarrow> message list" where
  "halo_sends l0 l1 l2 l3 cfg =
     sends_north l0 cfg @ sends_south l1 cfg @ sends_west l2 cfg @ sends_east l3 cfg"

section \<open>The Stencil Kernel: \<open>compute_sobel_local\<close>\<close>

definition clamp255 :: "int \<Rightarrow> int" where
  "clamp255 v = (if v < 0 then 0 else if v > 255 then 255 else v)"

definition gx :: "int list list" where
  "gx = [[-1, 0, 1], [-2, 0, 2], [-1, 0, 1]]"

definition gy :: "int list list" where
  "gy = [[-1, -2, -1], [0, 0, 0], [1, 2, 1]]"

text \<open>
  The two inner loops over \<open>di\<close> and \<open>dj\<close> from \<open>-1\<close> to \<open>1\<close>, for the padded cell
  \<open>(i, j)\<close>: they accumulate \<open>(gx_val, gy_val)\<close> in 32-bit \<open>int\<close>s, and so are the squares and
  their sum under the square root.
\<close>

definition gradients :: "int list \<Rightarrow> nat \<Rightarrow> nat \<Rightarrow> nat \<Rightarrow> int \<times> int" where
  "gradients loc pitch i j =
     fold (\<lambda>di acc. fold (\<lambda>dj (gx_val, gy_val).
         (let pixel = loc ! (nat (int i + di) * pitch + nat (int j + dj))
          in (int32 (gx_val + int32 (gx ! nat (di + 1) ! nat (dj + 1) * pixel)),
              int32 (gy_val + int32 (gy ! nat (di + 1) ! nat (dj + 1) * pixel)))))
       [-1, 0, 1] acc) [-1, 0, 1] (0, 0)"

definition compute_sobel_local :: "int list \<Rightarrow> int list \<Rightarrow> DomainConfig \<Rightarrow> int list" where
  "compute_sobel_local loc outp cfg =
     (let h = halo_size cfg; rows = local_rows cfg; cols = local_cols cfg; pitch = cols + 2 * h in
      fold (\<lambda>i out. fold (\<lambda>j out.
          (case gradients loc pitch i j of (gx_val, gy_val) \<Rightarrow>
             (let mag = sqrt_cast (int32 (int32 (gx_val * gx_val) + int32 (gy_val * gy_val)))
              in out[(i - h) * cols + (j - h) := clamp255 mag])))
        [h..<cols + h] out) [h..<rows + h] outp)"

section \<open>The Collector: \<open>gather_image\<close>\<close>

text \<open>The block rank 0 computes for rank \<open>r\<close> in \<open>gather_image\<close> (lines 180 to 188).\<close>

definition gather_block :: "DomainConfig \<Rightarrow> nat \<Rightarrow> nat \<Rightarrow> nat \<times> nat \<times> nat \<times> nat" where
  "gather_block cfg N r =
     (let dst_row = r div grid_cols cfg;
          dst_col = r mod grid_cols cfg;
          start_row = dst_row * (N div grid_rows cfg);
          start_col = dst_col * (N div grid_cols cfg);
          rows = (if dst_row = grid_rows cfg - 1 then N - start_row else N div grid_rows cfg);
          cols = (if dst_col = grid_cols cfg - 1 then N - start_col else N div grid_cols cfg)
      in (start_row, start_col, rows, cols))"

text \<open>The branch of the other ranks: the rows of the output tile, sent to rank 0 with tag 0.\<close>

definition gather_image_send :: "int list \<Rightarrow> DomainConfig \<Rightarrow> message list" where
  "gather_image_send outp cfg =
     map (\<lambda>i. (0, 0, payload outp (i * local_cols cfg) (local_cols cfg))) [0..<local_rows cfg]"

text \<open>
  The branch of rank 0: for every rank in turn, copy the own output tile (\<open>r = 0\<close>,
  \<open>gather_copy\<close>) or receive \<open>rows\<close> messages of \<open>cols\<close> elements from rank \<open>r\<close>
  (\<open>gather_recvs\<close>). \<open>from r\<close> are the messages rank \<open>r\<close> sent to rank 0, in order; a
  rank that sent a different number of messages than rank 0 receives leaves one side
  blocked (\<open>None\<close>).
\<close>

definition gather_copy :: "int list \<Rightarrow> int list \<Rightarrow> DomainConfig \<Rightarrow> nat \<Rightarrow> nat \<Rightarrow> int list" where
  "gather_copy outp glob cfg N r =
     (case gather_block cfg N r of (start_row, start_col, rows, cols) \<Rightarrow>
        fold (\<lambda>i g. fold (\<lambda>j g.
            g[(start_row + i) * N + start_col + j := outp ! (i * cols + j)])
          [0..<cols] g) [0..<rows] glob)"

definition gather_recvs ::
    "int list \<Rightarrow> DomainConfig \<Rightarrow> nat \<Rightarrow> nat \<Rightarrow> int list list \<Rightarrow> int list option" where
  "gather_recvs glob cfg N r msgs =
     (case gather_block cfg N r of (start_row, start_col, rows, cols) \<Rightarrow>
        if length msgs \<noteq> rows then None
        else fold_option (\<lambda>i g. recv_into g ((start_row + i) * N + start_col) cols (msgs ! i))
               [0..<rows] glob)"

definition gather_image_root ::
    "int list \<Rightarrow> int list \<Rightarrow> DomainConfig \<Rightarrow> nat \<Rightarrow> (nat \<Rightarrow> int list list) \<Rightarrow> int list option" where
  "gather_image_root outp glob cfg N from =
     fold_option (\<lambda>r g.
          if r = 0 then Some (gather_copy outp g cfg N r)
          else gather_recvs g cfg N r (from r))
       [0..<world_size cfg] glob"

section \<open>The process group and the run harness\<close>

text \<open>
  The variables of \<open>main\<close> that one process holds. \<open>init_proc\<close> is the allocation of
  \<open>main\<close>: the padded tile and the output tile are zero, the global image of rank 0 is the
  input image (\<open>main\<close> fills it with \<open>main_image\<close>; the model takes any image), that of
  the other ranks is zero and never used.
\<close>

record proc =
  config :: DomainConfig
  local_img :: "int list"
  output_img :: "int list"
  global_img :: "int list"

definition main_image :: "nat \<Rightarrow> int list" where
  "main_image N = map (\<lambda>i. int (i mod 256)) [0..<N * N]"

definition init_proc :: "nat \<Rightarrow> int list \<Rightarrow> DomainConfig \<Rightarrow> proc" where
  "init_proc N img cfg =
     (let h = halo_size cfg in
      \<lparr> config = cfg,
        local_img = replicate ((local_rows cfg + 2 * h) * (local_cols cfg + 2 * h)) 0,
        output_img = replicate (local_rows cfg * local_cols cfg) 0,
        global_img = (if rank cfg = 0 then img else replicate (N * N) 0) \<rparr>)"

definition init_world :: "nat \<Rightarrow> nat \<Rightarrow> int list \<Rightarrow> proc list option" where
  "init_world N p img =
     those (map (\<lambda>r. map_option (init_proc N img) (setup_domain N r p)) [0..<p])"

text \<open>
  One collective call of each stage, on the list of all processes (index = rank). The
  messages a rank receives are the ones its peers send in the same call.
  \<open>MPI_Barrier\<close> moves no data.
\<close>

definition scatter_world :: "nat \<Rightarrow> proc list \<Rightarrow> proc list option" where
  "scatter_world N w =
     (case w of
        [] \<Rightarrow> None
      | q0 # _ \<Rightarrow>
          (case scatter_image_root (global_img q0) (local_img q0) (config q0) N of (l0, out) \<Rightarrow>
             those (map (\<lambda>q.
                 if rank (config q) = 0 then Some (q\<lparr>local_img := l0\<rparr>)
                 else if length (inbox out (rank (config q)) 0) \<noteq> local_rows (config q) then None
                 else map_option (\<lambda>l. q\<lparr>local_img := l\<rparr>)
                        (scatter_image_recv (local_img q) (config q) (inbox out (rank (config q)) 0)))
               w)))"

text \<open>
  The exchange on the process group. A receive of \<open>MPI_Sendrecv\<close> takes the first
  message its source sent to this rank under the tag. Tag 1 is sent by the south block
  only, tag 0 by the north block, the tags \<open>2 + i\<close> by the west block and the tags
  \<open>2 + rows + i\<close> by the east block, so \<open>mailbox_of sends w me\<close> looks among the messages
  \<open>sends\<close> of one block, read from the tiles of \<open>w\<close> (\<open>inbox_halo_sends\<close>: among all
  messages of the call it finds the same).

  Every block reads its send buffers from the tile as the blocks before it left it:
  \<^item> the north block of a rank receives what the south block of the rank above sends,
    which runs after that rank's own north block. The rank above has the smaller number,
    so the north blocks are run in rank order on the group (\<open>exchange_sweep\<close>), each
    reading the tile its source holds by then;
  \<^item> the south block receives what the north block of the rank below sends, which is the
    first block there and reads the tile as it is when the exchange starts
    (\<open>exchange_answer\<close>, with the group before the call as the source);
  \<^item> the west block receives what the east block of the rank to the left sends, after
    the west block of that rank: rank order again;
  \<^item> the east block receives what the west block of the rank to the right sends, read
    from the tile that rank holds after its south block.

  Within the west and the east block the sends read one column and the receives write
  another, so a block's messages are read from the tile as it is when the block starts.
  On every rank the outcome is that of \<open>exchange_halo_blocking\<close> on the rank's tile, with
  the mailbox these messages make up (\<open>exchange_world_rank\<close>).
\<close>

definition mailbox_of ::
    "(int list \<Rightarrow> DomainConfig \<Rightarrow> message list) \<Rightarrow> proc list \<Rightarrow> nat \<Rightarrow> mailbox" where
  "mailbox_of sends w me src tag =
     (if src < length w
      then (case inbox (sends (local_img (w ! src)) (config (w ! src))) me tag of
              [] \<Rightarrow> None
            | m # _ \<Rightarrow> Some m)
      else None)"

definition exchange_sweep ::
    "(int list \<Rightarrow> DomainConfig \<Rightarrow> mailbox \<Rightarrow> int list option) \<Rightarrow>
     (int list \<Rightarrow> DomainConfig \<Rightarrow> message list) \<Rightarrow> proc list \<Rightarrow> proc list option" where
  "exchange_sweep block sends w =
     fold_option (\<lambda>r v.
         map_option (\<lambda>l. v[r := (v ! r)\<lparr>local_img := l\<rparr>])
           (block (local_img (v ! r)) (config (v ! r)) (mailbox_of sends v (rank (config (v ! r))))))
       [0..<length w] w"

definition exchange_answer ::
    "(int list \<Rightarrow> DomainConfig \<Rightarrow> mailbox \<Rightarrow> int list option) \<Rightarrow>
     (int list \<Rightarrow> DomainConfig \<Rightarrow> message list) \<Rightarrow> proc list \<Rightarrow> proc list \<Rightarrow> proc list option" where
  "exchange_answer block sends src w =
     those (map (\<lambda>q. map_option (\<lambda>l. q\<lparr>local_img := l\<rparr>)
                       (block (local_img q) (config q) (mailbox_of sends src (rank (config q)))))
              w)"

definition exchange_world :: "proc list \<Rightarrow> proc list option" where
  "exchange_world w =
     (case exchange_sweep exchange_north sends_south w of None \<Rightarrow> None | Some w1 \<Rightarrow>
      case exchange_answer exchange_south sends_north w w1 of None \<Rightarrow> None | Some w2 \<Rightarrow>
      case exchange_sweep exchange_west sends_east w2 of None \<Rightarrow> None | Some w3 \<Rightarrow>
      exchange_answer exchange_east sends_west w2 w3)"

definition compute_world :: "proc list \<Rightarrow> proc list" where
  "compute_world w =
     map (\<lambda>q. q\<lparr>output_img := compute_sobel_local (local_img q) (output_img q) (config q)\<rparr>) w"

definition gather_world :: "nat \<Rightarrow> proc list \<Rightarrow> proc list option" where
  "gather_world N w =
     (case w of
        [] \<Rightarrow> None
      | q0 # _ \<Rightarrow>
          map_option (\<lambda>g. w[0 := q0\<lparr>global_img := g\<rparr>])
            (gather_image_root (output_img q0) (global_img q0) (config q0) N
               (\<lambda>r. if r < length w
                     then inbox (gather_image_send (output_img (w ! r)) (config (w ! r))) 0 0
                     else [])))"

text \<open>One pass of the loop of \<open>main\<close>, and \<open>num_runs\<close> passes.\<close>

definition iteration :: "nat \<Rightarrow> proc list \<Rightarrow> proc list option" where
  "iteration N w =
     (case scatter_world N w of None \<Rightarrow> None | Some w1 \<Rightarrow>
      case exchange_world w1 of None \<Rightarrow> None | Some w2 \<Rightarrow>
      gather_world N (compute_world w2))"

fun run :: "nat \<Rightarrow> nat \<Rightarrow> proc list \<Rightarrow> proc list option" where
  "run 0 N w = Some w"
| "run (Suc k) N w = (case iteration N w of None \<Rightarrow> None | Some w' \<Rightarrow> run k N w')"

definition sobel_mpi :: "nat \<Rightarrow> nat \<Rightarrow> nat \<Rightarrow> int list \<Rightarrow> int list option" where
  "sobel_mpi N num_runs p img =
     (case init_world N p img of None \<Rightarrow> None | Some w \<Rightarrow>
      case run num_runs N w of None \<Rightarrow> None | Some w' \<Rightarrow>
      (case w' of [] \<Rightarrow> None | q0 # _ \<Rightarrow> Some (global_img q0)))"

section \<open>The timing report of \<open>main\<close>\<close>

text \<open>
  The four \<open>MPI_Wtime\<close> readings of one pass of the loop are inputs of the model.
  \<open>accumulate\<close> is what the loop adds up in \<open>total_time\<close> and \<open>total_comm_time\<close>;
  \<open>main_report\<close> is the line rank 0 prints after the loop, with its four values
  (\<open>RANKS\<close>, \<open>SIZE\<close>, \<open>RUNS\<close>, \<open>AVG_TIME\<close> in milliseconds). The \<open>double\<close>s are modelled
  as real numbers.
\<close>

record timestamps =
  t_start :: real
  t_comm_start :: real
  t_comm_end :: real
  t_end :: real

definition accumulate :: "timestamps list \<Rightarrow> real \<times> real" where
  "accumulate ts =
     fold (\<lambda>t (total_time, total_comm_time).
            (total_time + (t_end t - t_start t),
             total_comm_time + (t_comm_end t - t_comm_start t)))
       ts (0, 0)"

record report =
  RANKS :: nat
  SIZE :: nat
  RUNS :: nat
  AVG_TIME :: real

definition main_report :: "nat \<Rightarrow> nat \<Rightarrow> timestamps list \<Rightarrow> report" where
  "main_report ws N ts =
     (case accumulate ts of (total_time, total_comm_time) \<Rightarrow>
        (let num_runs = length ts;
             avg_time = (total_time / real num_runs) * 1000
         in \<lparr> RANKS = ws, SIZE = N, RUNS = num_runs, AVG_TIME = avg_time \<rparr>))"


subsection \<open>The configuration for a given grid dimension\<close>

text \<open>
  The record that \<open>setup_domain\<close> builds once the divisor search has returned
  \<open>g\<close>; used to state facts about \<open>setup_domain\<close>.
\<close>

definition config_for :: "nat \<Rightarrow> nat \<Rightarrow> nat \<Rightarrow> nat \<Rightarrow> DomainConfig" where
  "config_for N r p g =
     \<lparr> rank = r, world_size = p, image_size = N,
       grid_rows = g, grid_cols = p div g,
       my_row = r div (p div g), my_col = r mod (p div g),
       local_rows = (if r div (p div g) = g - 1 then N - (g - 1) * (N div g) else N div g),
       local_cols = (if r mod (p div g) = p div g - 1 then N - (p div g - 1) * (N div (p div g))
                     else N div (p div g)),
       halo_size = 1 \<rparr>"

subsection \<open>Notions used to state the claims\<close>

text \<open>
  Whether pixel \<open>(i, j)\<close> of the global image lies in a block
  \<open>(start_row, start_col, rows, cols)\<close>.
\<close>

definition in_block :: "nat \<times> nat \<times> nat \<times> nat \<Rightarrow> nat \<Rightarrow> nat \<Rightarrow> bool" where
  "in_block blk i j =
     (case blk of (start_row, start_col, rows, cols) \<Rightarrow>
        start_row \<le> i \<and> i < start_row + rows \<and> start_col \<le> j \<and> j < start_col + cols)"

text \<open>
  The tile geometry rank \<open>r\<close> computes for itself, in the shape of a block: its offsets
  are its grid position times the base tile sizes.
\<close>

definition start_row_of :: "DomainConfig \<Rightarrow> nat" where
  "start_row_of cfg = my_row cfg * (image_size cfg div grid_rows cfg)"

definition start_col_of :: "DomainConfig \<Rightarrow> nat" where
  "start_col_of cfg = my_col cfg * (image_size cfg div grid_cols cfg)"

definition own_block :: "DomainConfig \<Rightarrow> nat \<times> nat \<times> nat \<times> nat" where
  "own_block cfg = (start_row_of cfg, start_col_of cfg, local_rows cfg, local_cols cfg)"

text \<open>A factorisation \<open>p = g * gc\<close> into a grid of \<open>g\<close> rows and \<open>gc\<close> columns.\<close>

definition is_grid :: "nat \<Rightarrow> nat \<Rightarrow> nat \<Rightarrow> bool" where
  "is_grid p g gc = (1 \<le> g \<and> 1 \<le> gc \<and> p = g * gc)"

text \<open>
  The workers of grid column \<open>c\<close> and of grid row \<open>b\<close> among the ranks below \<open>p\<close>, and
  the tile sizes of a rank (0 where \<open>setup_domain\<close> fails).
\<close>

definition grid_column_workers :: "nat \<Rightarrow> nat \<Rightarrow> nat \<Rightarrow> nat list" where
  "grid_column_workers N p c =
     filter (\<lambda>r. map_option my_col (setup_domain N r p) = Some c) [0..<p]"

definition grid_row_workers :: "nat \<Rightarrow> nat \<Rightarrow> nat \<Rightarrow> nat list" where
  "grid_row_workers N p b =
     filter (\<lambda>r. map_option my_row (setup_domain N r p) = Some b) [0..<p]"

definition local_rows_of :: "nat \<Rightarrow> nat \<Rightarrow> nat \<Rightarrow> nat" where
  "local_rows_of N p r = (case setup_domain N r p of None \<Rightarrow> 0 | Some cfg \<Rightarrow> local_rows cfg)"

definition local_cols_of :: "nat \<Rightarrow> nat \<Rightarrow> nat \<Rightarrow> nat" where
  "local_cols_of N p r = (case setup_domain N r p of None \<Rightarrow> 0 | Some cfg \<Rightarrow> local_cols cfg)"

text \<open>
  The stencil as the specification words it: the cell \<open>(i, j)\<close> of the padded tile, the two
  3x3 convolutions over its eight neighbours, and the magnitude, once rounded to the
  nearest integer (as the specification says) and once truncated (as the cast does).
\<close>

definition tile_cell :: "DomainConfig \<Rightarrow> int list \<Rightarrow> nat \<Rightarrow> nat \<Rightarrow> int" where
  "tile_cell cfg loc i j = loc ! (i * (local_cols cfg + 2 * halo_size cfg) + j)"

definition sobel_gx :: "(nat \<Rightarrow> nat \<Rightarrow> int) \<Rightarrow> nat \<Rightarrow> nat \<Rightarrow> int" where
  "sobel_gx t i j =
     - t (i - 1) (j - 1) + t (i - 1) (j + 1)
     - 2 * t i (j - 1) + 2 * t i (j + 1)
     - t (i + 1) (j - 1) + t (i + 1) (j + 1)"

definition sobel_gy :: "(nat \<Rightarrow> nat \<Rightarrow> int) \<Rightarrow> nat \<Rightarrow> nat \<Rightarrow> int" where
  "sobel_gy t i j =
     - t (i - 1) (j - 1) - 2 * t (i - 1) j - t (i - 1) (j + 1)
     + t (i + 1) (j - 1) + 2 * t (i + 1) j + t (i + 1) (j + 1)"

definition magnitude_rounded :: "int \<Rightarrow> int \<Rightarrow> int" where
  "magnitude_rounded Gx Gy = clamp255 (round (sqrt (real_of_int (Gx * Gx + Gy * Gy))))"

definition magnitude_truncated :: "int \<Rightarrow> int \<Rightarrow> int" where
  "magnitude_truncated Gx Gy = clamp255 \<lfloor>sqrt (real_of_int (Gx * Gx + Gy * Gy))\<rfloor>"

text \<open>
  The four directions of the exchange, to speak about one side of a tile: the neighbour
  on that side, the block of \<open>exchange_halo_blocking\<close> for it, and the border cells of
  the padded tile on that side (as row and column in the padded tile, corners included).
\<close>

datatype direction = North | South | West | East

fun neighbor :: "direction \<Rightarrow> DomainConfig \<Rightarrow> nat option" where
  "neighbor North cfg = north cfg"
| "neighbor South cfg = south cfg"
| "neighbor West cfg = west cfg"
| "neighbor East cfg = east cfg"

fun exchange_dir :: "direction \<Rightarrow> int list \<Rightarrow> DomainConfig \<Rightarrow> mailbox \<Rightarrow> int list option" where
  "exchange_dir North loc cfg env = exchange_north loc cfg env"
| "exchange_dir South loc cfg env = exchange_south loc cfg env"
| "exchange_dir West loc cfg env = exchange_west loc cfg env"
| "exchange_dir East loc cfg env = exchange_east loc cfg env"

fun sends_dir :: "direction \<Rightarrow> int list \<Rightarrow> DomainConfig \<Rightarrow> message list" where
  "sends_dir North loc cfg = sends_north loc cfg"
| "sends_dir South loc cfg = sends_south loc cfg"
| "sends_dir West loc cfg = sends_west loc cfg"
| "sends_dir East loc cfg = sends_east loc cfg"

fun border_cells :: "direction \<Rightarrow> DomainConfig \<Rightarrow> (nat \<times> nat) list" where
  "border_cells North cfg = map (\<lambda>b. (0, b)) [0..<local_cols cfg + 2 * halo_size cfg]"
| "border_cells South cfg =
     map (\<lambda>b. (local_rows cfg + halo_size cfg, b)) [0..<local_cols cfg + 2 * halo_size cfg]"
| "border_cells West cfg = map (\<lambda>a. (a, 0)) [0..<local_rows cfg + 2 * halo_size cfg]"
| "border_cells East cfg =
     map (\<lambda>a. (a, local_cols cfg + halo_size cfg)) [0..<local_rows cfg + 2 * halo_size cfg]"

definition zero_border :: "direction \<Rightarrow> DomainConfig \<Rightarrow> int list \<Rightarrow> bool" where
  "zero_border d cfg loc = list_all (\<lambda>(a, b). tile_cell cfg loc a b = 0) (border_cells d cfg)"

text \<open>
  The identity kernel of the round-trip property: the loops of \<open>compute_sobel_local\<close>
  with the cell itself as the value written (output = input).
\<close>

definition identity_kernel :: "int list \<Rightarrow> int list \<Rightarrow> DomainConfig \<Rightarrow> int list" where
  "identity_kernel loc outp cfg =
     (let h = halo_size cfg; rows = local_rows cfg; cols = local_cols cfg; pitch = cols + 2 * h in
      fold (\<lambda>i out. fold (\<lambda>j out. out[(i - h) * cols + (j - h) := loc ! (i * pitch + j)])
        [h..<cols + h] out) [h..<rows + h] outp)"

definition identity_world :: "proc list \<Rightarrow> proc list" where
  "identity_world w =
     map (\<lambda>q. q\<lparr>output_img := identity_kernel (local_img q) (output_img q) (config q)\<rparr>) w"

text \<open>
  A buffer of the size of the global image agrees with a reference image on a block.
\<close>

definition block_agrees :: "nat \<times> nat \<times> nat \<times> nat \<Rightarrow> nat \<Rightarrow> int list \<Rightarrow> int list \<Rightarrow> bool" where
  "block_agrees blk N g ref =
     (case blk of (start_row, start_col, rows, cols) \<Rightarrow>
        \<forall>i < rows. \<forall>j < cols.
          g ! ((start_row + i) * N + start_col + j) = ref ! ((start_row + i) * N + start_col + j))"

text \<open>
  A list of processes shaped as \<open>main\<close> allocates them for the grid with \<open>g\<close> rows: the
  process at index \<open>r\<close> holds the configuration of rank \<open>r\<close> and buffers of the allocated
  sizes. \<open>tile_holds\<close> says that the interior of a tile is the block of a reference image
  that belongs to the tile's rank.
\<close>

definition world_ok :: "nat \<Rightarrow> nat \<Rightarrow> nat \<Rightarrow> proc list \<Rightarrow> bool" where
  "world_ok N p g w =
     (length w = p \<and>
      (\<forall>r < p. config (w ! r) = config_for N r p g \<and>
         length (local_img (w ! r)) = (local_rows (config (w ! r)) + 2) * (local_cols (config (w ! r)) + 2) \<and>
         length (output_img (w ! r)) = local_rows (config (w ! r)) * local_cols (config (w ! r)) \<and>
         length (global_img (w ! r)) = N * N))"

definition tile_holds :: "DomainConfig \<Rightarrow> nat \<Rightarrow> int list \<Rightarrow> int list \<Rightarrow> bool" where
  "tile_holds cfg N loc ref =
     (\<forall>i < local_rows cfg. \<forall>j < local_cols cfg.
        loc ! ((i + 1) * (local_cols cfg + 2) + (j + 1))
          = ref ! ((start_row_of cfg + i) * N + start_col_of cfg + j))"

definition outside_interior :: "DomainConfig \<Rightarrow> nat \<Rightarrow> nat \<Rightarrow> bool" where
  "outside_interior cfg a b =
     (b < local_cols cfg + 2 \<and> \<not> (1 \<le> a \<and> a \<le> local_rows cfg \<and> 1 \<le> b \<and> b \<le> local_cols cfg))"

text \<open>
  The cells of the padded tile (row \<open>a\<close>, column \<open>b\<close>) that the block of the exchange for
  one direction can write.
\<close>

fun written_by :: "direction \<Rightarrow> DomainConfig \<Rightarrow> nat \<Rightarrow> nat \<Rightarrow> bool" where
  "written_by North cfg a b = (a = 0 \<and> 1 \<le> b \<and> b \<le> local_cols cfg)"
| "written_by South cfg a b = (a = local_rows cfg + 1 \<and> 1 \<le> b \<and> b \<le> local_cols cfg)"
| "written_by West cfg a b = (1 \<le> a \<and> a \<le> local_rows cfg \<and> b = 0)"
| "written_by East cfg a b = (1 \<le> a \<and> a \<le> local_rows cfg \<and> b = local_cols cfg + 1)"

text \<open>
  The invariant of the run: the processes are shaped as allocated, and every tile has
  zero border cells on each side where its rank has no neighbour.
\<close>

definition run_inv :: "nat \<Rightarrow> nat \<Rightarrow> nat \<Rightarrow> proc list \<Rightarrow> bool" where
  "run_inv N p g w =
     (world_ok N p g w \<and>
      (\<forall>r < p. \<forall>d. neighbor d (config (w ! r)) = None \<longrightarrow>
         zero_border d (config (w ! r)) (local_img (w ! r))))"

text \<open>
  A mailbox delivers to a rank what the block of the exchange for direction \<open>d\<close> waits
  for: a message for every receive, no longer than the receive count.
\<close>

fun delivers :: "mailbox \<Rightarrow> DomainConfig \<Rightarrow> direction \<Rightarrow> bool" where
  "delivers env cfg North =
     (case north cfg of None \<Rightarrow> True
      | Some nb \<Rightarrow> (case env nb 1 of None \<Rightarrow> False | Some m \<Rightarrow> length m \<le> local_cols cfg))"
| "delivers env cfg South =
     (case south cfg of None \<Rightarrow> True
      | Some nb \<Rightarrow> (case env nb 0 of None \<Rightarrow> False | Some m \<Rightarrow> length m \<le> local_cols cfg))"
| "delivers env cfg West =
     (case west cfg of None \<Rightarrow> True
      | Some nb \<Rightarrow> list_all (\<lambda>i. case env nb (2 + local_rows cfg + i) of
                                   None \<Rightarrow> False | Some m \<Rightarrow> length m \<le> 1) [0..<local_rows cfg])"
| "delivers env cfg East =
     (case east cfg of None \<Rightarrow> True
      | Some nb \<Rightarrow> list_all (\<lambda>i. case env nb (2 + i) of
                                   None \<Rightarrow> False | Some m \<Rightarrow> length m \<le> 1) [0..<local_rows cfg])"


section \<open>The blocking order of the exchange\<close>

text \<open>
  One call of \<open>MPI_Sendrecv\<close>, as far as blocking goes: it sends one message to \<open>dest\<close>
  under \<open>sendtag\<close> and receives one from \<open>source\<close> under \<open>recvtag\<close>, and returns when both
  are complete. \<open>exchange_ops\<close> are the calls \<open>exchange_halo_blocking\<close> makes on a rank, in
  program order: one towards north, one towards south, \<open>local_rows\<close> towards west and
  \<open>local_rows\<close> towards east, each only if that neighbour exists.
\<close>

record sendrecv =
  dest :: nat
  sendtag :: nat
  source :: nat
  recvtag :: nat

definition exchange_ops :: "DomainConfig \<Rightarrow> sendrecv list" where
  "exchange_ops cfg =
     (let rows = local_rows cfg in
      (case north cfg of None \<Rightarrow> []
       | Some nb \<Rightarrow> [\<lparr>dest = nb, sendtag = 0, source = nb, recvtag = 1\<rparr>]) @
      (case south cfg of None \<Rightarrow> []
       | Some nb \<Rightarrow> [\<lparr>dest = nb, sendtag = 1, source = nb, recvtag = 0\<rparr>]) @
      (case west cfg of None \<Rightarrow> []
       | Some nb \<Rightarrow> map (\<lambda>i. \<lparr>dest = nb, sendtag = 2 + i, source = nb, recvtag = 2 + rows + i\<rparr>)
                     [0..<rows]) @
      (case east cfg of None \<Rightarrow> []
       | Some nb \<Rightarrow> map (\<lambda>i. \<lparr>dest = nb, sendtag = 2 + rows + i, source = nb, recvtag = 2 + i\<rparr>)
                     [0..<rows]))"

text \<open>The configurations of all ranks of a process group of \<open>p\<close> processes.\<close>

definition group_configs :: "nat \<Rightarrow> nat \<Rightarrow> DomainConfig list option" where
  "group_configs N p = those (map (\<lambda>r. setup_domain N r p) [0..<p])"

text \<open>
  The processes of a group run their calls concurrently. A rank is in call number \<open>pc\<close>
  of its program; \<open>sent\<close> and \<open>received\<close> tell which halves of that call are complete.
  Sends are taken to be synchronous, the strictest reading of a blocking send (no
  buffering by the library): the send of rank \<open>a\<close> completes together with the receive of
  rank \<open>b\<close>, and only when \<open>a\<close> is in a call that sends to \<open>b\<close> while \<open>b\<close> is in a call that
  receives from \<open>a\<close> under the same tag (\<open>can_transfer\<close>). A call whose two halves are
  complete returns, and the rank goes on to its next call (\<open>settle\<close>).
\<close>

record call_state =
  pc :: nat
  sent :: bool
  received :: bool

definition start :: "sendrecv list list \<Rightarrow> call_state list" where
  "start progs = map (\<lambda>_. \<lparr>pc = 0, sent = False, received = False\<rparr>) progs"

definition can_transfer :: "sendrecv list list \<Rightarrow> call_state list \<Rightarrow> nat \<Rightarrow> nat \<Rightarrow> bool" where
  "can_transfer progs s a b =
     (a < length progs \<and> b < length progs \<and>
      pc (s ! a) < length (progs ! a) \<and> pc (s ! b) < length (progs ! b) \<and>
      \<not> sent (s ! a) \<and> \<not> received (s ! b) \<and>
      dest (progs ! a ! pc (s ! a)) = b \<and>
      source (progs ! b ! pc (s ! b)) = a \<and>
      sendtag (progs ! a ! pc (s ! a)) = recvtag (progs ! b ! pc (s ! b)))"

definition settle :: "call_state \<Rightarrow> call_state" where
  "settle c = (if sent c \<and> received c then \<lparr>pc = pc c + 1, sent = False, received = False\<rparr> else c)"

definition transfer :: "call_state list \<Rightarrow> nat \<Rightarrow> nat \<Rightarrow> call_state list" where
  "transfer s a b =
     (let s1 = s[a := (s ! a)\<lparr>sent := True\<rparr>];
          s2 = s1[b := (s1 ! b)\<lparr>received := True\<rparr>]
      in map settle s2)"

inductive reachable :: "sendrecv list list \<Rightarrow> call_state list \<Rightarrow> bool"
  for progs :: "sendrecv list list" where
  initial: "reachable progs (start progs)"
| step: "reachable progs s \<Longrightarrow> can_transfer progs s a b \<Longrightarrow> reachable progs (transfer s a b)"

text \<open>
  The exchange is complete when every rank has returned from its last call. \<open>pending\<close>
  counts the sends and receives that are still to complete.
\<close>

definition finished :: "sendrecv list list \<Rightarrow> call_state list \<Rightarrow> bool" where
  "finished progs s = list_all (\<lambda>a. pc (s ! a) = length (progs ! a)) [0..<length progs]"

definition pending :: "sendrecv list list \<Rightarrow> call_state list \<Rightarrow> nat" where
  "pending progs s =
     (\<Sum>a \<leftarrow> [0..<length progs].
        2 * (length (progs ! a) - pc (s ! a))
          - (if sent (s ! a) then 1 else 0) - (if received (s ! a) then 1 else 0))"

text \<open>
  The call of the peer that answers a call of rank \<open>a\<close>: towards \<open>a\<close>, with the two tags
  swapped.
\<close>

definition mirror :: "nat \<Rightarrow> sendrecv \<Rightarrow> sendrecv" where
  "mirror a op = \<lparr>dest = a, sendtag = recvtag op, source = a, recvtag = sendtag op\<rparr>"

text \<open>
  To show that no state of the exchange is stuck, every call gets a stamp: the two calls
  of a pair get the same stamp, and the stamps of the calls of one rank increase in
  program order. \<open>matched\<close> says so for any list of programs. \<open>exchange_stamps\<close> are the
  stamps of \<open>exchange_ops\<close>: the calls between grid rows \<open>b - 1\<close> and \<open>b\<close> get the stamp \<open>b\<close>,
  and call \<open>i\<close> between grid columns \<open>c - 1\<close> and \<open>c\<close> gets \<open>grid_rows + c * rows + i\<close>.
\<close>

definition matched :: "sendrecv list list \<Rightarrow> nat list list \<Rightarrow> bool" where
  "matched progs stamps =
     (length stamps = length progs \<and>
      (\<forall>a < length progs.
         length (stamps ! a) = length (progs ! a) \<and> sorted_wrt (<) (stamps ! a) \<and>
         (\<forall>(t, op) \<in> set (zip (stamps ! a) (progs ! a)).
            dest op < length progs \<and> source op = dest op \<and>
            (t, mirror a op) \<in> set (zip (stamps ! dest op) (progs ! dest op)))))"

definition exchange_stamps :: "DomainConfig \<Rightarrow> nat list" where
  "exchange_stamps cfg =
     (let rows = local_rows cfg in
      (case north cfg of None \<Rightarrow> [] | Some nb \<Rightarrow> [my_row cfg]) @
      (case south cfg of None \<Rightarrow> [] | Some nb \<Rightarrow> [my_row cfg + 1]) @
      (case west cfg of None \<Rightarrow> []
       | Some nb \<Rightarrow> map (\<lambda>i. grid_rows cfg + my_col cfg * rows + i) [0..<rows]) @
      (case east cfg of None \<Rightarrow> []
       | Some nb \<Rightarrow> map (\<lambda>i. grid_rows cfg + (my_col cfg + 1) * rows + i) [0..<rows]))"

text \<open>
  Which sends and receives of a rank are complete, and the invariant of the reachable
  states: a send is complete exactly when the receive of the paired call is.
\<close>

definition send_done :: "call_state list \<Rightarrow> nat \<Rightarrow> nat \<Rightarrow> bool" where
  "send_done s a k = (k < pc (s ! a) \<or> (k = pc (s ! a) \<and> sent (s ! a)))"

definition recv_done :: "call_state list \<Rightarrow> nat \<Rightarrow> nat \<Rightarrow> bool" where
  "recv_done s a k = (k < pc (s ! a) \<or> (k = pc (s ! a) \<and> received (s ! a)))"

definition sched_inv :: "sendrecv list list \<Rightarrow> nat list list \<Rightarrow> call_state list \<Rightarrow> bool" where
  "sched_inv progs stamps s =
     (length s = length progs \<and>
      (\<forall>a < length progs. pc (s ! a) \<le> length (progs ! a) \<and> \<not> (sent (s ! a) \<and> received (s ! a))) \<and>
      (\<forall>a < length progs. \<forall>k < length (progs ! a). \<forall>k' < length (progs ! dest (progs ! a ! k)).
         stamps ! dest (progs ! a ! k) ! k' = stamps ! a ! k \<longrightarrow>
           send_done s a k = recv_done s (dest (progs ! a ! k)) k'))"

section \<open>Facts about the square root and the divisor search\<close>

lemma sqrt_search_bounds:
  "0 \<le> k \<Longrightarrow> k * k \<le> n \<Longrightarrow>
     0 \<le> sqrt_search n k \<and> sqrt_search n k * sqrt_search n k \<le> n \<and>
     n < (sqrt_search n k + 1) * (sqrt_search n k + 1)"
proof (induction n k rule: sqrt_search.induct)
  case (1 n k)
  show ?case
  proof (cases "(k + 1) * (k + 1) \<le> n")
    case True
    then have "sqrt_search n k = sqrt_search n (k + 1)"
      by (subst sqrt_search.simps) simp
    moreover have "0 \<le> k + 1" using 1(2) by simp
    ultimately show ?thesis using 1(1)[OF True _ True] by simp
  next
    case False
    then have "sqrt_search n k = k"
      by (subst sqrt_search.simps) simp
    with False 1(2,3) show ?thesis by simp
  qed
qed

lemma isqrt_bounds:
  "0 \<le> n \<Longrightarrow> 0 \<le> isqrt n \<and> isqrt n * isqrt n \<le> n \<and> n < (isqrt n + 1) * (isqrt n + 1)"
  unfolding isqrt_def by (rule sqrt_search_bounds) simp_all

lemma isqrt_floor_sqrt:
  assumes "0 \<le> n"
  shows "isqrt n = \<lfloor>sqrt (real_of_int n)\<rfloor>"
proof -
  let ?s = "isqrt n"
  note b = isqrt_bounds[OF assms]
  have lo: "real_of_int ?s \<le> sqrt (real_of_int n)"
  proof (rule real_le_rsqrt)
    have "?s * ?s \<le> n" using b by blast
    then have "real_of_int (?s * ?s) \<le> real_of_int n" by (simp only: of_int_le_iff)
    then show "(real_of_int ?s)\<^sup>2 \<le> real_of_int n" by (simp add: power2_eq_square)
  qed
  have hi: "sqrt (real_of_int n) < real_of_int ?s + 1"
  proof (rule real_less_lsqrt)
    show "0 \<le> real_of_int ?s + 1" using b by simp
    have "n < (?s + 1) * (?s + 1)" using b by blast
    then have "real_of_int n < real_of_int ((?s + 1) * (?s + 1))" by (simp only: of_int_less_iff)
    then show "real_of_int n < (real_of_int ?s + 1)\<^sup>2" by (simp add: power2_eq_square algebra_simps)
  qed
  have "\<lfloor>sqrt (real_of_int n)\<rfloor> = ?s"
    by (rule floor_unique) (use lo hi in simp_all)
  then show ?thesis by simp
qed

lemma isqrt_nat_bounds:
  "nat (isqrt (int n)) * nat (isqrt (int n)) \<le> n \<and>
   n < (nat (isqrt (int n)) + 1) * (nat (isqrt (int n)) + 1)"
proof -
  let ?s = "isqrt (int n)"
  have b: "0 \<le> ?s" "?s * ?s \<le> int n" "int n < (?s + 1) * (?s + 1)"
    using isqrt_bounds[of "int n"] by simp_all
  have "int (nat ?s * nat ?s) = ?s * ?s" using b(1) by simp
  with b(2) have "int (nat ?s * nat ?s) \<le> int n" by simp
  then have lo: "nat ?s * nat ?s \<le> n" by (simp only: of_nat_le_iff)
  have "int ((nat ?s + 1) * (nat ?s + 1)) = (?s + 1) * (?s + 1)" using b(1) by (simp add: algebra_simps)
  with b(3) have "int n < int ((nat ?s + 1) * (nat ?s + 1))" by simp
  then have hi: "n < (nat ?s + 1) * (nat ?s + 1)" by (simp only: of_nat_less_iff)
  from lo hi show ?thesis by blast
qed

lemma isqrt_nat_floor: "int (nat (isqrt (int n))) = \<lfloor>sqrt (real n)\<rfloor>"
proof -
  have "0 \<le> isqrt (int n)" using isqrt_bounds[of "int n"] by simp
  then have "int (nat (isqrt (int n))) = isqrt (int n)" by simp
  also have "\<dots> = \<lfloor>sqrt (real_of_int (int n))\<rfloor>" by (rule isqrt_floor_sqrt) simp
  finally show ?thesis by simp
qed

lemma isqrt_pos: "1 \<le> n \<Longrightarrow> 1 \<le> nat (isqrt (int n))"
proof (rule ccontr)
  assume n: "1 \<le> n" and "\<not> 1 \<le> nat (isqrt (int n))"
  then have "nat (isqrt (int n)) = 0" by simp
  with isqrt_nat_bounds[of n] have "n < 1" by simp
  with n show False by simp
qed

lemma grid_dim_search_spec:
  "1 \<le> d \<Longrightarrow> \<exists>g. grid_dim_search p d = Some g \<and> 1 \<le> g \<and> g \<le> d \<and> g dvd p \<and>
      (\<forall>e. e dvd p \<and> e \<le> d \<longrightarrow> e \<le> g)"
proof (induction p d rule: grid_dim_search.induct)
  case (1 p d)
  show ?case
  proof (cases "p mod d = 0")
    case True
    with 1(2) have "grid_dim_search p d = Some d"
      by (subst grid_dim_search.simps) simp
    with True 1(2) show ?thesis by auto
  next
    case False
    with 1(2) have eq: "grid_dim_search p d = grid_dim_search p (d - 1)"
      by (subst grid_dim_search.simps) simp
    have "d \<noteq> 1" using False by auto
    with 1(2) have d1: "1 \<le> d - 1" by simp
    from 1(2) have "d \<noteq> 0" by simp
    from 1(1)[OF this False d1] obtain g where
      g: "grid_dim_search p (d - 1) = Some g" "1 \<le> g" "g \<le> d - 1" "g dvd p"
         "\<forall>e. e dvd p \<and> e \<le> d - 1 \<longrightarrow> e \<le> g" by blast
    have "\<forall>e. e dvd p \<and> e \<le> d \<longrightarrow> e \<le> g"
    proof (intro allI impI)
      fix e assume e: "e dvd p \<and> e \<le> d"
      with False have "e \<noteq> d" by (auto simp: dvd_eq_mod_eq_0)
      with e have "e \<le> d - 1" by linarith
      with e g(5) show "e \<le> g" by blast
    qed
    with g eq show ?thesis by auto
  qed
qed


lemma setup_domain_Some:
  assumes "1 \<le> p"
  shows "\<exists>g. 1 \<le> g \<and> g \<le> nat (isqrt (int p)) \<and> g dvd p \<and>
    (\<forall>e. e dvd p \<and> e \<le> nat (isqrt (int p)) \<longrightarrow> e \<le> g) \<and>
    (\<forall>N r. setup_domain N r p = Some (config_for N r p g))"
proof -
  from assms have "1 \<le> nat (isqrt (int p))" by (rule isqrt_pos)
  from grid_dim_search_spec[OF this, of p] obtain g where
    g: "grid_dim_search p (nat (isqrt (int p))) = Some g" "1 \<le> g" "g \<le> nat (isqrt (int p))" "g dvd p"
       "\<forall>e. e dvd p \<and> e \<le> nat (isqrt (int p)) \<longrightarrow> e \<le> g" by blast
  have "\<forall>N r. setup_domain N r p = Some (config_for N r p g)"
    by (simp add: setup_domain_def config_for_def g(1) Let_def)
  with g show ?thesis by blast
qed


section \<open>The blocks partition the image\<close>

lemma band_ex1:
  assumes g: "1 \<le> (g::nat)" and i: "i < (N::nat)"
  shows "\<exists>!b. b < g \<and> b * (N div g) \<le> i \<and>
           i < b * (N div g) + (if b = g - 1 then N - b * (N div g) else N div g)"
proof -
  define s where "s = N div g"
  have gs: "g * s \<le> N" unfolding s_def by (rule times_div_less_eq_dividend)
  have last: "(g - 1) * s \<le> N"
  proof -
    have "(g - 1) * s \<le> g * s" by (rule mult_le_mono1) simp
    with gs show ?thesis by linarith
  qed
  let ?P = "\<lambda>b. b < g \<and> b * s \<le> i \<and> i < b * s + (if b = g - 1 then N - b * s else s)"
  have ex: "\<exists>b. ?P b"
  proof (cases "i < (g - 1) * s")
    case True
    then have spos: "0 < s" by (cases s) auto
    let ?b = "i div s"
    have b_lt: "?b < g - 1" using True spos by (simp add: div_less_iff_less_mult mult.commute)
    have "?b * s \<le> i" by (simp add: mult.commute)
    moreover have "i < ?b * s + s"
      using spos dividend_less_div_times[of s i] by (simp add: mult.commute)
    ultimately have "?P ?b" using b_lt by auto
    then show ?thesis ..
  next
    case False
    then have "(g - 1) * s \<le> i" by simp
    moreover have "i < (g - 1) * s + (N - (g - 1) * s)" using i last by simp
    ultimately have "?P (g - 1)" using g by simp
    then show ?thesis ..
  qed
  have lt: "False" if b: "?P b" and b': "?P b'" and less: "b < b'" for b b'
  proof -
    from less b' have "b \<noteq> g - 1" by linarith
    with b have "i < b * s + s" by simp
    also have "b * s + s = (b + 1) * s" by simp
    also have "(b + 1) * s \<le> b' * s" by (rule mult_le_mono1) (use less in simp)
    finally show False using b' by simp
  qed
  have uniq: "b = b'" if "?P b" "?P b'" for b b'
    using lt[of b b'] lt[of b' b] that by (cases b b' rule: linorder_cases) blast+
  from ex uniq show ?thesis unfolding s_def by blast
qed

lemma grid_index:
  assumes "c < gc" 
  shows "(b * gc + c) div gc = b" "(b * gc + c) mod gc = (c::nat)"
  using assms by simp_all

lemma grid_rank_bound:
  assumes "b < g" "c < gc"
  shows "b * gc + c < g * (gc::nat)"
proof -
  have "b * gc + c < b * gc + gc" using assms by simp
  also have "\<dots> = (b + 1) * gc" by simp
  also have "\<dots> \<le> g * gc" by (rule mult_le_mono1) (use assms in simp)
  finally show ?thesis .
qed

lemma blocks_of_config_for:
  "scatter_block (config_for N r0 p g) N r = own_block (config_for N r p g)"
  "gather_block (config_for N r0 p g) N r = own_block (config_for N r p g)"
  by (simp_all add: scatter_block_def gather_block_def own_block_def start_row_of_def start_col_of_def config_for_def Let_def)

lemma block_ex1:
  assumes g: "1 \<le> g" and gc: "1 \<le> gc" and p: "p = g * gc" and i: "i < N" and j: "j < N"
  shows "\<exists>!r. r < p \<and> in_block (own_block (config_for N r p g)) i j"
proof -
  have pg: "p div g = gc" using g p by simp
  let ?R = "\<lambda>b. b < g \<and> b * (N div g) \<le> i \<and>
           i < b * (N div g) + (if b = g - 1 then N - b * (N div g) else N div g)"
  let ?C = "\<lambda>c. c < gc \<and> c * (N div gc) \<le> j \<and>
           j < c * (N div gc) + (if c = gc - 1 then N - c * (N div gc) else N div gc)"
  have blk: "in_block (own_block (config_for N r p g)) i j \<longleftrightarrow>
       (r div gc) * (N div g) \<le> i \<and>
       i < (r div gc) * (N div g) + (if r div gc = g - 1 then N - (r div gc) * (N div g) else N div g) \<and>
       (r mod gc) * (N div gc) \<le> j \<and>
       j < (r mod gc) * (N div gc) + (if r mod gc = gc - 1 then N - (r mod gc) * (N div gc) else N div gc)" for r
    by (auto simp add: in_block_def own_block_def start_row_of_def start_col_of_def config_for_def pg)
  from band_ex1[OF g i] obtain b where b: "?R b" and bu: "\<And>b'. ?R b' \<Longrightarrow> b' = b" by blast
  from band_ex1[OF gc j] obtain c where c: "?C c" and cu: "\<And>c'. ?C c' \<Longrightarrow> c' = c" by blast
  let ?r = "b * gc + c"
  have c_lt: "c < gc" using c by simp
  have "?r < p" unfolding p using b c_lt by (intro grid_rank_bound) simp_all
  moreover have "in_block (own_block (config_for N ?r p g)) i j"
  proof -
    have d: "?r div gc = b" and m: "?r mod gc = c" using c_lt by simp_all
    show ?thesis unfolding blk d m using b c by blast
  qed
  moreover have "r = ?r" if r: "r < p" and inb: "in_block (own_block (config_for N r p g)) i j" for r
  proof -
    have "r div gc < g" using r p by (simp add: less_mult_imp_div_less)
    with inb have "?R (r div gc)" unfolding blk by simp
    then have rb: "r div gc = b" by (rule bu)
    have "r mod gc < gc" using gc by simp
    with inb have "?C (r mod gc)" unfolding blk by simp
    then have rc: "r mod gc = c" by (rule cu)
    have "r = (r div gc) * gc + r mod gc" by simp
    with rb rc show ?thesis by simp
  qed
  ultimately show ?thesis by blast
qed


lemma setup_domain_grid:
  assumes "1 \<le> p"
  shows "\<exists>g gc. 1 \<le> g \<and> 1 \<le> gc \<and> p = g * gc \<and> p div g = gc \<and>
           (\<forall>N r. setup_domain N r p = Some (config_for N r p g))"
proof -
  from setup_domain_Some[OF assms] obtain g where g: "1 \<le> g" "g dvd p"
    and sd: "\<forall>N r. setup_domain N r p = Some (config_for N r p g)" by blast
  from g(2) obtain gc where p: "p = g * gc" ..
  with assms have "1 \<le> gc" by (cases gc) auto
  moreover have "p div g = gc" using p g(1) by simp
  ultimately show ?thesis using g(1) p sd by blast
qed

lemma sum_last_absorbs:
  assumes "1 \<le> (g::nat)"
  shows "(\<Sum>b<g. if b = g - 1 then N - (g - 1) * (N div g) else N div g) = (N::nat)"
proof -
  from assms obtain k where k: "g = Suc k" by (cases g) auto
  have le: "k * (N div g) \<le> N"
  proof -
    have "k * (N div g) \<le> g * (N div g)" by (rule mult_le_mono1) (simp add: k)
    also have "\<dots> \<le> N" by (rule times_div_less_eq_dividend)
    finally show ?thesis .
  qed
  have "(\<Sum>b<k. if b = k then N - k * (N div g) else N div g) = (\<Sum>b<k. N div g)"
    by (rule sum.cong) auto
  then have "(\<Sum>b<Suc k. if b = k then N - k * (N div g) else N div g)
      = k * (N div g) + (N - k * (N div g))" by simp
  with le show ?thesis by (simp add: k)
qed

lemma column_ranks:
  assumes "c < (gc::nat)"
  shows "{r. r < g * gc \<and> r mod gc = c} = (\<lambda>b. b * gc + c) ` {..<g}"
proof (intro equalityI subsetI)
  fix r assume "r \<in> {r. r < g * gc \<and> r mod gc = c}"
  then have r: "r < g * gc" "r mod gc = c" by simp_all
  have "r div gc < g" using r(1) by (simp add: less_mult_imp_div_less)
  moreover have "r = (r div gc) * gc + c" using r(2) by (metis div_mult_mod_eq)
  ultimately show "r \<in> (\<lambda>b. b * gc + c) ` {..<g}" by blast
next
  fix r assume "r \<in> (\<lambda>b. b * gc + c) ` {..<g}"
  then obtain b where b: "b < g" "r = b * gc + c" by blast
  with assms grid_rank_bound[of b g c gc] show "r \<in> {r. r < g * gc \<and> r mod gc = c}" by simp
qed

lemma row_ranks:
  assumes "b < (g::nat)"
  shows "{r. r < g * gc \<and> r div gc = b} = (\<lambda>c. b * gc + c) ` {..<gc}"
proof (intro equalityI subsetI)
  fix r assume "r \<in> {r. r < g * gc \<and> r div gc = b}"
  then have r: "r < g * gc" "r div gc = b" by simp_all
  have gc: "0 < gc" using r(1) by (cases gc) auto
  then have "r mod gc < gc" by simp
  moreover have "r = b * gc + r mod gc" using r(2) by (metis div_mult_mod_eq)
  ultimately show "r \<in> (\<lambda>c. b * gc + c) ` {..<gc}" by blast
next
  fix r assume "r \<in> (\<lambda>c. b * gc + c) ` {..<gc}"
  then obtain c where c: "c < gc" "r = b * gc + c" by blast
  with assms grid_rank_bound[of b g c gc] show "r \<in> {r. r < g * gc \<and> r div gc = b}" by simp
qed

lemma sum_list_filter_upt:
  "sum_list (map f (filter P [0..<p])) = sum f {r. r < p \<and> P r}"
proof -
  have "sum_list (map f (filter P [0..<p])) = sum f (set (filter P [0..<p]))"
    by (rule sum_list_distinct_conv_sum_set) simp
  also have "set (filter P [0..<p]) = {r. r < p \<and> P r}" by auto
  finally show ?thesis .
qed

lemma column_sum:
  assumes g: "1 \<le> g" and gc: "1 \<le> gc" and p: "p = g * gc" and pg: "p div g = gc"
    and sd: "\<forall>N r. setup_domain N r p = Some (config_for N r p g)"
    and c: "c < gc"
  shows "sum_list (map (local_rows_of N p) (grid_column_workers N p c)) = N"
proof -
  have w: "grid_column_workers N p c = filter (\<lambda>r. r mod gc = c) [0..<p]"
    unfolding grid_column_workers_def using sd by (simp add: config_for_def pg)
  have f: "local_rows_of N p r = (if r div gc = g - 1 then N - (g - 1) * (N div g) else N div g)" for r
    unfolding local_rows_of_def using sd by (simp add: config_for_def pg)
  have inj: "inj_on (\<lambda>b. b * gc + c) {..<g}"
    using gc by (auto simp: inj_on_def)
  have "sum_list (map (local_rows_of N p) (grid_column_workers N p c))
      = sum (local_rows_of N p) {r. r < p \<and> r mod gc = c}"
    by (simp only: w sum_list_filter_upt)
  also have "{r. r < p \<and> r mod gc = c} = (\<lambda>b. b * gc + c) ` {..<g}"
    using column_ranks[OF c, of g] by (simp only: p)
  also have "sum (local_rows_of N p) ((\<lambda>b. b * gc + c) ` {..<g})
      = (\<Sum>b<g. local_rows_of N p (b * gc + c))"
    using inj by (simp add: sum.reindex)
  also have "\<dots> = (\<Sum>b<g. if b = g - 1 then N - (g - 1) * (N div g) else N div g)"
    by (rule sum.cong) (simp_all add: f grid_index[OF c])
  also have "\<dots> = N" by (rule sum_last_absorbs[OF g])
  finally show ?thesis .
qed

lemma row_sum:
  assumes g: "1 \<le> g" and gc: "1 \<le> gc" and p: "p = g * gc" and pg: "p div g = gc"
    and sd: "\<forall>N r. setup_domain N r p = Some (config_for N r p g)"
    and b: "b < g"
  shows "sum_list (map (local_cols_of N p) (grid_row_workers N p b)) = N"
proof -
  have w: "grid_row_workers N p b = filter (\<lambda>r. r div gc = b) [0..<p]"
    unfolding grid_row_workers_def using sd by (simp add: config_for_def pg)
  have f: "local_cols_of N p r = (if r mod gc = gc - 1 then N - (gc - 1) * (N div gc) else N div gc)" for r
    unfolding local_cols_of_def using sd by (simp add: config_for_def pg)
  have inj: "inj_on (\<lambda>c. b * gc + c) {..<gc}"
    by (auto simp: inj_on_def)
  have "sum_list (map (local_cols_of N p) (grid_row_workers N p b))
      = sum (local_cols_of N p) {r. r < p \<and> r div gc = b}"
    by (simp only: w sum_list_filter_upt)
  also have "{r. r < p \<and> r div gc = b} = (\<lambda>c. b * gc + c) ` {..<gc}"
    using row_ranks[OF b, of gc] by (simp only: p)
  also have "sum (local_cols_of N p) ((\<lambda>c. b * gc + c) ` {..<gc})
      = (\<Sum>c<gc. local_cols_of N p (b * gc + c))"
    using inj by (simp add: sum.reindex)
  also have "\<dots> = (\<Sum>c<gc. if c = gc - 1 then N - (gc - 1) * (N div gc) else N div gc)"
    by (rule sum.cong) (simp_all add: f)
  also have "\<dots> = N" by (rule sum_last_absorbs[OF gc])
  finally show ?thesis .
qed


section \<open>Loops that write one cell per step\<close>

lemma fold_update_length [simp]:
  "length (fold (\<lambda>x l. l[idx x := val x]) xs l) = length l"
  by (induction xs arbitrary: l) simp_all

lemma fold_update_other:
  "k \<notin> idx ` set xs \<Longrightarrow> fold (\<lambda>x l. l[idx x := val x]) xs l ! k = l ! k"
  by (induction xs arbitrary: l) auto

lemma fold_update_nth:
  assumes "inj_on idx (set xs)" "x \<in> set xs" "idx x < length l"
  shows "fold (\<lambda>x l. l[idx x := val x]) xs l ! idx x = val x"
  using assms
proof (induction xs arbitrary: l rule: rev_induct)
  case Nil
  then show ?case by simp
next
  case (snoc y ys)
  show ?case
  proof (cases "idx y = idx x")
    case True
    with snoc.prems have "y = x" by (auto simp: inj_on_def)
    with snoc.prems(3) show ?thesis by simp
  next
    case False
    with snoc.prems have "x \<in> set ys" by auto
    moreover from snoc.prems(1) have "inj_on idx (set ys)" by (auto simp: inj_on_def)
    ultimately have "fold (\<lambda>x l. l[idx x := val x]) ys l ! idx x = val x"
      using snoc.prems(3) by (intro snoc.IH)
    with False show ?thesis by simp
  qed
qed

lemma fold_nested_product:
  "fold (\<lambda>i. fold (g i) js) is s = fold (\<lambda>(i, j). g i j) (List.product is js) s"
proof (induction "is" arbitrary: s)
  case Nil
  then show ?case by simp
next
  case (Cons i "is")
  have "fold (\<lambda>(i, j). g i j) (map (Pair i) js) s = fold (g i) js s"
    by (simp add: fold_map comp_def)
  with Cons show ?case by simp
qed

lemma nested_update_conv:
  "fold (\<lambda>i l. fold (\<lambda>j l. l[idx i j := val i j]) js l) is l
     = fold (\<lambda>x l. l[(\<lambda>(i, j). idx i j) x := (\<lambda>(i, j). val i j) x]) (List.product is js) l"
proof -
  have "(\<lambda>(i, j) l. l[idx i j := val i j]) = (\<lambda>x l. l[(\<lambda>(i, j). idx i j) x := (\<lambda>(i, j). val i j) x])"
    by (auto simp: fun_eq_iff)
  then show ?thesis
    using fold_nested_product[of "\<lambda>i j l. l[idx i j := val i j]" js "is" l] by simp
qed

lemma nested_update_length [simp]:
  "length (fold (\<lambda>i l. fold (\<lambda>j l. l[idx i j := val i j]) js l) is l) = length l"
  unfolding nested_update_conv by (rule fold_update_length)

lemma nested_update_nth:
  assumes inj: "\<And>i j i' j'. i \<in> set is \<Longrightarrow> i' \<in> set is \<Longrightarrow> j \<in> set js \<Longrightarrow> j' \<in> set js \<Longrightarrow>
                  idx i j = idx i' j' \<Longrightarrow> i = i' \<and> j = j'"
    and i: "i \<in> set is" and j: "j \<in> set js" and len: "idx i j < length l"
  shows "fold (\<lambda>i l. fold (\<lambda>j l. l[idx i j := val i j]) js l) is l ! idx i j = val i j"
proof -
  have "inj_on (\<lambda>(i, j). idx i j) (set (List.product is js))"
    using inj by (auto simp: inj_on_def)
  moreover have "(i, j) \<in> set (List.product is js)" using i j by simp
  moreover have "(\<lambda>(i, j). idx i j) (i, j) < length l" using len by simp
  ultimately have "fold (\<lambda>x l. l[(\<lambda>(i, j). idx i j) x := (\<lambda>(i, j). val i j) x]) (List.product is js) l
        ! (\<lambda>(i, j). idx i j) (i, j) = (\<lambda>(i, j). val i j) (i, j)"
    by (rule fold_update_nth)
  then show ?thesis unfolding nested_update_conv by simp
qed

lemma nested_update_other:
  assumes "\<And>i j. i \<in> set is \<Longrightarrow> j \<in> set js \<Longrightarrow> idx i j \<noteq> k"
  shows "fold (\<lambda>i l. fold (\<lambda>j l. l[idx i j := val i j]) js l) is l ! k = l ! k"
proof -
  have "k \<notin> (\<lambda>(i, j). idx i j) ` set (List.product is js)" using assms by auto
  then show ?thesis unfolding nested_update_conv by (rule fold_update_other)
qed

lemma row_major_inj:
  assumes "a * W + b = a' * W + b'" "b < W" "b' < (W::nat)"
  shows "a = a' \<and> b = b'"
proof -
  have "(a * W + b) div W = (a' * W + b') div W" using assms(1) by simp
  then have "a = a'" using assms(2,3) by simp
  with assms(1) show ?thesis by simp
qed

lemma row_major_bound:
  assumes "a < R" "b < (W::nat)"
  shows "a * W + b < R * W"
  using assms by (rule grid_rank_bound)

lemma isqrt_sum_squares:
  "isqrt (a * a + b * b) = \<lfloor>sqrt (real_of_int (a * a + b * b))\<rfloor>"
  by (rule isqrt_floor_sqrt) simp


section \<open>The stencil kernel, cell by cell\<close>

lemma int32_id:
  assumes "- 2147483648 \<le> x" "x < 2147483648"
  shows "int32 x = x"
  using assms by (simp add: int32_def)

lemma square_bound:
  fixes g :: int
  assumes "\<bar>g\<bar> \<le> 32760"
  shows "0 \<le> g * g" "g * g \<le> 1073217600"
proof -
  show "0 \<le> g * g" by simp
  have "g * g = \<bar>g\<bar> * \<bar>g\<bar>" by simp
  also have "\<dots> \<le> 32760 * 32760" by (rule mult_mono) (use assms in simp_all)
  finally show "g * g \<le> 1073217600" by simp
qed

lemma kernel_magnitude:
  fixes a b :: int
  assumes "\<bar>a\<bar> \<le> 32760" "\<bar>b\<bar> \<le> 32760"
  shows "sqrt_cast (int32 (int32 (a * a) + int32 (b * b))) = isqrt (a * a + b * b)"
proof -
  note sa = square_bound[OF assms(1)] and sb = square_bound[OF assms(2)]
  have "int32 (a * a) = a * a" by (rule int32_id) (use sa in linarith)+
  moreover have "int32 (b * b) = b * b" by (rule int32_id) (use sb in linarith)+
  moreover have "int32 (a * a + b * b) = a * a + b * b"
    by (rule int32_id) (use sa sb in linarith)+
  moreover have "\<not> a * a + b * b < 0" using sa sb by linarith
  ultimately show ?thesis by (simp only: sqrt_cast_def if_False)
qed

lemma gradients_sobel:
  assumes "1 \<le> i" "1 \<le> j"
    and bnd: "\<And>a b. i - 1 \<le> a \<Longrightarrow> a \<le> i + 1 \<Longrightarrow> j - 1 \<le> b \<Longrightarrow> b \<le> j + 1 \<Longrightarrow>
                \<bar>tile_cell cfg loc a b\<bar> \<le> 4095"
  shows "gradients loc (local_cols cfg + 2 * halo_size cfg) i j
           = (sobel_gx (tile_cell cfg loc) i j, sobel_gy (tile_cell cfg loc) i j)"
    and "\<bar>sobel_gx (tile_cell cfg loc) i j\<bar> \<le> 32760"
    and "\<bar>sobel_gy (tile_cell cfg loc) i j\<bar> \<le> 32760"
proof -
  let ?W = "local_cols cfg + 2 * halo_size cfg"
  have n: "nat (int i - 1) = i - 1" "nat (int j - 1) = j - 1"
    "nat (int i + 1) = i + 1" "nat (int j + 1) = j + 1" by simp_all
  define c00 where "c00 = loc ! ((i - 1) * ?W + (j - 1))"
  define c01 where "c01 = loc ! ((i - 1) * ?W + j)"
  define c02 where "c02 = loc ! ((i - 1) * ?W + (j + 1))"
  define c10 where "c10 = loc ! (i * ?W + (j - 1))"
  define c11 where "c11 = loc ! (i * ?W + j)"
  define c12 where "c12 = loc ! (i * ?W + (j + 1))"
  define c20 where "c20 = loc ! ((i + 1) * ?W + (j - 1))"
  define c21 where "c21 = loc ! ((i + 1) * ?W + j)"
  define c22 where "c22 = loc ! ((i + 1) * ?W + (j + 1))"
  note cs = c00_def c01_def c02_def c10_def c11_def c12_def c20_def c21_def c22_def
  have t: "\<bar>tile_cell cfg loc a b\<bar> \<le> 4095"
    if "a = i - 1 \<or> a = i \<or> a = i + 1" "b = j - 1 \<or> b = j \<or> b = j + 1" for a b
    by (rule bnd) (use that in auto)
  have b: "- 4095 \<le> c00" "c00 \<le> 4095" "- 4095 \<le> c01" "c01 \<le> 4095" "- 4095 \<le> c02" "c02 \<le> 4095"
    "- 4095 \<le> c10" "c10 \<le> 4095" "- 4095 \<le> c11" "c11 \<le> 4095" "- 4095 \<le> c12" "c12 \<le> 4095"
    "- 4095 \<le> c20" "c20 \<le> 4095" "- 4095 \<le> c21" "c21 \<le> 4095" "- 4095 \<le> c22" "c22 \<le> 4095"
    using t[of "i - 1" "j - 1"] t[of "i - 1" j] t[of "i - 1" "j + 1"]
      t[of i "j - 1"] t[of i j] t[of i "j + 1"]
      t[of "i + 1" "j - 1"] t[of "i + 1" j] t[of "i + 1" "j + 1"]
    unfolding cs tile_cell_def by (simp_all add: abs_le_iff)
  have unf: "gradients loc ?W i j =
    (int32 (int32 (int32 (int32 (int32 (int32 (int32 (int32 (int32 (0 + int32 (- 1 * c00)) + int32 (0 * c01))
        + int32 (1 * c02)) + int32 (- 2 * c10)) + int32 (0 * c11)) + int32 (2 * c12))
        + int32 (- 1 * c20)) + int32 (0 * c21)) + int32 (1 * c22)),
     int32 (int32 (int32 (int32 (int32 (int32 (int32 (int32 (int32 (0 + int32 (- 1 * c00)) + int32 (- 2 * c01))
        + int32 (- 1 * c02)) + int32 (0 * c10)) + int32 (0 * c11)) + int32 (0 * c12))
        + int32 (1 * c20)) + int32 (2 * c21)) + int32 (1 * c22)))"
    unfolding cs by (simp add: gradients_def gx_def gy_def n Let_def)
  have gx: "sobel_gx (tile_cell cfg loc) i j = - c00 + c02 - 2 * c10 + 2 * c12 - c20 + c22"
    unfolding cs by (simp add: sobel_gx_def tile_cell_def)
  have gy: "sobel_gy (tile_cell cfg loc) i j = - c00 - 2 * c01 - c02 + c20 + 2 * c21 + c22"
    unfolding cs by (simp add: sobel_gy_def tile_cell_def)
  have x1: "int32 (0 + int32 (- 1 * c00)) = - c00" using b by (simp add: int32_id)
  have x2: "int32 (- c00 + int32 (0 * c01)) = - c00" using b by (simp add: int32_id)
  have x3: "int32 (- c00 + int32 (1 * c02)) = - c00 + c02" using b by (simp add: int32_id)
  have x4: "int32 (- c00 + c02 + int32 (- 2 * c10)) = - c00 + c02 - 2 * c10"
    using b by (simp add: int32_id)
  have x5: "int32 (- c00 + c02 - 2 * c10 + int32 (0 * c11)) = - c00 + c02 - 2 * c10"
    using b by (simp add: int32_id)
  have x6: "int32 (- c00 + c02 - 2 * c10 + int32 (2 * c12)) = - c00 + c02 - 2 * c10 + 2 * c12"
    using b by (simp add: int32_id)
  have x7: "int32 (- c00 + c02 - 2 * c10 + 2 * c12 + int32 (- 1 * c20))
      = - c00 + c02 - 2 * c10 + 2 * c12 - c20" using b by (simp add: int32_id)
  have x8: "int32 (- c00 + c02 - 2 * c10 + 2 * c12 - c20 + int32 (0 * c21))
      = - c00 + c02 - 2 * c10 + 2 * c12 - c20" using b by (simp add: int32_id)
  have x9: "int32 (- c00 + c02 - 2 * c10 + 2 * c12 - c20 + int32 (1 * c22))
      = - c00 + c02 - 2 * c10 + 2 * c12 - c20 + c22" using b by (simp add: int32_id)
  have y2: "int32 (- c00 + int32 (- 2 * c01)) = - c00 - 2 * c01" using b by (simp add: int32_id)
  have y3: "int32 (- c00 - 2 * c01 + int32 (- 1 * c02)) = - c00 - 2 * c01 - c02"
    using b by (simp add: int32_id)
  have y4: "int32 (- c00 - 2 * c01 - c02 + int32 (0 * c10)) = - c00 - 2 * c01 - c02"
    "int32 (- c00 - 2 * c01 - c02 + int32 (0 * c11)) = - c00 - 2 * c01 - c02"
    "int32 (- c00 - 2 * c01 - c02 + int32 (0 * c12)) = - c00 - 2 * c01 - c02"
    using b by (simp_all add: int32_id)
  have y7: "int32 (- c00 - 2 * c01 - c02 + int32 (1 * c20)) = - c00 - 2 * c01 - c02 + c20"
    using b by (simp add: int32_id)
  have y8: "int32 (- c00 - 2 * c01 - c02 + c20 + int32 (2 * c21)) = - c00 - 2 * c01 - c02 + c20 + 2 * c21"
    using b by (simp add: int32_id)
  have y9: "int32 (- c00 - 2 * c01 - c02 + c20 + 2 * c21 + int32 (1 * c22))
      = - c00 - 2 * c01 - c02 + c20 + 2 * c21 + c22" using b by (simp add: int32_id)
  show "gradients loc ?W i j = (sobel_gx (tile_cell cfg loc) i j, sobel_gy (tile_cell cfg loc) i j)"
    unfolding unf gx gy
    by (simp only: x1 x2 x3 x4 x5 x6 x7 x8 x9 y2 y3 y4 y7 y8 y9)
  show "\<bar>sobel_gx (tile_cell cfg loc) i j\<bar> \<le> 32760"
    unfolding gx abs_le_iff using b(1,2,5,6,7,8,11,12,13,14,17,18) by (intro conjI) linarith+
  show "\<bar>sobel_gy (tile_cell cfg loc) i j\<bar> \<le> 32760"
    unfolding gy abs_le_iff using b(1,2,3,4,5,6,13,14,15,16,17,18) by (intro conjI) linarith+
qed

lemma compute_sobel_local_cell:
  assumes h: "halo_size cfg = 1"
    and ll: "length loc = (local_rows cfg + 2) * (local_cols cfg + 2)"
    and bnd: "\<forall>v \<in> set loc. \<bar>v\<bar> \<le> 4095"
    and len: "length outp = local_rows cfg * local_cols cfg"
    and i: "i < local_rows cfg" and j: "j < local_cols cfg"
  shows "compute_sobel_local loc outp cfg ! (i * local_cols cfg + j)
     = clamp255 (isqrt (sobel_gx (tile_cell cfg loc) (i + 1) (j + 1) * sobel_gx (tile_cell cfg loc) (i + 1) (j + 1)
                        + sobel_gy (tile_cell cfg loc) (i + 1) (j + 1) * sobel_gy (tile_cell cfg loc) (i + 1) (j + 1)))"
proof -
  let ?rows = "local_rows cfg" and ?cols = "local_cols cfg"
  let ?idx = "\<lambda>i j. (i - 1) * ?cols + (j - 1)"
  let ?val = "\<lambda>i j. (case gradients loc (?cols + 2 * halo_size cfg) i j of (gx_val, gy_val) \<Rightarrow>
                 clamp255 (sqrt_cast (int32 (int32 (gx_val * gx_val) + int32 (gy_val * gy_val)))))"
  have unf: "compute_sobel_local loc outp cfg
      = fold (\<lambda>i l. fold (\<lambda>j l. l[?idx i j := ?val i j]) [1..<?cols + 1] l) [1..<?rows + 1] outp"
    by (simp add: compute_sobel_local_def Let_def h case_prod_beta)
  have inj: "i = i' \<and> j = j'"
    if "i \<in> set [1..<?rows + 1]" "i' \<in> set [1..<?rows + 1]"
       "j \<in> set [1..<?cols + 1]" "j' \<in> set [1..<?cols + 1]" "?idx i j = ?idx i' j'" for i j i' j'
  proof -
    from that have "j - 1 < ?cols" "j' - 1 < ?cols" by auto
    with that(5) have "i - 1 = i' - 1 \<and> j - 1 = j' - 1" by (rule row_major_inj)
    with that show ?thesis by auto
  qed
  have "fold (\<lambda>i l. fold (\<lambda>j l. l[?idx i j := ?val i j]) [1..<?cols + 1] l) [1..<?rows + 1] outp
          ! ?idx (i + 1) (j + 1) = ?val (i + 1) (j + 1)"
  proof (rule nested_update_nth)
    show "i + 1 \<in> set [1..<?rows + 1]" using i by auto
    show "j + 1 \<in> set [1..<?cols + 1]" using j by auto
    show "?idx (i + 1) (j + 1) < length outp"
      using row_major_bound[OF i j] by (simp add: len)
  qed (rule inj)
  then have "compute_sobel_local loc outp cfg ! (i * ?cols + j) = ?val (i + 1) (j + 1)"
    by (simp add: unf)
  also have "?val (i + 1) (j + 1)
      = clamp255 (isqrt (sobel_gx (tile_cell cfg loc) (i + 1) (j + 1) * sobel_gx (tile_cell cfg loc) (i + 1) (j + 1)
                        + sobel_gy (tile_cell cfg loc) (i + 1) (j + 1) * sobel_gy (tile_cell cfg loc) (i + 1) (j + 1)))"
  proof -
    have cell: "\<bar>tile_cell cfg loc a b\<bar> \<le> 4095"
      if "i + 1 - 1 \<le> a" "a \<le> i + 1 + 1" "j + 1 - 1 \<le> b" "b \<le> j + 1 + 1" for a b
    proof -
      from that i j have "a < ?rows + 2" "b < ?cols + 2" by simp_all
      then have "a * (?cols + 2) + b < length loc" unfolding ll by (rule grid_rank_bound)
      then have "loc ! (a * (?cols + 2) + b) \<in> set loc" by (rule nth_mem)
      with bnd show ?thesis by (simp add: tile_cell_def h)
    qed
    note g = gradients_sobel[of "i + 1" "j + 1" cfg loc, OF _ _ cell]
    have g1: "gradients loc (?cols + 2 * halo_size cfg) (i + 1) (j + 1)
      = (sobel_gx (tile_cell cfg loc) (i + 1) (j + 1), sobel_gy (tile_cell cfg loc) (i + 1) (j + 1))"
      by (rule g(1)) simp_all
    have g2: "\<bar>sobel_gx (tile_cell cfg loc) (i + 1) (j + 1)\<bar> \<le> 32760"
      by (rule g(2)) simp_all
    have g3: "\<bar>sobel_gy (tile_cell cfg loc) (i + 1) (j + 1)\<bar> \<le> 32760"
      by (rule g(3)) simp_all
    show ?thesis unfolding g1 prod.case kernel_magnitude[OF g2 g3] ..
  qed
  finally show ?thesis .
qed

lemma round_sqrt_8: "round (sqrt 8) = 3"
proof -
  have lo: "5 / 2 \<le> sqrt 8"
    by (rule real_le_rsqrt) (simp add: power2_eq_square)
  have hi: "sqrt 8 < 7 / 2"
    by (rule real_less_lsqrt) (simp_all add: power2_eq_square)
  have "\<lfloor>sqrt 8 + 1 / 2\<rfloor> = 3"
    by (rule floor_unique) (use lo hi in simp_all)
  then show ?thesis by (simp add: round_def)
qed

lemma floor_sqrt_8: "\<lfloor>sqrt 8\<rfloor> = 2"
proof -
  have lo: "2 \<le> sqrt 8"
    by (rule real_le_rsqrt) (simp add: power2_eq_square)
  have hi: "sqrt 8 < 3"
    by (rule real_less_lsqrt) (simp_all add: power2_eq_square)
  show ?thesis
    by (rule floor_unique) (use lo hi in simp_all)
qed

lemma stencil_kernel_wraps_negative:
  "compute_sobel_local [0, 0, 0, 0, 0, 23171, 0, 0, 0] [0]
     \<lparr>rank = 0, world_size = 4, image_size = 2, grid_rows = 2, grid_cols = 2, my_row = 0,
      my_col = 0, local_rows = 1, local_cols = 1, halo_size = 1\<rparr> = [0]"
  by code_simp


section \<open>Receives and loops of receives\<close>

lemma recv_into_SomeD:
  assumes "recv_into buf off count msg = Some buf'"
  shows "length msg \<le> count" "off + length msg \<le> length buf"
    "buf' = take off buf @ msg @ drop (off + length msg) buf"
  using assms by (auto simp: recv_into_def split: if_splits)

lemma recv_into_length:
  assumes "recv_into buf off count msg = Some buf'"
  shows "length buf' = length buf"
  using recv_into_SomeD[OF assms] by simp

lemma recv_into_nth:
  assumes "recv_into buf off count msg = Some buf'"
  shows "buf' ! k = (if off \<le> k \<and> k < off + length msg then msg ! (k - off) else buf ! k)"
proof -
  note d = recv_into_SomeD[OF assms]
  define pre where "pre = take off buf"
  define post where "post = drop (off + length msg) buf"
  have lp: "length pre = off" unfolding pre_def using d(2) by simp
  have b': "buf' = pre @ msg @ post" unfolding pre_def post_def by (rule d(3))
  consider "k < off" | "off \<le> k" "k < off + length msg" | "off + length msg \<le> k"
    by linarith
  then show ?thesis
  proof cases
    case 1
    then have "buf' ! k = pre ! k" unfolding b' by (simp add: nth_append lp)
    also have "\<dots> = buf ! k" unfolding pre_def using 1 by simp
    finally show ?thesis using 1 by simp
  next
    case 2
    then have km: "k - off < length msg" by simp
    from 2 have "buf' ! k = (msg @ post) ! (k - off)"
      unfolding b' by (simp add: nth_append lp)
    also have "\<dots> = msg ! (k - off)" using km by (simp add: nth_append)
    finally show ?thesis using 2 by simp
  next
    case 3
    then have nk: "\<not> k < off" "\<not> k - off < length msg" by simp_all
    have "buf' ! k = (msg @ post) ! (k - off)"
      unfolding b' using nk(1) by (simp add: nth_append lp)
    also have "\<dots> = post ! (k - off - length msg)"
      using nk(2) by (simp add: nth_append)
    also have "\<dots> = buf ! (off + length msg + (k - off - length msg))"
      unfolding post_def using d(2) by (simp only: nth_drop)
    also have "off + length msg + (k - off - length msg) = k" using 3 by simp
    finally show ?thesis using 3 by simp
  qed
qed

lemma recv_into_Some:
  assumes "length msg \<le> count" "off + length msg \<le> length buf"
  shows "\<exists>buf'. recv_into buf off count msg = Some buf'"
  using assms by (simp add: recv_into_def)

lemma payload_length:
  "off + count \<le> length buf \<Longrightarrow> length (payload buf off count) = count"
  by (simp add: payload_def)

lemma payload_nth:
  "off + count \<le> length buf \<Longrightarrow> j < count \<Longrightarrow> payload buf off count ! j = buf ! (off + j)"
  by (simp add: payload_def)

lemma fold_option_append:
  "fold_option f (xs @ ys) s = (case fold_option f xs s of None \<Rightarrow> None | Some s' \<Rightarrow> fold_option f ys s')"
  by (induction xs arbitrary: s) (auto split: option.splits)

lemma fold_option_invariant:
  assumes "fold_option f xs s = Some s'" and "P s"
    and "\<And>x t t'. x \<in> set xs \<Longrightarrow> P t \<Longrightarrow> f x t = Some t' \<Longrightarrow> P t'"
  shows "P s'"
  using assms
proof (induction xs arbitrary: s)
  case Nil
  then show ?case by simp
next
  case (Cons x xs)
  from Cons.prems(1) obtain t where t: "f x s = Some t" "fold_option f xs t = Some s'"
    by (auto split: option.splits)
  have "P t" using Cons.prems(2) t(1) by (intro Cons.prems(3)[of x s t]) simp_all
  with t(2) show ?case by (intro Cons.IH[of t]) (auto intro: Cons.prems(3))
qed

lemma fold_option_Some:
  assumes "Q s"
    and "\<And>x t. x \<in> set xs \<Longrightarrow> Q t \<Longrightarrow> \<exists>t'. f x t = Some t' \<and> Q t'"
  shows "\<exists>s'. fold_option f xs s = Some s' \<and> Q s'"
  using assms
proof (induction xs arbitrary: s)
  case Nil
  then show ?case by simp
next
  case (Cons x xs)
  from Cons.prems obtain t where t: "f x s = Some t" "Q t" by (metis list.set_intros(1))
  have "\<exists>s'. fold_option f xs t = Some s' \<and> Q s'"
    by (rule Cons.IH[OF t(2)]) (auto intro: Cons.prems(2))
  with t(1) show ?case by simp
qed

lemma fold_option_covers:
  assumes "fold_option f xs s = Some s'" and "x \<in> set xs"
    and step: "\<And>y t t'. y \<in> set xs \<Longrightarrow> f y t = Some t' \<Longrightarrow> C y t' \<and> (\<forall>z. C z t \<longrightarrow> C z t')"
  shows "C x s'"
  using assms
proof (induction xs arbitrary: s)
  case Nil
  then show ?case by simp
next
  case (Cons y ys)
  from Cons.prems(1) obtain t where t: "f y s = Some t" "fold_option f ys t = Some s'"
    by (auto split: option.splits)
  have st: "C w u' \<and> (\<forall>z. C z u \<longrightarrow> C z u')" if "w \<in> set ys" "f w u = Some u'" for w u u'
    using Cons.prems(3)[of w u u'] that by simp
  show ?case
  proof (cases "x \<in> set ys")
    case True
    show ?thesis by (rule Cons.IH[OF t(2) True]) (rule st)
  next
    case False
    with Cons.prems(2) have xy: "x = y" by simp
    have "C y t" using Cons.prems(3)[of y s t] t(1) by simp
    with t(2) have "C y s'"
      by (rule fold_option_invariant) (use st in blast)
    with xy show ?thesis by simp
  qed
qed

lemma those_map_list_all2:
  "those (map f xs) = Some ys \<longleftrightarrow> list_all2 (\<lambda>x y. f x = Some y) xs ys"
  by (induction xs arbitrary: ys) (auto simp: list_all2_Cons1 split: option.splits)

lemma those_map_Some:
  "those (map f xs) = Some ys \<longleftrightarrow> length ys = length xs \<and> (\<forall>i < length xs. f (xs ! i) = Some (ys ! i))"
  unfolding those_map_list_all2 by (auto simp: list_all2_conv_all_nth)


section \<open>Cells of a row-major buffer\<close>

text \<open>Cells addressed by row and column in a row-major buffer of width W.\<close>

lemma recv_row_nth:
  assumes r: "recv_into buf (a * W + c0) count msg = Some buf'"
    and fit: "c0 + length msg \<le> W" and b: "b < W"
  shows "buf' ! (a' * W + b) =
           (if a' = a \<and> c0 \<le> b \<and> b < c0 + length msg then msg ! (b - c0) else buf ! (a' * W + b))"
proof -
  have iff: "(a * W + c0 \<le> a' * W + b \<and> a' * W + b < a * W + c0 + length msg)
        \<longleftrightarrow> (a' = a \<and> c0 \<le> b \<and> b < c0 + length msg)"
  proof
    assume h: "a * W + c0 \<le> a' * W + b \<and> a' * W + b < a * W + c0 + length msg"
    have "a' = a"
    proof (rule ccontr)
      assume ne: "a' \<noteq> a"
      show False
      proof (cases "a' < a")
        case True
        then have "(a' + 1) * W \<le> a * W" by (intro mult_le_mono1) simp
        then have "a' * W + W \<le> a * W" by simp
        with b have "a' * W + b < a * W" by linarith
        with h show False by linarith
      next
        case False
        with ne have "a < a'" by simp
        then have "(a + 1) * W \<le> a' * W" by (intro mult_le_mono1) simp
        then have "a * W + W \<le> a' * W" by simp
        with fit have "a * W + c0 + length msg \<le> a' * W + b" by linarith
        with h show False by linarith
      qed
    qed
    with h show "a' = a \<and> c0 \<le> b \<and> b < c0 + length msg" by simp
  next
    assume "a' = a \<and> c0 \<le> b \<and> b < c0 + length msg"
    then show "a * W + c0 \<le> a' * W + b \<and> a' * W + b < a * W + c0 + length msg" by simp
  qed
  have "buf' ! (a' * W + b) =
      (if a * W + c0 \<le> a' * W + b \<and> a' * W + b < a * W + c0 + length msg
       then msg ! (a' * W + b - (a * W + c0)) else buf ! (a' * W + b))"
    by (rule recv_into_nth[OF r])
  then show ?thesis unfolding iff by auto
qed

lemma update_cell_nth:
  assumes "b < W" "c < W" "a * W + c < length l"
  shows "l[a * W + c := v] ! (a' * W + b) = (if a' = a \<and> b = c then v else l ! (a' * W + b))"
proof (cases "a' * W + b = a * W + c")
  case True
  then have "a' = a \<and> b = c" using assms(1,2) by (rule row_major_inj)
  with assms(3) show ?thesis by simp
next
  case False
  then have ne: "\<not> (a' = a \<and> b = c)" by auto
  from False have "l[a * W + c := v] ! (a' * W + b) = l ! (a' * W + b)" by simp
  with ne show ?thesis by (simp only: if_False)
qed

lemma payload_row:
  assumes "a * W + c0 + n \<le> length buf"
  shows "length (payload buf (a * W + c0) n) = n"
    "\<And>j. j < n \<Longrightarrow> payload buf (a * W + c0) n ! j = buf ! (a * W + (c0 + j))"
  using assms by (simp_all add: payload_def add.assoc)

lemma cell_index_bound:
  assumes "a < R" "b < (W::nat)"
  shows "a * W + b < R * W"
  using assms by (rule grid_rank_bound)


section \<open>Grid facts and the messages of the Distributor\<close>

lemma is_gridD:
  assumes "is_grid p g gc"
  shows "1 \<le> g" "1 \<le> gc" "p = g * gc" "p div g = gc" "1 \<le> p"
  using assms by (auto simp: is_grid_def)

lemma setup_domain_is_grid:
  assumes "1 \<le> p"
  shows "\<exists>g gc. is_grid p g gc \<and> (\<forall>N r. setup_domain N r p = Some (config_for N r p g))"
  using setup_domain_grid[OF assms] unfolding is_grid_def by blast

lemma config_for_fields:
  assumes "is_grid p g gc"
  shows "rank (config_for N r p g) = r" "world_size (config_for N r p g) = p"
    "image_size (config_for N r p g) = N" "halo_size (config_for N r p g) = 1"
    "grid_rows (config_for N r p g) = g" "grid_cols (config_for N r p g) = gc"
    "my_row (config_for N r p g) = r div gc" "my_col (config_for N r p g) = r mod gc"
  using is_gridD(4)[OF assms] by (simp_all add: config_for_def)

lemma band_bound:
  assumes "1 \<le> (g::nat)" "b < g"
  shows "b * (N div g) + (if b = g - 1 then N - (g - 1) * (N div g) else N div g) \<le> N"
proof -
  have gs: "g * (N div g) \<le> N" by (rule times_div_less_eq_dividend)
  show ?thesis
  proof (cases "b = g - 1")
    case True
    have "(g - 1) * (N div g) \<le> g * (N div g)" by (rule mult_le_mono1) simp
    with gs have "(g - 1) * (N div g) \<le> N" by linarith
    with True show ?thesis by simp
  next
    case False
    with assms have "b + 1 \<le> g" by simp
    then have "(b + 1) * (N div g) \<le> g * (N div g)" by (rule mult_le_mono1)
    with gs have "(b + 1) * (N div g) \<le> N" by linarith
    then have "b * (N div g) + N div g \<le> N" by simp
    with False show ?thesis by simp
  qed
qed

lemma block_bounds:
  assumes gr: "is_grid p g gc" and r: "r < p"
  shows "start_row_of (config_for N r p g) + local_rows (config_for N r p g) \<le> N"
    and "start_col_of (config_for N r p g) + local_cols (config_for N r p g) \<le> N"
proof -
  note d = is_gridD[OF gr]
  have b: "r div gc < g" using r d(3) by (simp add: less_mult_imp_div_less)
  have c: "r mod gc < gc" using d(2) by simp
  show "start_row_of (config_for N r p g) + local_rows (config_for N r p g) \<le> N"
    using band_bound[OF d(1) b, of N] by (auto simp add: start_row_of_def config_for_def d(4) split: if_splits)
  show "start_col_of (config_for N r p g) + local_cols (config_for N r p g) \<le> N"
    using band_bound[OF d(2) c, of N] by (auto simp add: start_col_of_def config_for_def d(4) split: if_splits)
qed

lemma fold_split_pair:
  assumes "\<And>r l out. step r (l, out) = (A r l, out @ B r)"
  shows "fold step rs (l, out) = (fold A rs l, out @ concat (map B rs))"
  by (induction rs arbitrary: l out) (simp_all add: assms)

lemma scatter_image_root_eq:
  assumes "1 \<le> world_size cfg"
  shows "scatter_image_root glob loc cfg N =
     (scatter_copy glob loc cfg N 0,
      concat (map (\<lambda>r. if r = 0 then [] else scatter_sends glob cfg N r) [0..<world_size cfg]))"
proof -
  let ?A = "\<lambda>r l. if r = 0 then scatter_copy glob l cfg N r else l"
  let ?B = "\<lambda>r. if r = 0 then [] else scatter_sends glob cfg N r"
  have "scatter_image_root glob loc cfg N
      = (fold ?A [0..<world_size cfg] loc, [] @ concat (map ?B [0..<world_size cfg]))"
    unfolding scatter_image_root_def by (rule fold_split_pair) simp
  moreover have "fold ?A [0..<world_size cfg] loc = scatter_copy glob loc cfg N 0"
  proof -
    have "[0..<world_size cfg] = 0 # [Suc 0..<world_size cfg]"
      using assms by (simp add: upt_conv_Cons)
    moreover have "fold ?A [Suc 0..<world_size cfg] = id"
      by (rule fold_id) auto
    ultimately show ?thesis by simp
  qed
  ultimately show ?thesis by simp
qed

lemma inbox_append: "inbox (xs @ ys) d t = inbox xs d t @ inbox ys d t"
  by (simp add: inbox_def)

lemma inbox_concat: "inbox (concat xss) d t = concat (map (\<lambda>xs. inbox xs d t) xss)"
  by (induction xss) (simp_all add: inbox_append, simp add: inbox_def)

lemma concat_single_upt:
  "concat (map (\<lambda>x. if x = r then F x else []) [0..<n]) = (if r < n then F r else [])"
  by (induction n) auto

lemma inbox_scatter_sends:
  "inbox (scatter_sends glob cfg N r') r 0 =
     (if r' = r then
        (case scatter_block cfg N r of (start_row, start_col, rows, cols) \<Rightarrow>
           map (\<lambda>i. payload glob ((start_row + i) * N + start_col) cols) [0..<rows])
      else [])"
  by (auto simp: inbox_def scatter_sends_def filter_map comp_def split: prod.splits)

lemma inbox_scatter_root:
  assumes "1 \<le> world_size cfg" "0 < r" "r < world_size cfg"
  shows "inbox (snd (scatter_image_root glob loc cfg N)) r 0 =
     (case scatter_block cfg N r of (start_row, start_col, rows, cols) \<Rightarrow>
           map (\<lambda>i. payload glob ((start_row + i) * N + start_col) cols) [0..<rows])"
proof -
  let ?F = "\<lambda>r. (case scatter_block cfg N r of (start_row, start_col, rows, cols) \<Rightarrow>
           map (\<lambda>i. payload glob ((start_row + i) * N + start_col) cols) [0..<rows])"
  have "inbox (if r' = 0 then [] else scatter_sends glob cfg N r') r 0
      = (if r' = r then ?F r' else [])" for r'
    using assms(2) by (auto simp: inbox_scatter_sends) (simp add: inbox_def)
  then have "inbox (snd (scatter_image_root glob loc cfg N)) r 0
      = concat (map (\<lambda>x. if x = r then ?F x else []) [0..<world_size cfg])"
    by (simp add: scatter_image_root_eq[OF assms(1)] inbox_concat comp_def)
  also have "\<dots> = ?F r" using assms(3) by (simp only: concat_single_upt if_True)
  finally show ?thesis .
qed


section \<open>What the Distributor writes into a tile\<close>

lemma tile_index_neq:
  assumes "b < W" "j + 1 < W" "\<not> (a = i + 1 \<and> b = j + 1)"
  shows "(i + 1) * W + (j + 1) \<noteq> a * W + (b::nat)"
proof
  assume "(i + 1) * W + (j + 1) = a * W + b"
  then have "i + 1 = a \<and> j + 1 = b" using assms(2,1) by (rule row_major_inj)
  with assms(3) show False by simp
qed

lemma scatter_copy_cells:
  assumes blk: "scatter_block cfg N r = (sr, sc, rows, cols)" and h: "halo_size cfg = 1"
  shows "length (scatter_copy glob loc cfg N r) = length loc"
    and "\<And>i j. i < rows \<Longrightarrow> j < cols \<Longrightarrow> length loc = (rows + 2) * (cols + 2) \<Longrightarrow>
           scatter_copy glob loc cfg N r ! ((i + 1) * (cols + 2) + (j + 1)) = glob ! ((sr + i) * N + sc + j)"
    and "\<And>a b. b < cols + 2 \<Longrightarrow> \<not> (1 \<le> a \<and> a \<le> rows \<and> 1 \<le> b \<and> b \<le> cols) \<Longrightarrow>
           scatter_copy glob loc cfg N r ! (a * (cols + 2) + b) = loc ! (a * (cols + 2) + b)"
proof -
  let ?idx = "\<lambda>i j. (i + 1) * (cols + 2) + (j + 1)"
  let ?val = "\<lambda>i j. glob ! ((sr + i) * N + sc + j)"
  have unf: "scatter_copy glob loc cfg N r
      = fold (\<lambda>i l. fold (\<lambda>j l. l[?idx i j := ?val i j]) [0..<cols] l) [0..<rows] loc"
    by (simp add: scatter_copy_def blk h)
  show "length (scatter_copy glob loc cfg N r) = length loc"
    unfolding unf by (rule nested_update_length)
  show "scatter_copy glob loc cfg N r ! ((i + 1) * (cols + 2) + (j + 1)) = glob ! ((sr + i) * N + sc + j)"
    if i: "i < rows" and j: "j < cols" and len: "length loc = (rows + 2) * (cols + 2)" for i j
    unfolding unf
  proof (rule nested_update_nth)
    show "i \<in> set [0..<rows]" "j \<in> set [0..<cols]" using i j by simp_all
    show "?idx i j < length loc"
      unfolding len by (rule cell_index_bound) (use i j in simp_all)
    show "i1 = i2 \<and> j1 = j2"
      if "i1 \<in> set [0..<rows]" "i2 \<in> set [0..<rows]" "j1 \<in> set [0..<cols]" "j2 \<in> set [0..<cols]"
         "?idx i1 j1 = ?idx i2 j2" for i1 j1 i2 j2
    proof -
      from that have "j1 + 1 < cols + 2" "j2 + 1 < cols + 2" by simp_all
      with that(5) have "i1 + 1 = i2 + 1 \<and> j1 + 1 = j2 + 1" by (rule row_major_inj)
      then show ?thesis by simp
    qed
  qed
  show "scatter_copy glob loc cfg N r ! (a * (cols + 2) + b) = loc ! (a * (cols + 2) + b)"
    if b: "b < cols + 2" and out: "\<not> (1 \<le> a \<and> a \<le> rows \<and> 1 \<le> b \<and> b \<le> cols)" for a b
    unfolding unf
  proof (rule nested_update_other)
    fix i j assume "i \<in> set [0..<rows]" "j \<in> set [0..<cols]"
    then have ij: "i < rows" "j < cols" by simp_all
    then have "\<not> (a = i + 1 \<and> b = j + 1)" using out by auto
    then show "?idx i j \<noteq> a * (cols + 2) + b"
      by (intro tile_index_neq) (use b ij in simp_all)
  qed
qed

lemma scatter_image_recv_frame:
  assumes res: "scatter_image_recv loc cfg msgs = Some l'" and h: "halo_size cfg = 1"
  shows "length l' = length loc"
    and "\<And>a b. b < local_cols cfg + 2 \<Longrightarrow>
           \<not> (1 \<le> a \<and> a \<le> local_rows cfg \<and> 1 \<le> b \<and> b \<le> local_cols cfg) \<Longrightarrow>
           l' ! (a * (local_cols cfg + 2) + b) = loc ! (a * (local_cols cfg + 2) + b)"
proof -
  let ?W = "local_cols cfg + 2"
  let ?f = "\<lambda>i l. (let h = halo_size cfg in
          if i < length msgs
          then recv_into l ((i + h) * (local_cols cfg + 2 * h) + h) (local_cols cfg) (msgs ! i)
          else None)"
  have res': "fold_option ?f [0..<local_rows cfg] loc = Some l'"
    using res unfolding scatter_image_recv_def .
  have stepD: "recv_into t ((i + 1) * ?W + 1) (local_cols cfg) (msgs ! i) = Some t'"
    if "?f i t = Some t'" for i t t'
    using that by (simp add: h Let_def split: if_splits)
  show "length l' = length loc"
    by (rule fold_option_invariant[OF res', where P = "\<lambda>t. length t = length loc"])
       (auto dest!: stepD recv_into_length)
  show "l' ! (a * ?W + b) = loc ! (a * ?W + b)"
    if b: "b < ?W" and out: "\<not> (1 \<le> a \<and> a \<le> local_rows cfg \<and> 1 \<le> b \<and> b \<le> local_cols cfg)" for a b
  proof (rule fold_option_invariant[OF res', where P = "\<lambda>t. t ! (a * ?W + b) = loc ! (a * ?W + b)"])
    show "loc ! (a * ?W + b) = loc ! (a * ?W + b)" ..
  next
    fix i t t'
    assume i: "i \<in> set [0..<local_rows cfg]" and t: "t ! (a * ?W + b) = loc ! (a * ?W + b)"
      and st: "?f i t = Some t'"
    note r = stepD[OF st]
    have len: "length (msgs ! i) \<le> local_cols cfg" by (rule recv_into_SomeD(1)[OF r])
    then have fit: "1 + length (msgs ! i) \<le> ?W" by simp
    have eq: "t' ! (a * ?W + b) =
        (if a = i + 1 \<and> 1 \<le> b \<and> b < 1 + length (msgs ! i) then (msgs ! i) ! (b - 1) else t ! (a * ?W + b))"
      by (rule recv_row_nth[OF r fit b])
    have nc: "\<not> (a = i + 1 \<and> 1 \<le> b \<and> b < 1 + length (msgs ! i))"
      using out i len by auto
    have "t' ! (a * ?W + b) = t ! (a * ?W + b)" by (simp only: eq nc if_False)
    then show "t' ! (a * ?W + b) = loc ! (a * ?W + b)" using t by (rule trans)
  qed
qed

lemma scatter_image_recv_cells:
  assumes res: "scatter_image_recv loc cfg msgs = Some l'" and h: "halo_size cfg = 1"
    and i: "i < local_rows cfg" and j: "j < length (msgs ! i)" and jc: "j < local_cols cfg"
  shows "l' ! ((i + 1) * (local_cols cfg + 2) + (j + 1)) = msgs ! i ! j"
proof -
  let ?W = "local_cols cfg + 2"
  let ?f = "\<lambda>i l. (let h = halo_size cfg in
          if i < length msgs
          then recv_into l ((i + h) * (local_cols cfg + 2 * h) + h) (local_cols cfg) (msgs ! i)
          else None)"
  let ?C = "\<lambda>i t. \<forall>j < local_cols cfg. j < length (msgs ! i) \<longrightarrow>
               t ! ((i + 1) * ?W + (j + 1)) = msgs ! i ! j"
  have res': "fold_option ?f [0..<local_rows cfg] loc = Some l'"
    using res unfolding scatter_image_recv_def .
  have stepD: "recv_into t ((i + 1) * ?W + 1) (local_cols cfg) (msgs ! i) = Some t'"
    if "?f i t = Some t'" for i t t'
    using that by (simp add: h Let_def split: if_splits)
  have "?C i l'"
  proof (rule fold_option_covers[OF res', where C = ?C])
    show "i \<in> set [0..<local_rows cfg]" using i by simp
  next
    fix y t t'
    assume "y \<in> set [0..<local_rows cfg]" and st: "?f y t = Some t'"
    note r = stepD[OF st]
    have fit: "1 + length (msgs ! y) \<le> ?W" using recv_into_SomeD(1)[OF r] by simp
    have nth: "t' ! (a * ?W + b) =
        (if a = y + 1 \<and> 1 \<le> b \<and> b < 1 + length (msgs ! y) then (msgs ! y) ! (b - 1) else t ! (a * ?W + b))"
      if "b < ?W" for a b
      by (rule recv_row_nth[OF r fit that])
    have cy: "?C y t'"
    proof (intro allI impI)
      fix j assume j: "j < local_cols cfg" "j < length (msgs ! y)"
      then have "j + 1 < ?W" by simp
      from nth[OF this, of "y + 1"] j show "t' ! ((y + 1) * ?W + (j + 1)) = msgs ! y ! j" by simp
    qed
    have keep: "?C z t'" if cz: "?C z t" for z
    proof (cases "z = y")
      case True
      with cy show ?thesis by simp
    next
      case False
      show ?thesis
      proof (intro allI impI)
        fix j assume j: "j < local_cols cfg" "j < length (msgs ! z)"
        then have "j + 1 < ?W" by simp
        from nth[OF this, of "z + 1"] False
        have "t' ! ((z + 1) * ?W + (j + 1)) = t ! ((z + 1) * ?W + (j + 1))" by simp
        with cz j show "t' ! ((z + 1) * ?W + (j + 1)) = msgs ! z ! j" by simp
      qed
    qed
    from cy keep show "?C y t' \<and> (\<forall>z. ?C z t \<longrightarrow> ?C z t')" by blast
  qed
  with j jc show ?thesis by simp
qed

lemma scatter_image_recv_Some:
  assumes h: "halo_size cfg = 1"
    and len: "length loc = (local_rows cfg + 2) * (local_cols cfg + 2)"
    and n: "local_rows cfg \<le> length msgs"
    and m: "\<And>i. i < local_rows cfg \<Longrightarrow> length (msgs ! i) \<le> local_cols cfg"
  shows "\<exists>l'. scatter_image_recv loc cfg msgs = Some l'"
proof -
  let ?W = "local_cols cfg + 2"
  let ?f = "\<lambda>i l. (let h = halo_size cfg in
          if i < length msgs
          then recv_into l ((i + h) * (local_cols cfg + 2 * h) + h) (local_cols cfg) (msgs ! i)
          else None)"
  have "\<exists>l'. fold_option ?f [0..<local_rows cfg] loc = Some l' \<and> length l' = length loc"
  proof (rule fold_option_Some[where Q = "\<lambda>t::int list. length t = length loc"])
    show "length loc = length loc" ..
  next
    fix i and t :: "int list"
    assume i: "i \<in> set [0..<local_rows cfg]" and t: "length t = length loc"
    then have il: "i < local_rows cfg" by simp
    have "(i + 1) * ?W + (1 + local_cols cfg) < (local_rows cfg + 2) * ?W"
      by (rule cell_index_bound) (use il in simp_all)
    then have "(i + 1) * ?W + 1 + length (msgs ! i) \<le> length t"
      using m[OF il] by (simp add: t len)
    then obtain t' where t': "recv_into t ((i + 1) * ?W + 1) (local_cols cfg) (msgs ! i) = Some t'"
      using recv_into_Some[OF m[OF il]] by blast
    then have "?f i t = Some t'" using il n by (simp add: h Let_def)
    moreover have "length t' = length loc" using recv_into_length[OF t'] t by simp
    ultimately show "\<exists>t'. ?f i t = Some t' \<and> length t' = length loc" by blast
  qed
  then show ?thesis unfolding scatter_image_recv_def by blast
qed


section \<open>The identity kernel and the copy of the Collector\<close>

lemma kernel_loop_nth:
  assumes i: "i < rows" and j: "j < cols" and len: "length outp = rows * cols"
  shows "fold (\<lambda>i out. fold (\<lambda>j out. out[(i - 1) * cols + (j - 1) := val i j]) [1..<cols + 1] out)
           [1..<rows + 1] outp ! (i * cols + j) = val (i + 1) (j + 1)"
proof -
  let ?idx = "\<lambda>i j. (i - 1) * cols + (j - (1::nat))"
  have "fold (\<lambda>i l. fold (\<lambda>j l. l[?idx i j := val i j]) [1..<cols + 1] l) [1..<rows + 1] outp
          ! ?idx (i + 1) (j + 1) = val (i + 1) (j + 1)"
  proof (rule nested_update_nth)
    show "i + 1 \<in> set [1..<rows + 1]" using i by auto
    show "j + 1 \<in> set [1..<cols + 1]" using j by auto
    show "?idx (i + 1) (j + 1) < length outp"
      using row_major_bound[OF i j] by (simp add: len)
    show "i1 = i2 \<and> j1 = j2"
      if "i1 \<in> set [1..<rows + 1]" "i2 \<in> set [1..<rows + 1]"
         "j1 \<in> set [1..<cols + 1]" "j2 \<in> set [1..<cols + 1]" "?idx i1 j1 = ?idx i2 j2" for i1 j1 i2 j2
    proof -
      from that have "j1 - 1 < cols" "j2 - 1 < cols" by auto
      with that(5) have "i1 - 1 = i2 - 1 \<and> j1 - 1 = j2 - 1" by (rule row_major_inj)
      with that show ?thesis by auto
    qed
  qed
  then show ?thesis by simp
qed

lemma identity_kernel_cell:
  assumes h: "halo_size cfg = 1"
    and len: "length outp = local_rows cfg * local_cols cfg"
    and i: "i < local_rows cfg" and j: "j < local_cols cfg"
  shows "identity_kernel loc outp cfg ! (i * local_cols cfg + j)
           = loc ! ((i + 1) * (local_cols cfg + 2) + (j + 1))"
proof -
  have "identity_kernel loc outp cfg
      = fold (\<lambda>i out. fold (\<lambda>j out. out[(i - 1) * local_cols cfg + (j - 1) :=
                 loc ! (i * (local_cols cfg + 2) + j)]) [1..<local_cols cfg + 1] out)
           [1..<local_rows cfg + 1] outp"
    by (simp add: identity_kernel_def Let_def h)
  then show ?thesis using kernel_loop_nth[OF i j len, of "\<lambda>i j. loc ! (i * (local_cols cfg + 2) + j)"]
    by simp
qed

lemma identity_kernel_length:
  "length (identity_kernel loc outp cfg) = length outp"
  by (simp add: identity_kernel_def Let_def)

lemma inbox_gather_image_send:
  "inbox (gather_image_send outp cfg) 0 0
     = map (\<lambda>i. payload outp (i * local_cols cfg) (local_cols cfg)) [0..<local_rows cfg]"
  by (simp add: inbox_def gather_image_send_def filter_map comp_def)

lemma fold_update_keep:
  assumes "\<And>x. x \<in> set xs \<Longrightarrow> val x = ref ! idx x" and "l ! k = ref ! k"
  shows "fold (\<lambda>x l. l[idx x := val x]) xs l ! k = ref ! k"
  using assms
proof (induction xs arbitrary: l)
  case Nil
  then show ?case by simp
next
  case (Cons y ys)
  have "l[idx y := val y] ! k = ref ! k"
  proof (cases "idx y < length l")
    case True
    then show ?thesis using Cons.prems(1)[of y] Cons.prems(2) by (simp add: nth_list_update)
  next
    case False
    then have "l[idx y := val y] = l" by (simp add: list_update_beyond)
    with Cons.prems(2) show ?thesis by simp
  qed
  then have "fold (\<lambda>x l. l[idx x := val x]) ys (l[idx y := val y]) ! k = ref ! k"
    by (intro Cons.IH) (simp_all add: Cons.prems(1))
  then show ?case by simp
qed

lemma fold_update_hit:
  assumes "\<And>x. x \<in> set xs \<Longrightarrow> val x = ref ! idx x" and "x \<in> set xs" and "idx x < length l"
  shows "fold (\<lambda>x l. l[idx x := val x]) xs l ! idx x = ref ! idx x"
  using assms
proof (induction xs arbitrary: l)
  case Nil
  then show ?case by simp
next
  case (Cons y ys)
  show ?case
  proof (cases "x = y")
    case True
    have "l[idx y := val y] ! idx y = ref ! idx y"
      using Cons.prems(1)[of y] Cons.prems(3) True by simp
    then have "fold (\<lambda>x l. l[idx x := val x]) ys (l[idx y := val y]) ! idx y = ref ! idx y"
      by (intro fold_update_keep) (simp_all add: Cons.prems(1))
    with True show ?thesis by simp
  next
    case False
    with Cons.prems(2) have "x \<in> set ys" by simp
    then have "fold (\<lambda>x l. l[idx x := val x]) ys (l[idx y := val y]) ! idx x = ref ! idx x"
      by (intro Cons.IH) (simp_all add: Cons.prems)
    then show ?thesis by simp
  qed
qed

lemma block_index_bound:
  assumes "sr + rows \<le> N" "sc + cols \<le> N" "i < rows" "j \<le> (cols::nat)"
  shows "(sr + i) * N + sc + j \<le> N * N"
proof -
  have "sr + i + 1 \<le> N" using assms by simp
  then have "(sr + i + 1) * N \<le> N * N" by (rule mult_le_mono1)
  moreover have "sc + j \<le> N" using assms by simp
  ultimately show ?thesis by simp
qed

lemma gather_copy_agree:
  assumes blk: "gather_block cfg N r = (sr, sc, rows, cols)"
    and vals: "\<And>i j. i < rows \<Longrightarrow> j < cols \<Longrightarrow> outp ! (i * cols + j) = ref ! ((sr + i) * N + sc + j)"
    and bnd: "sr + rows \<le> N" "sc + cols \<le> N" and len: "length glob = N * N"
  shows "length (gather_copy outp glob cfg N r) = length glob"
    and "\<And>k. glob ! k = ref ! k \<Longrightarrow> gather_copy outp glob cfg N r ! k = ref ! k"
    and "block_agrees (sr, sc, rows, cols) N (gather_copy outp glob cfg N r) ref"
proof -
  let ?idx = "\<lambda>(i, j). (sr + i) * N + sc + j"
  let ?val = "\<lambda>(i, j). outp ! (i * cols + j)"
  have unf: "gather_copy outp glob cfg N r
      = fold (\<lambda>x l. l[?idx x := ?val x]) (List.product [0..<rows] [0..<cols]) glob"
    by (simp add: gather_copy_def blk nested_update_conv)
  have v: "?val x = ref ! ?idx x" if "x \<in> set (List.product [0..<rows] [0..<cols])" for x
    using that vals by auto
  show "length (gather_copy outp glob cfg N r) = length glob"
    unfolding unf by (rule fold_update_length)
  show "gather_copy outp glob cfg N r ! k = ref ! k" if "glob ! k = ref ! k" for k
    unfolding unf using v that by (rule fold_update_keep)
  show "block_agrees (sr, sc, rows, cols) N (gather_copy outp glob cfg N r) ref"
    unfolding block_agrees_def prod.case
  proof (intro allI impI)
    fix i j assume ij: "i < rows" "j < cols"
    then have mem: "(i, j) \<in> set (List.product [0..<rows] [0..<cols])" by simp
    have "(sr + i) * N + sc + (j + 1) \<le> N * N"
      by (rule block_index_bound[OF bnd ij(1)]) (use ij in simp)
    then have lt: "?idx (i, j) < length glob" by (simp add: len)
    have "fold (\<lambda>x l. l[?idx x := ?val x]) (List.product [0..<rows] [0..<cols]) glob ! ?idx (i, j)
        = ref ! ?idx (i, j)"
      using v mem lt by (rule fold_update_hit)
    then show "gather_copy outp glob cfg N r ! ((sr + i) * N + sc + j) = ref ! ((sr + i) * N + sc + j)"
      unfolding unf by simp
  qed
qed


section \<open>What the Collector writes into the global image\<close>

lemma fold_option_covers_inv:
  assumes "fold_option f xs s = Some s'" and "x \<in> set xs" and "Q s"
    and step: "\<And>y t t'. y \<in> set xs \<Longrightarrow> Q t \<Longrightarrow> f y t = Some t' \<Longrightarrow>
                 Q t' \<and> C y t' \<and> (\<forall>z. C z t \<longrightarrow> C z t')"
  shows "C x s'"
proof -
  let ?f = "\<lambda>y t. if Q t then f y t else None"
  have same: "fold_option ?f ys t = fold_option f ys t" if "Q t" "set ys \<subseteq> set xs" for ys t
    using that
  proof (induction ys arbitrary: t)
    case Nil
    then show ?case by simp
  next
    case (Cons y ys)
    show ?case
    proof (cases "f y t")
      case None
      with Cons.prems show ?thesis by simp
    next
      case (Some t')
      with step[of y t t'] Cons.prems have "Q t'" by simp
      with Cons Some show ?thesis by simp
    qed
  qed
  have "fold_option ?f xs s = Some s'" using same[of s xs] assms(1,3) by simp
  then show ?thesis
  proof (rule fold_option_covers[OF _ assms(2)])
    fix y t t' assume "y \<in> set xs" "?f y t = Some t'"
    then show "C y t' \<and> (\<forall>z. C z t \<longrightarrow> C z t')"
      using step[of y t t'] by (auto split: if_splits)
  qed
qed

lemma block_agrees_keep:
  assumes "block_agrees blk N t ref" and "\<And>k. t ! k = ref ! k \<Longrightarrow> t' ! k = ref ! k"
  shows "block_agrees blk N t' ref"
  using assms unfolding block_agrees_def by (cases blk) auto

lemma gather_recvs_agree:
  assumes blk: "gather_block cfg N r = (sr, sc, rows, cols)"
    and n: "length msgs = rows"
    and m: "\<And>i. i < rows \<Longrightarrow> length (msgs ! i) = cols"
    and vals: "\<And>i j. i < rows \<Longrightarrow> j < cols \<Longrightarrow> msgs ! i ! j = ref ! ((sr + i) * N + sc + j)"
    and bnd: "sr + rows \<le> N" "sc + cols \<le> N" and len: "length glob = N * N"
  shows "\<exists>g'. gather_recvs glob cfg N r msgs = Some g' \<and> length g' = length glob \<and>
           (\<forall>k. glob ! k = ref ! k \<longrightarrow> g' ! k = ref ! k) \<and>
           block_agrees (sr, sc, rows, cols) N g' ref"
proof -
  let ?off = "\<lambda>i. (sr + i) * N + sc"
  let ?f = "\<lambda>i g. recv_into g (?off i) cols (msgs ! i)"
  have unf: "gather_recvs glob cfg N r msgs = fold_option ?f [0..<rows] glob"
    by (simp add: gather_recvs_def blk n)
  have step: "t' ! k = (if ?off i \<le> k \<and> k < ?off i + cols then ref ! k else t ! k)"
    if i: "i < rows" and st: "?f i t = Some t'" for i t t' k
  proof -
    have "t' ! k = (if ?off i \<le> k \<and> k < ?off i + length (msgs ! i) then msgs ! i ! (k - ?off i) else t ! k)"
      by (rule recv_into_nth[OF st])
    moreover have "msgs ! i ! (k - ?off i) = ref ! k" if "?off i \<le> k" "k < ?off i + cols"
    proof -
      from that have "k - ?off i < cols" by simp
      from vals[OF i this] that(1) show ?thesis by simp
    qed
    ultimately show ?thesis using m[OF i] by auto
  qed
  have ex: "\<exists>g'. fold_option ?f [0..<rows] glob = Some g' \<and> length g' = length glob"
  proof (rule fold_option_Some[where Q = "\<lambda>t::int list. length t = length glob"])
    show "length glob = length glob" ..
  next
    fix i and t :: "int list"
    assume "i \<in> set [0..<rows]" and t: "length t = length glob"
    then have i: "i < rows" by simp
    have "?off i + cols \<le> N * N" by (rule block_index_bound[OF bnd i]) simp
    then have "?off i + length (msgs ! i) \<le> length t" by (simp add: m[OF i] t len)
    moreover have "length (msgs ! i) \<le> cols" by (simp add: m[OF i])
    ultimately obtain t' where t': "?f i t = Some t'" using recv_into_Some by blast
    with recv_into_length[OF t'] t show "\<exists>t'. ?f i t = Some t' \<and> length t' = length glob" by simp
  qed
  then obtain g' where g': "fold_option ?f [0..<rows] glob = Some g'" "length g' = length glob"
    by blast
  have keep: "g' ! k = ref ! k" if "glob ! k = ref ! k" for k
  proof (rule fold_option_invariant[OF g'(1), where P = "\<lambda>t. t ! k = ref ! k"])
    show "glob ! k = ref ! k" by fact
  next
    fix i t t' assume "i \<in> set [0..<rows]" "t ! k = ref ! k" "?f i t = Some t'"
    then show "t' ! k = ref ! k" using step[of i t t' k] by simp
  qed
  have cov: "\<forall>j < cols. g' ! (?off i + j) = ref ! (?off i + j)" if i: "i < rows" for i
  proof (rule fold_option_covers[OF g'(1), where C = "\<lambda>i t. \<forall>j < cols. t ! (?off i + j) = ref ! (?off i + j)"])
    show "i \<in> set [0..<rows]" using i by simp
  next
    fix y t t' assume y: "y \<in> set [0..<rows]" and st: "?f y t = Some t'"
    then have yl: "y < rows" by simp
    have a: "\<forall>j < cols. t' ! (?off y + j) = ref ! (?off y + j)"
      using step[OF yl st] by simp
    have b: "\<forall>j < cols. t' ! (?off z + j) = ref ! (?off z + j)"
      if "\<forall>j < cols. t ! (?off z + j) = ref ! (?off z + j)" for z
      using step[OF yl st] that by simp
    from a b show "(\<forall>j < cols. t' ! (?off y + j) = ref ! (?off y + j)) \<and>
        (\<forall>z. (\<forall>j < cols. t ! (?off z + j) = ref ! (?off z + j)) \<longrightarrow>
             (\<forall>j < cols. t' ! (?off z + j) = ref ! (?off z + j)))" by blast
  qed
  have "block_agrees (sr, sc, rows, cols) N g' ref"
    unfolding block_agrees_def prod.case using cov by (simp add: add.assoc)
  with g' keep show ?thesis unfolding unf by blast
qed

lemma gather_image_root_agree:
  assumes blocks: "\<And>r. r < world_size cfg \<Longrightarrow>
      (case gather_block cfg N r of (sr, sc, rows, cols) \<Rightarrow>
         sr + rows \<le> N \<and> sc + cols \<le> N \<and>
         (if r = 0 then \<forall>i < rows. \<forall>j < cols. outp ! (i * cols + j) = ref ! ((sr + i) * N + sc + j)
          else length (from r) = rows \<and>
               (\<forall>i < rows. length (from r ! i) = cols \<and>
                  (\<forall>j < cols. from r ! i ! j = ref ! ((sr + i) * N + sc + j)))))"
    and len: "length glob = N * N"
  shows "\<exists>g'. gather_image_root outp glob cfg N from = Some g' \<and> length g' = N * N \<and>
           (\<forall>r < world_size cfg. block_agrees (gather_block cfg N r) N g' ref)"
proof -
  let ?f = "\<lambda>r g. if r = 0 then Some (gather_copy outp g cfg N r) else gather_recvs g cfg N r (from r)"
  have step: "\<exists>t'. ?f r t = Some t' \<and> length t' = N * N \<and>
           (\<forall>k. t ! k = ref ! k \<longrightarrow> t' ! k = ref ! k) \<and>
           block_agrees (gather_block cfg N r) N t' ref"
    if r: "r < world_size cfg" and t: "length t = N * N" for r t
  proof -
    obtain sr sc rows cols where blk: "gather_block cfg N r = (sr, sc, rows, cols)"
      by (cases "gather_block cfg N r") auto
    note b = blocks[OF r, unfolded blk prod.case]
    show ?thesis
    proof (cases "r = 0")
      case True
      have v: "outp ! (i * cols + j) = ref ! ((sr + i) * N + sc + j)" if "i < rows" "j < cols" for i j
        using b True that by simp
      have bn: "sr + rows \<le> N" "sc + cols \<le> N" using b by simp_all
      note ga = gather_copy_agree[OF blk v bn t]
      have "?f r t = Some (gather_copy outp t cfg N r)" using True by simp
      moreover have "block_agrees (gather_block cfg N r) N (gather_copy outp t cfg N r) ref"
        unfolding blk by (rule ga(3))
      moreover have "length (gather_copy outp t cfg N r) = N * N" using ga(1) t by simp
      moreover have "\<forall>k. t ! k = ref ! k \<longrightarrow> gather_copy outp t cfg N r ! k = ref ! k"
        using ga(2) by blast
      ultimately show ?thesis by blast
    next
      case False
      have n: "length (from r) = rows" using b False by simp
      have m: "length (from r ! i) = cols" if "i < rows" for i using b False that by simp
      have v: "from r ! i ! j = ref ! ((sr + i) * N + sc + j)" if "i < rows" "j < cols" for i j
        using b False that by simp
      have bn: "sr + rows \<le> N" "sc + cols \<le> N" using b by simp_all
      from gather_recvs_agree[OF blk n m v bn t] obtain g' where
        g': "gather_recvs t cfg N r (from r) = Some g'" "length g' = length t"
            "\<forall>k. t ! k = ref ! k \<longrightarrow> g' ! k = ref ! k"
            "block_agrees (sr, sc, rows, cols) N g' ref" by blast
      have "?f r t = Some g'" using False g'(1) by simp
      moreover have "block_agrees (gather_block cfg N r) N g' ref"
        unfolding blk by (rule g'(4))
      moreover have "length g' = N * N" using g'(2) t by simp
      ultimately show ?thesis using g'(3) by blast
    qed
  qed
  have ex: "\<exists>g'. fold_option ?f [0..<world_size cfg] glob = Some g' \<and> length g' = N * N"
  proof (rule fold_option_Some[where Q = "\<lambda>t::int list. length t = N * N"])
    show "length glob = N * N" by (rule len)
  next
    fix r and t :: "int list" assume "r \<in> set [0..<world_size cfg]" "length t = N * N"
    then show "\<exists>t'. ?f r t = Some t' \<and> length t' = N * N" using step[of r t] by auto
  qed
  then obtain g' where g': "fold_option ?f [0..<world_size cfg] glob = Some g'" "length g' = N * N"
    by blast
  let ?C = "\<lambda>r t. block_agrees (gather_block cfg N r) N t ref"
  have "?C r g'" if r: "r < world_size cfg" for r
  proof (rule fold_option_covers_inv[OF g'(1), where Q = "\<lambda>t. length t = N * N" and C = ?C])
    show "r \<in> set [0..<world_size cfg]" using r by simp
    show "length glob = N * N" by (rule len)
  next
    fix y t t'
    assume y: "y \<in> set [0..<world_size cfg]" and t: "length t = N * N" and st: "?f y t = Some t'"
    from y have "y < world_size cfg" by simp
    from step[OF this t] st have p: "length t' = N * N"
      "\<forall>k. t ! k = ref ! k \<longrightarrow> t' ! k = ref ! k" "?C y t'" by auto
    have "?C z t'" if "?C z t" for z
      by (rule block_agrees_keep[OF that]) (use p(2) in blast)
    with p show "length t' = N * N \<and> ?C y t' \<and> (\<forall>z. ?C z t \<longrightarrow> ?C z t')" by blast
  qed
  with g' show ?thesis unfolding gather_image_root_def by blast
qed


section \<open>The Distributor on the process group\<close>

lemma those_map_SomeI:
  assumes "\<And>x. x \<in> set xs \<Longrightarrow> \<exists>y. f x = Some y"
  shows "\<exists>ys. those (map f xs) = Some ys"
  using assms by (induction xs) (auto split: option.splits)

lemma those_map_total: "those (map (\<lambda>x. Some (f x)) xs) = Some (map f xs)"
  by (induction xs) simp_all

lemma init_world_eq:
  assumes "\<forall>N r. setup_domain N r p = Some (config_for N r p g)"
  shows "init_world N p img = Some (map (\<lambda>r. init_proc N img (config_for N r p g)) [0..<p])"
  unfolding init_world_def using assms by (simp add: those_map_total)

lemma init_world_ok:
  assumes gr: "is_grid p g gc" and len: "length img = N * N"
  shows "world_ok N p g (map (\<lambda>r. init_proc N img (config_for N r p g)) [0..<p])"
  unfolding world_ok_def
  by (auto simp: init_proc_def Let_def config_for_fields[OF gr] len)

lemma scatter_block_own:
  assumes gr: "is_grid p g gc"
  shows "scatter_block (config_for N r0 p g) N r
     = (start_row_of (config_for N r p g), start_col_of (config_for N r p g),
        local_rows (config_for N r p g), local_cols (config_for N r p g))"
    and "gather_block (config_for N r0 p g) N r
     = (start_row_of (config_for N r p g), start_col_of (config_for N r p g),
        local_rows (config_for N r p g), local_cols (config_for N r p g))"
  by (simp_all add: blocks_of_config_for own_block_def)

lemma scatter_world_unfold:
  assumes "w \<noteq> []"
  shows "scatter_world N w =
     those (map (\<lambda>q.
         if rank (config q) = 0
         then Some (q\<lparr>local_img := fst (scatter_image_root (global_img (w ! 0)) (local_img (w ! 0)) (config (w ! 0)) N)\<rparr>)
         else if length (inbox (snd (scatter_image_root (global_img (w ! 0)) (local_img (w ! 0)) (config (w ! 0)) N))
                          (rank (config q)) 0) \<noteq> local_rows (config q) then None
         else map_option (\<lambda>l. q\<lparr>local_img := l\<rparr>)
                (scatter_image_recv (local_img q) (config q)
                   (inbox (snd (scatter_image_root (global_img (w ! 0)) (local_img (w ! 0)) (config (w ! 0)) N))
                      (rank (config q)) 0))) w)"
proof -
  from assms obtain q0 qs where w: "w = q0 # qs" by (cases w) auto
  show ?thesis unfolding w scatter_world_def list.case nth_Cons_0
    by (simp only: case_prod_beta)
qed

lemma scatter_world_ok:
  assumes gr: "is_grid p g gc" and ok: "world_ok N p g w"
  shows "\<exists>w'. scatter_world N w = Some w' \<and> world_ok N p g w' \<and>
     (\<forall>r < p. output_img (w' ! r) = output_img (w ! r) \<and> global_img (w' ! r) = global_img (w ! r) \<and>
        tile_holds (config (w ! r)) N (local_img (w' ! r)) (global_img (w ! 0)) \<and>
        (\<forall>a b. outside_interior (config (w ! r)) a b \<longrightarrow>
           local_img (w' ! r) ! (a * (local_cols (config (w ! r)) + 2) + b)
             = local_img (w ! r) ! (a * (local_cols (config (w ! r)) + 2) + b)))"
proof -
  note d = is_gridD[OF gr]
  let ?cfg = "\<lambda>r. config_for N r p g"
  note cf = config_for_fields[OF gr]
  from ok have lw: "length w = p" and
    okr: "\<And>r. r < p \<Longrightarrow> config (w ! r) = ?cfg r"
         "\<And>r. r < p \<Longrightarrow> length (local_img (w ! r)) = (local_rows (?cfg r) + 2) * (local_cols (?cfg r) + 2)"
         "\<And>r. r < p \<Longrightarrow> length (output_img (w ! r)) = local_rows (?cfg r) * local_cols (?cfg r)"
         "\<And>r. r < p \<Longrightarrow> length (global_img (w ! r)) = N * N"
    unfolding world_ok_def by auto
  have p0: "0 < p" using d(5) by simp
  then obtain q0 qs where w: "w = q0 # qs" using lw by (cases w) auto
  then have q0: "q0 = w ! 0" by simp
  let ?glob = "global_img (w ! 0)"
  let ?l0 = "scatter_copy ?glob (local_img (w ! 0)) (?cfg 0) N 0"
  let ?out = "snd (scatter_image_root ?glob (local_img (w ! 0)) (?cfg 0) N)"
  have ws: "1 \<le> world_size (?cfg 0)" using d(5) by (simp add: cf)
  have root: "fst (scatter_image_root ?glob (local_img (w ! 0)) (?cfg 0) N) = ?l0"
    by (simp add: scatter_image_root_eq[OF ws])
  let ?F = "\<lambda>q. if rank (config q) = 0 then Some (q\<lparr>local_img := ?l0\<rparr>)
                 else if length (inbox ?out (rank (config q)) 0) \<noteq> local_rows (config q) then None
                 else map_option (\<lambda>l. q\<lparr>local_img := l\<rparr>)
                        (scatter_image_recv (local_img q) (config q) (inbox ?out (rank (config q)) 0))"
  have "w \<noteq> []" using w by simp
  from scatter_world_unfold[OF this, of N]
  have sw: "scatter_world N w = those (map ?F w)"
    unfolding okr(1)[OF p0] root .
  have glen: "length ?glob = N * N" by (rule okr(4)[OF p0])
  text \<open>the messages for a rank other than 0\<close>
  have msgs: "inbox ?out r 0 = map (\<lambda>i. payload ?glob ((start_row_of (?cfg r) + i) * N + start_col_of (?cfg r))
                   (local_cols (?cfg r))) [0..<local_rows (?cfg r)]"
    if r: "0 < r" "r < p" for r
    using inbox_scatter_root[OF ws r(1), of ?glob "local_img (w ! 0)" N] r(2)
    by (simp add: cf scatter_block_own[OF gr])
  have pay: "length (inbox ?out r 0 ! i) = local_cols (?cfg r)"
       "\<And>j. j < local_cols (?cfg r) \<Longrightarrow> inbox ?out r 0 ! i ! j
              = ?glob ! ((start_row_of (?cfg r) + i) * N + start_col_of (?cfg r) + j)"
    if r: "0 < r" "r < p" and i: "i < local_rows (?cfg r)" for r i
  proof -
    have bnd: "(start_row_of (?cfg r) + i) * N + start_col_of (?cfg r) + local_cols (?cfg r) \<le> length ?glob"
      unfolding glen by (rule block_index_bound[OF block_bounds[OF gr r(2)] i]) simp
    have e: "inbox ?out r 0 ! i = payload ?glob ((start_row_of (?cfg r) + i) * N + start_col_of (?cfg r))
                   (local_cols (?cfg r))"
      using i by (simp add: msgs[OF r])
    show "length (inbox ?out r 0 ! i) = local_cols (?cfg r)"
      unfolding e using bnd by (rule payload_length)
    show "inbox ?out r 0 ! i ! j = ?glob ! ((start_row_of (?cfg r) + i) * N + start_col_of (?cfg r) + j)"
      if "j < local_cols (?cfg r)" for j
      unfolding e using bnd that by (rule payload_nth)
  qed
  text \<open>every process gets a tile\<close>
  have each: "\<exists>l. ?F (w ! r) = Some ((w ! r)\<lparr>local_img := l\<rparr>) \<and>
        length l = length (local_img (w ! r)) \<and>
        tile_holds (?cfg r) N l ?glob \<and>
        (\<forall>a b. outside_interior (?cfg r) a b \<longrightarrow>
           l ! (a * (local_cols (?cfg r) + 2) + b) = local_img (w ! r) ! (a * (local_cols (?cfg r) + 2) + b))"
    if r: "r < p" for r
  proof (cases "r = 0")
    case True
    note blk = scatter_block_own(1)[OF gr, of N 0 0]
    note sc = scatter_copy_cells[OF blk cf(4), where glob = ?glob and loc = "local_img (w ! 0)"]
    have "?F (w ! r) = Some ((w ! r)\<lparr>local_img := ?l0\<rparr>)"
      using True okr(1)[OF p0] by (simp add: cf)
    moreover have "length ?l0 = length (local_img (w ! r))" using sc(1) True by simp
    moreover have "tile_holds (?cfg r) N ?l0 ?glob"
      unfolding tile_holds_def True using sc(2) okr(2)[OF p0] by simp
    moreover have "\<forall>a b. outside_interior (?cfg r) a b \<longrightarrow>
           ?l0 ! (a * (local_cols (?cfg r) + 2) + b) = local_img (w ! r) ! (a * (local_cols (?cfg r) + 2) + b)"
      unfolding outside_interior_def True using sc(3) by blast
    ultimately show ?thesis by blast
  next
    case False
    then have r0: "0 < r" by simp
    have cr: "config (w ! r) = ?cfg r" by (rule okr(1)[OF r])
    have ln: "length (inbox ?out r 0) = local_rows (?cfg r)" by (simp add: msgs[OF r0 r])
    obtain l where l: "scatter_image_recv (local_img (w ! r)) (?cfg r) (inbox ?out r 0) = Some l"
      using scatter_image_recv_Some[of "?cfg r" "local_img (w ! r)" "inbox ?out r 0"]
        okr(2)[OF r] ln pay(1)[OF r0 r] by (auto simp: cf)
    note fr = scatter_image_recv_frame[OF l cf(4)]
    have "?F (w ! r) = Some ((w ! r)\<lparr>local_img := l\<rparr>)"
      using False l ln by (simp add: cr cf)
    moreover have "tile_holds (?cfg r) N l ?glob"
      unfolding tile_holds_def
    proof (intro allI impI)
      fix i j assume ij: "i < local_rows (?cfg r)" "j < local_cols (?cfg r)"
      have "l ! ((i + 1) * (local_cols (?cfg r) + 2) + (j + 1)) = inbox ?out r 0 ! i ! j"
        by (rule scatter_image_recv_cells[OF l cf(4) ij(1)]) (simp_all add: pay(1)[OF r0 r ij(1)] ij(2))
      then show "l ! ((i + 1) * (local_cols (?cfg r) + 2) + (j + 1))
          = ?glob ! ((start_row_of (?cfg r) + i) * N + start_col_of (?cfg r) + j)"
        using pay(2)[OF r0 r ij] by simp
    qed
    moreover have "\<forall>a b. outside_interior (?cfg r) a b \<longrightarrow>
           l ! (a * (local_cols (?cfg r) + 2) + b) = local_img (w ! r) ! (a * (local_cols (?cfg r) + 2) + b)"
      unfolding outside_interior_def using fr(2) by blast
    ultimately show ?thesis using fr(1) by blast
  qed
  have "\<exists>w'. those (map ?F w) = Some w'"
  proof (rule those_map_SomeI)
    fix q assume "q \<in> set w"
    then obtain r where r: "r < p" "q = w ! r" using lw by (auto simp: in_set_conv_nth)
    from each[OF r(1)] obtain l where "?F (w ! r) = Some ((w ! r)\<lparr>local_img := l\<rparr>)" by blast
    then show "\<exists>y. ?F q = Some y" unfolding r(2) by (rule exI)
  qed
  then obtain w' where w': "those (map ?F w) = Some w'" by blast
  then have lw': "length w' = p" and fw: "\<And>r. r < p \<Longrightarrow> ?F (w ! r) = Some (w' ! r)"
    using lw by (auto simp: those_map_Some)
  have props: "config (w' ! r) = ?cfg r \<and> output_img (w' ! r) = output_img (w ! r) \<and>
      global_img (w' ! r) = global_img (w ! r) \<and>
      length (local_img (w' ! r)) = length (local_img (w ! r)) \<and>
      tile_holds (?cfg r) N (local_img (w' ! r)) ?glob \<and>
      (\<forall>a b. outside_interior (?cfg r) a b \<longrightarrow>
           local_img (w' ! r) ! (a * (local_cols (?cfg r) + 2) + b)
             = local_img (w ! r) ! (a * (local_cols (?cfg r) + 2) + b))" if r: "r < p" for r
  proof -
    from each[OF r] obtain l where l: "?F (w ! r) = Some ((w ! r)\<lparr>local_img := l\<rparr>)"
        "length l = length (local_img (w ! r))" "tile_holds (?cfg r) N l ?glob"
        "\<forall>a b. outside_interior (?cfg r) a b \<longrightarrow>
           l ! (a * (local_cols (?cfg r) + 2) + b) = local_img (w ! r) ! (a * (local_cols (?cfg r) + 2) + b)"
      by blast
    from l(1) fw[OF r] have "w' ! r = (w ! r)\<lparr>local_img := l\<rparr>" by simp
    with l(2,3,4) okr(1)[OF r] show ?thesis by simp
  qed
  have "world_ok N p g w'"
    unfolding world_ok_def using lw' props okr by simp
  with w' props okr(1) show ?thesis unfolding sw by auto
qed


section \<open>The Collector on the process group\<close>

lemma blocks_cover_agree:
  assumes gr: "is_grid p g gc"
    and ag: "\<And>r. r < p \<Longrightarrow> block_agrees (own_block (config_for N r p g)) N t ref"
    and k: "k < N * N"
  shows "t ! k = ref ! k"
proof -
  note d = is_gridD[OF gr]
  have Npos: "0 < N" using k by (cases N) auto
  let ?i = "k div N" and ?j = "k mod N"
  have i: "?i < N" using k by (simp add: less_mult_imp_div_less)
  have j: "?j < N" using Npos by simp
  from block_ex1[OF d(1,2,3) i j] obtain r where r: "r < p"
    and inb: "in_block (own_block (config_for N r p g)) ?i ?j" by blast
  obtain sr sc rows cols where blk: "own_block (config_for N r p g) = (sr, sc, rows, cols)"
    by (cases "own_block (config_for N r p g)") auto
  from inb have b: "sr \<le> ?i" "?i < sr + rows" "sc \<le> ?j" "?j < sc + cols"
    unfolding blk in_block_def by simp_all
  have a: "\<forall>i < rows. \<forall>j < cols. t ! ((sr + i) * N + sc + j) = ref ! ((sr + i) * N + sc + j)"
    using ag[OF r] unfolding blk block_agrees_def by simp
  have i': "?i - sr < rows" and j': "?j - sc < cols" using b by simp_all
  have e: "(sr + (?i - sr)) * N + sc + (?j - sc) = k"
  proof -
    have "sr + (?i - sr) = ?i" "sc + (?j - sc) = ?j" using b by simp_all
    then have "(sr + (?i - sr)) * N + sc + (?j - sc) = ?i * N + ?j" by (simp add: add.assoc)
    then show ?thesis by simp
  qed
  from a[rule_format, OF i' j'] show ?thesis unfolding e .
qed

lemma gather_world_unfold:
  assumes "w \<noteq> []"
  shows "gather_world N w =
     map_option (\<lambda>g. w[0 := (w ! 0)\<lparr>global_img := g\<rparr>])
       (gather_image_root (output_img (w ! 0)) (global_img (w ! 0)) (config (w ! 0)) N
          (\<lambda>r. if r < length w
                then inbox (gather_image_send (output_img (w ! r)) (config (w ! r))) 0 0
                else []))"
proof -
  from assms obtain q0 qs where w: "w = q0 # qs" by (cases w) auto
  show ?thesis unfolding gather_world_def w list.case nth_Cons_0 ..
qed

lemma gather_world_agree:
  assumes gr: "is_grid p g gc" and ok: "world_ok N p g w" and len: "length ref = N * N"
    and outs: "\<And>r i j. r < p \<Longrightarrow> i < local_rows (config_for N r p g) \<Longrightarrow>
                 j < local_cols (config_for N r p g) \<Longrightarrow>
                 output_img (w ! r) ! (i * local_cols (config_for N r p g) + j)
                   = ref ! ((start_row_of (config_for N r p g) + i) * N + start_col_of (config_for N r p g) + j)"
  shows "gather_world N w = Some (w[0 := (w ! 0)\<lparr>global_img := ref\<rparr>])"
proof -
  note d = is_gridD[OF gr]
  let ?cfg = "\<lambda>r. config_for N r p g"
  note cf = config_for_fields[OF gr]
  from ok have lw: "length w = p" and
    okr: "\<And>r. r < p \<Longrightarrow> config (w ! r) = ?cfg r"
         "\<And>r. r < p \<Longrightarrow> length (output_img (w ! r)) = local_rows (?cfg r) * local_cols (?cfg r)"
         "\<And>r. r < p \<Longrightarrow> length (global_img (w ! r)) = N * N"
    unfolding world_ok_def by auto
  have p0: "0 < p" using d(5) by simp
  then have wne: "w \<noteq> []" using lw by auto
  let ?from = "\<lambda>r. if r < length w
                then inbox (gather_image_send (output_img (w ! r)) (config (w ! r))) 0 0
                else []"
  have blocks: "(case gather_block (?cfg 0) N r of (sr, sc, rows, cols) \<Rightarrow>
         sr + rows \<le> N \<and> sc + cols \<le> N \<and>
         (if r = 0 then \<forall>i < rows. \<forall>j < cols. output_img (w ! 0) ! (i * cols + j) = ref ! ((sr + i) * N + sc + j)
          else length (?from r) = rows \<and>
               (\<forall>i < rows. length (?from r ! i) = cols \<and>
                  (\<forall>j < cols. ?from r ! i ! j = ref ! ((sr + i) * N + sc + j)))))"
    if r: "r < world_size (?cfg 0)" for r
  proof -
    from r have rp: "r < p" by (simp add: cf)
    let ?lr = "local_rows (?cfg r)" and ?lc = "local_cols (?cfg r)"
    have fr: "?from r = map (\<lambda>i. payload (output_img (w ! r)) (i * ?lc) ?lc) [0..<?lr]"
      using rp lw by (simp add: inbox_gather_image_send okr(1)[OF rp])
    have pl: "i * ?lc + ?lc \<le> length (output_img (w ! r))" if "i < ?lr" for i
    proof -
      from that have "i + 1 \<le> ?lr" by simp
      then have "(i + 1) * ?lc \<le> ?lr * ?lc" by (rule mult_le_mono1)
      then show ?thesis by (simp add: okr(2)[OF rp])
    qed
    have m: "length (?from r ! i) = ?lc \<and>
       (\<forall>j < ?lc. ?from r ! i ! j = ref ! ((start_row_of (?cfg r) + i) * N + start_col_of (?cfg r) + j))"
      if i: "i < ?lr" for i
    proof -
      have e: "?from r ! i = payload (output_img (w ! r)) (i * ?lc) ?lc"
        unfolding fr using i by simp
      have "length (?from r ! i) = ?lc" unfolding e using pl[OF i] by (rule payload_length)
      moreover have "?from r ! i ! j = ref ! ((start_row_of (?cfg r) + i) * N + start_col_of (?cfg r) + j)"
        if j: "j < ?lc" for j
      proof -
        have "?from r ! i ! j = output_img (w ! r) ! (i * ?lc + j)"
          unfolding e using pl[OF i] j by (rule payload_nth)
        with outs[OF rp i j] show ?thesis by simp
      qed
      ultimately show ?thesis by blast
    qed
    have n: "length (?from r) = ?lr" unfolding fr by simp
    show ?thesis
      unfolding scatter_block_own(2)[OF gr] prod.case
    proof (intro conjI)
      show "start_row_of (?cfg r) + ?lr \<le> N" "start_col_of (?cfg r) + ?lc \<le> N"
        by (rule block_bounds[OF gr rp])+
      show "if r = 0
         then \<forall>i < ?lr. \<forall>j < ?lc. output_img (w ! 0) ! (i * ?lc + j)
                = ref ! ((start_row_of (?cfg r) + i) * N + start_col_of (?cfg r) + j)
         else length (?from r) = ?lr \<and>
              (\<forall>i < ?lr. length (?from r ! i) = ?lc \<and>
                 (\<forall>j < ?lc. ?from r ! i ! j
                    = ref ! ((start_row_of (?cfg r) + i) * N + start_col_of (?cfg r) + j)))"
      proof (cases "r = 0")
        case True
        have h: "\<forall>i < ?lr. \<forall>j < ?lc. output_img (w ! 0) ! (i * ?lc + j)
                = ref ! ((start_row_of (?cfg r) + i) * N + start_col_of (?cfg r) + j)"
          using outs[OF rp] unfolding True by blast
        show ?thesis by (subst if_P[OF True]) (rule h)
      next
        case False
        have h: "length (?from r) = ?lr \<and>
              (\<forall>i < ?lr. length (?from r ! i) = ?lc \<and>
                 (\<forall>j < ?lc. ?from r ! i ! j
                    = ref ! ((start_row_of (?cfg r) + i) * N + start_col_of (?cfg r) + j)))"
          using n m by blast
        show ?thesis by (subst if_not_P[OF False]) (rule h)
      qed
    qed
  qed
  from gather_image_root_agree[of "?cfg 0" N "output_img (w ! 0)" ref ?from "global_img (w ! 0)",
      OF blocks okr(3)[OF p0]]
  obtain g' where g': "gather_image_root (output_img (w ! 0)) (global_img (w ! 0)) (?cfg 0) N ?from = Some g'"
      "length g' = N * N"
      "\<forall>r < world_size (?cfg 0). block_agrees (gather_block (?cfg 0) N r) N g' ref"
    by blast
  have "g' = ref"
  proof (rule nth_equalityI)
    show "length g' = length ref" by (simp add: g'(2) len)
  next
    fix k assume "k < length g'"
    then have k: "k < N * N" by (simp add: g'(2))
    show "g' ! k = ref ! k"
    proof (rule blocks_cover_agree[OF gr _ k])
      fix r assume "r < p"
      with g'(3) show "block_agrees (own_block (?cfg r)) N g' ref"
        by (simp add: cf blocks_of_config_for)
    qed
  qed
  with g'(1) show ?thesis
    unfolding gather_world_unfold[OF wne] okr(1)[OF p0] by simp
qed


section \<open>What the Boundary Exchanger can write\<close>

lemma sendrecv_recv_SomeD:
  assumes "sendrecv_recv env buf off count src tag = Some buf'"
  obtains m where "env src tag = Some m" "recv_into buf off count m = Some buf'"
  using assms by (auto simp: sendrecv_recv_def split: option.splits)

lemma null_neighbor_noop:
  assumes "neighbor d cfg = None"
  shows "exchange_dir d loc cfg env = Some loc" "sends_dir d loc cfg = []"
  using assms
  by (cases d; simp add: exchange_north_def exchange_south_def exchange_west_def exchange_east_def
        sends_north_def sends_south_def sends_west_def sends_east_def Let_def)+

lemma recv_row_frame:
  assumes r: "recv_into buf (a * W + c0) count msg = Some buf'"
    and cnt: "c0 + count \<le> W" and b: "b < W"
    and nw: "\<not> (a' = a \<and> c0 \<le> b \<and> b < c0 + count)"
  shows "buf' ! (a' * W + b) = buf ! (a' * W + b)"
proof -
  have len: "length msg \<le> count" by (rule recv_into_SomeD(1)[OF r])
  then have fit: "c0 + length msg \<le> W" using cnt by simp
  have "\<not> (a' = a \<and> c0 \<le> b \<and> b < c0 + length msg)" using nw len by auto
  with recv_row_nth[OF r fit b, of a'] show ?thesis by (simp only: if_False)
qed

lemma exchange_dir_frame:
  assumes res: "exchange_dir d loc cfg env = Some l'" and h: "halo_size cfg = 1"
  shows "length l' = length loc"
    and "\<And>a b. b < local_cols cfg + 2 \<Longrightarrow> \<not> written_by d cfg a b \<Longrightarrow>
           l' ! (a * (local_cols cfg + 2) + b) = loc ! (a * (local_cols cfg + 2) + b)"
proof -
  let ?W = "local_cols cfg + 2"
  let ?rows = "local_rows cfg" and ?cols = "local_cols cfg"
  have "length l' = length loc \<and>
     (\<forall>a b. b < ?W \<longrightarrow> \<not> written_by d cfg a b \<longrightarrow> l' ! (a * ?W + b) = loc ! (a * ?W + b))"
  proof (cases d)
    case North
    show ?thesis
    proof (cases "north cfg")
      case None
      with res North show ?thesis by (simp add: exchange_north_def Let_def)
    next
      case (Some nb)
      with res North have "sendrecv_recv env loc (0 * ?W + 1) ?cols nb 1 = Some l'"
        by (simp add: exchange_north_def Let_def h)
      then obtain m where r: "recv_into loc (0 * ?W + 1) ?cols m = Some l'"
        by (rule sendrecv_recv_SomeD)
      have "l' ! (a * ?W + b) = loc ! (a * ?W + b)" if "b < ?W" "\<not> written_by d cfg a b" for a b
        by (rule recv_row_frame[OF r _ that(1)]) (use that(2) North in auto)
      with recv_into_length[OF r] show ?thesis by blast
    qed
  next
    case South
    show ?thesis
    proof (cases "south cfg")
      case None
      with res South show ?thesis by (simp add: exchange_south_def Let_def)
    next
      case (Some nb)
      with res South have "sendrecv_recv env loc ((?rows + 1) * ?W + 1) ?cols nb 0 = Some l'"
        by (simp add: exchange_south_def Let_def h)
      then obtain m where r: "recv_into loc ((?rows + 1) * ?W + 1) ?cols m = Some l'"
        by (rule sendrecv_recv_SomeD)
      have "l' ! (a * ?W + b) = loc ! (a * ?W + b)" if "b < ?W" "\<not> written_by d cfg a b" for a b
        by (rule recv_row_frame[OF r _ that(1)]) (use that(2) South in auto)
      with recv_into_length[OF r] show ?thesis by blast
    qed
  next
    case West
    show ?thesis
    proof (cases "west cfg")
      case None
      with res West show ?thesis by (simp add: exchange_west_def Let_def)
    next
      case (Some nb)
      let ?f = "\<lambda>i l. sendrecv_recv env l ((i + 1) * ?W + 0) 1 nb (2 + ?rows + i)"
      from Some res West have fo: "fold_option ?f [0..<?rows] loc = Some l'"
        by (simp add: exchange_west_def Let_def h)
      have "length l' = length loc \<and>
         (\<forall>a b. b < ?W \<longrightarrow> \<not> written_by d cfg a b \<longrightarrow> l' ! (a * ?W + b) = loc ! (a * ?W + b))"
      proof (rule fold_option_invariant[OF fo, where P = "\<lambda>t. length t = length loc \<and>
         (\<forall>a b. b < ?W \<longrightarrow> \<not> written_by d cfg a b \<longrightarrow> t ! (a * ?W + b) = loc ! (a * ?W + b))"])
        show "length loc = length loc \<and>
         (\<forall>a b. b < ?W \<longrightarrow> \<not> written_by d cfg a b \<longrightarrow> loc ! (a * ?W + b) = loc ! (a * ?W + b))" by simp
      next
        fix i t t'
        assume i: "i \<in> set [0..<?rows]"
          and t: "length t = length loc \<and>
         (\<forall>a b. b < ?W \<longrightarrow> \<not> written_by d cfg a b \<longrightarrow> t ! (a * ?W + b) = loc ! (a * ?W + b))"
          and st: "?f i t = Some t'"
        from st obtain m where r: "recv_into t ((i + 1) * ?W + 0) 1 m = Some t'"
          by (rule sendrecv_recv_SomeD)
        have "t' ! (a * ?W + b) = t ! (a * ?W + b)" if "b < ?W" "\<not> written_by d cfg a b" for a b
          by (rule recv_row_frame[OF r _ that(1)]) (use that(2) West i in auto)
        with recv_into_length[OF r] t show "length t' = length loc \<and>
         (\<forall>a b. b < ?W \<longrightarrow> \<not> written_by d cfg a b \<longrightarrow> t' ! (a * ?W + b) = loc ! (a * ?W + b))"
          by simp
      qed
      then show ?thesis .
    qed
  next
    case East
    show ?thesis
    proof (cases "east cfg")
      case None
      with res East show ?thesis by (simp add: exchange_east_def Let_def)
    next
      case (Some nb)
      let ?f = "\<lambda>i l. sendrecv_recv env l ((i + 1) * ?W + (?cols + 1)) 1 nb (2 + i)"
      from Some res East have fo: "fold_option ?f [0..<?rows] loc = Some l'"
        by (simp add: exchange_east_def Let_def h add.assoc)
      have "length l' = length loc \<and>
         (\<forall>a b. b < ?W \<longrightarrow> \<not> written_by d cfg a b \<longrightarrow> l' ! (a * ?W + b) = loc ! (a * ?W + b))"
      proof (rule fold_option_invariant[OF fo, where P = "\<lambda>t. length t = length loc \<and>
         (\<forall>a b. b < ?W \<longrightarrow> \<not> written_by d cfg a b \<longrightarrow> t ! (a * ?W + b) = loc ! (a * ?W + b))"])
        show "length loc = length loc \<and>
         (\<forall>a b. b < ?W \<longrightarrow> \<not> written_by d cfg a b \<longrightarrow> loc ! (a * ?W + b) = loc ! (a * ?W + b))" by simp
      next
        fix i t t'
        assume i: "i \<in> set [0..<?rows]"
          and t: "length t = length loc \<and>
         (\<forall>a b. b < ?W \<longrightarrow> \<not> written_by d cfg a b \<longrightarrow> t ! (a * ?W + b) = loc ! (a * ?W + b))"
          and st: "?f i t = Some t'"
        from st obtain m where r: "recv_into t ((i + 1) * ?W + (?cols + 1)) 1 m = Some t'"
          by (rule sendrecv_recv_SomeD)
        have "t' ! (a * ?W + b) = t ! (a * ?W + b)" if "b < ?W" "\<not> written_by d cfg a b" for a b
          by (rule recv_row_frame[OF r _ that(1)]) (use that(2) East i in auto)
        with recv_into_length[OF r] t show "length t' = length loc \<and>
         (\<forall>a b. b < ?W \<longrightarrow> \<not> written_by d cfg a b \<longrightarrow> t' ! (a * ?W + b) = loc ! (a * ?W + b))"
          by simp
      qed
      then show ?thesis .
    qed
  qed
  then show "length l' = length loc"
    and "\<And>a b. b < ?W \<Longrightarrow> \<not> written_by d cfg a b \<Longrightarrow> l' ! (a * ?W + b) = loc ! (a * ?W + b)"
    by blast+
qed

lemma border_not_written:
  assumes "(a, b) \<in> set (border_cells d' cfg)" and "halo_size cfg = 1" and "d \<noteq> d'"
  shows "\<not> written_by d cfg a b" and "b < local_cols cfg + 2" and "outside_interior cfg a b"
  using assms by (cases d; cases d'; auto simp: outside_interior_def)+

lemma exchange_halo_blocking_steps:
  assumes "exchange_halo_blocking loc cfg env = Some l'"
  obtains l1 l2 l3 where "exchange_dir North loc cfg env = Some l1"
    "exchange_dir South l1 cfg env = Some l2" "exchange_dir West l2 cfg env = Some l3"
    "exchange_dir East l3 cfg env = Some l'"
  using assms by (auto simp: exchange_halo_blocking_def split: option.splits)

lemma exchange_dir_border:
  assumes res: "exchange_dir s l cfg env = Some l'" and h: "halo_size cfg = 1"
    and nul: "neighbor d cfg = None" and cell: "(a, b) \<in> set (border_cells d cfg)"
  shows "l' ! (a * (local_cols cfg + 2) + b) = l ! (a * (local_cols cfg + 2) + b)"
proof (cases "s = d")
  case True
  with null_neighbor_noop(1)[OF nul, of l env] res show ?thesis by simp
next
  case False
  from border_not_written[OF cell h False]
  show ?thesis by (intro exchange_dir_frame(2)[OF res h])
qed

lemma exchange_halo_blocking_border:
  assumes res: "exchange_halo_blocking loc cfg env = Some l'" and h: "halo_size cfg = 1"
  shows "length l' = length loc"
    and "\<And>d a b. neighbor d cfg = None \<Longrightarrow> (a, b) \<in> set (border_cells d cfg) \<Longrightarrow>
           l' ! (a * (local_cols cfg + 2) + b) = loc ! (a * (local_cols cfg + 2) + b)"
proof -
  from res obtain l1 l2 l3 where s: "exchange_dir North loc cfg env = Some l1"
    "exchange_dir South l1 cfg env = Some l2" "exchange_dir West l2 cfg env = Some l3"
    "exchange_dir East l3 cfg env = Some l'"
    by (rule exchange_halo_blocking_steps)
  show "length l' = length loc"
    using exchange_dir_frame(1)[OF s(1) h] exchange_dir_frame(1)[OF s(2) h]
      exchange_dir_frame(1)[OF s(3) h] exchange_dir_frame(1)[OF s(4) h] by simp
  show "l' ! (a * (local_cols cfg + 2) + b) = loc ! (a * (local_cols cfg + 2) + b)"
    if "neighbor d cfg = None" "(a, b) \<in> set (border_cells d cfg)" for d a b
    using exchange_dir_border[OF s(1) h that] exchange_dir_border[OF s(2) h that]
      exchange_dir_border[OF s(3) h that] exchange_dir_border[OF s(4) h that] by simp
qed


section \<open>The invariant of the run\<close>

lemma zero_border_iff:
  assumes "halo_size cfg = 1"
  shows "zero_border d cfg loc \<longleftrightarrow>
     (\<forall>a b. (a, b) \<in> set (border_cells d cfg) \<longrightarrow> loc ! (a * (local_cols cfg + 2) + b) = 0)"
  unfolding zero_border_def list_all_iff tile_cell_def using assms by auto

lemma zero_border_frame:
  assumes "zero_border d cfg loc" and "halo_size cfg = 1"
    and "\<And>a b. (a, b) \<in> set (border_cells d cfg) \<Longrightarrow>
           l' ! (a * (local_cols cfg + 2) + b) = loc ! (a * (local_cols cfg + 2) + b)"
  shows "zero_border d cfg l'"
  using assms unfolding zero_border_iff[OF assms(2)] by simp

lemma border_cell_index:
  assumes "(a, b) \<in> set (border_cells d cfg)" and "halo_size cfg = 1"
  shows "a * (local_cols cfg + 2) + b < (local_rows cfg + 2) * (local_cols cfg + 2)"
proof -
  from assms have "a < local_rows cfg + 2" "b < local_cols cfg + 2" by (cases d; auto)+
  then show ?thesis by (rule cell_index_bound)
qed

lemma zero_border_replicate:
  assumes "halo_size cfg = 1"
  shows "zero_border d cfg (replicate ((local_rows cfg + 2) * (local_cols cfg + 2)) 0)"
  unfolding zero_border_iff[OF assms]
proof (intro allI impI)
  fix a b assume "(a, b) \<in> set (border_cells d cfg)"
  then have "a * (local_cols cfg + 2) + b < (local_rows cfg + 2) * (local_cols cfg + 2)"
    using assms by (rule border_cell_index)
  then show "replicate ((local_rows cfg + 2) * (local_cols cfg + 2)) (0::int) ! (a * (local_cols cfg + 2) + b) = 0"
    by (rule nth_replicate)
qed

lemma init_world_inv:
  assumes gr: "is_grid p g gc" and len: "length img = N * N"
  shows "run_inv N p g (map (\<lambda>r. init_proc N img (config_for N r p g)) [0..<p])"
  unfolding run_inv_def
proof (intro conjI allI impI)
  show "world_ok N p g (map (\<lambda>r. init_proc N img (config_for N r p g)) [0..<p])"
    by (rule init_world_ok[OF gr len])
next
  fix r d assume r: "r < p"
  have h: "halo_size (config_for N r p g) = 1" by (rule config_for_fields(4)[OF gr])
  from zero_border_replicate[OF h, of d] r
  show "zero_border d (config (map (\<lambda>r. init_proc N img (config_for N r p g)) [0..<p] ! r))
          (local_img (map (\<lambda>r. init_proc N img (config_for N r p g)) [0..<p] ! r))"
    by (simp add: init_proc_def Let_def h)
qed

lemma scatter_world_inv:
  assumes gr: "is_grid p g gc" and inv: "run_inv N p g w" and sw: "scatter_world N w = Some w'"
  shows "run_inv N p g w'"
proof -
  from inv have ok: "world_ok N p g w"
    and zb: "\<And>r d. r < p \<Longrightarrow> neighbor d (config (w ! r)) = None \<Longrightarrow>
                zero_border d (config (w ! r)) (local_img (w ! r))"
    unfolding run_inv_def by auto
  from ok have cfg: "\<And>r. r < p \<Longrightarrow> config (w ! r) = config_for N r p g"
    unfolding world_ok_def by auto
  from scatter_world_ok[OF gr ok] sw have ok': "world_ok N p g w'"
    and fr: "\<And>r a b. r < p \<Longrightarrow> outside_interior (config (w ! r)) a b \<Longrightarrow>
           local_img (w' ! r) ! (a * (local_cols (config (w ! r)) + 2) + b)
             = local_img (w ! r) ! (a * (local_cols (config (w ! r)) + 2) + b)"
    by auto
  from ok' have cfg': "\<And>r. r < p \<Longrightarrow> config (w' ! r) = config_for N r p g"
    unfolding world_ok_def by auto
  show ?thesis unfolding run_inv_def
  proof (intro conjI allI impI)
    show "world_ok N p g w'" by (rule ok')
  next
    fix r d assume r: "r < p" and nul: "neighbor d (config (w' ! r)) = None"
    have e: "config (w' ! r) = config (w ! r)" using cfg[OF r] cfg'[OF r] by simp
    have h: "halo_size (config (w ! r)) = 1" unfolding cfg[OF r] by (rule config_for_fields(4)[OF gr])
    have "zero_border d (config (w ! r)) (local_img (w' ! r))"
    proof (rule zero_border_frame[OF zb[OF r] h])
      show "neighbor d (config (w ! r)) = None" using nul e by simp
    next
      fix a b assume cell: "(a, b) \<in> set (border_cells d (config (w ! r)))"
      have "\<exists>d'. d' \<noteq> d" by (cases d) auto
      then obtain d' where "d' \<noteq> d" ..
      from border_not_written(3)[OF cell h this]
      show "local_img (w' ! r) ! (a * (local_cols (config (w ! r)) + 2) + b)
             = local_img (w ! r) ! (a * (local_cols (config (w ! r)) + 2) + b)"
        by (rule fr[OF r])
    qed
    then show "zero_border d (config (w' ! r)) (local_img (w' ! r))" unfolding e .
  qed
qed



section \<open>The exchange keeps the invariant\<close>

lemma run_inv_exchanged:
  assumes gr: "is_grid p g gc" and inv: "run_inv N p g w" and len: "length w' = p"
    and each: "\<And>r. r < p \<Longrightarrow> \<exists>l. w' ! r = (w ! r)\<lparr>local_img := l\<rparr> \<and>
                 (l = local_img (w ! r) \<or>
                  (\<exists>d env. exchange_dir d (local_img (w ! r)) (config (w ! r)) env = Some l))"
  shows "run_inv N p g w'"
proof -
  from inv have ok: "world_ok N p g w"
    and zb: "\<And>r d. r < p \<Longrightarrow> neighbor d (config (w ! r)) = None \<Longrightarrow>
                zero_border d (config (w ! r)) (local_img (w ! r))"
    unfolding run_inv_def by auto
  from ok have okr: "\<And>r. r < p \<Longrightarrow> config (w ! r) = config_for N r p g"
         "\<And>r. r < p \<Longrightarrow> length (local_img (w ! r)) = (local_rows (config (w ! r)) + 2) * (local_cols (config (w ! r)) + 2)"
         "\<And>r. r < p \<Longrightarrow> length (output_img (w ! r)) = local_rows (config (w ! r)) * local_cols (config (w ! r))"
         "\<And>r. r < p \<Longrightarrow> length (global_img (w ! r)) = N * N"
    unfolding world_ok_def by auto
  have h: "halo_size (config (w ! r)) = 1" if "r < p" for r
    unfolding okr(1)[OF that] by (rule config_for_fields(4)[OF gr])
  have tile: "length l = length (local_img (w ! r)) \<and>
      (\<forall>d. neighbor d (config (w ! r)) = None \<longrightarrow> zero_border d (config (w ! r)) l)"
    if r: "r < p" and l: "l = local_img (w ! r) \<or>
                  (\<exists>d env. exchange_dir d (local_img (w ! r)) (config (w ! r)) env = Some l)" for r l
    using l
  proof
    assume "l = local_img (w ! r)"
    then show ?thesis using zb[OF r] by simp
  next
    assume "\<exists>d env. exchange_dir d (local_img (w ! r)) (config (w ! r)) env = Some l"
    then obtain s env where res: "exchange_dir s (local_img (w ! r)) (config (w ! r)) env = Some l"
      by blast
    have "zero_border d (config (w ! r)) l" if nul: "neighbor d (config (w ! r)) = None" for d
      by (rule zero_border_frame[OF zb[OF r nul] h[OF r]])
         (rule exchange_dir_border[OF res h[OF r] nul])
    with exchange_dir_frame(1)[OF res h[OF r]] show ?thesis by blast
  qed
  show ?thesis unfolding run_inv_def world_ok_def
  proof (intro conjI allI impI)
    show "length w' = p" by (rule len)
  next
    fix r assume r: "r < p"
    from each[OF r] obtain l where l: "w' ! r = (w ! r)\<lparr>local_img := l\<rparr>"
      "l = local_img (w ! r) \<or> (\<exists>d env. exchange_dir d (local_img (w ! r)) (config (w ! r)) env = Some l)"
      by blast
    note t = tile[OF r l(2)]
    show "config (w' ! r) = config_for N r p g" using l(1) okr(1)[OF r] by simp
    show "length (local_img (w' ! r)) = (local_rows (config (w' ! r)) + 2) * (local_cols (config (w' ! r)) + 2)"
      using l(1) t okr(2)[OF r] by simp
    show "length (output_img (w' ! r)) = local_rows (config (w' ! r)) * local_cols (config (w' ! r))"
      using l(1) okr(3)[OF r] by simp
    show "length (global_img (w' ! r)) = N * N" using l(1) okr(4)[OF r] by simp
  next
    fix r d assume r: "r < p" and nul: "neighbor d (config (w' ! r)) = None"
    from each[OF r] obtain l where l: "w' ! r = (w ! r)\<lparr>local_img := l\<rparr>"
      "l = local_img (w ! r) \<or> (\<exists>d env. exchange_dir d (local_img (w ! r)) (config (w ! r)) env = Some l)"
      by blast
    from tile[OF r l(2)] nul l(1)
    show "zero_border d (config (w' ! r)) (local_img (w' ! r))" by simp
  qed
qed

lemma exchange_step_inv:
  assumes gr: "is_grid p g gc" and v: "run_inv N p g v" and rp: "r < p"
    and l: "exchange_dir d (local_img (v ! r)) (config (v ! r)) env = Some l"
  shows "run_inv N p g (v[r := (v ! r)\<lparr>local_img := l\<rparr>])"
proof (rule run_inv_exchanged[OF gr v])
  from v have lv: "length v = p" unfolding run_inv_def world_ok_def by simp
  let ?v' = "v[r := (v ! r)\<lparr>local_img := l\<rparr>]"
  show "length ?v' = p" using lv by simp
  fix q assume q: "q < p"
  show "\<exists>l. ?v' ! q = (v ! q)\<lparr>local_img := l\<rparr> \<and>
             (l = local_img (v ! q) \<or>
              (\<exists>d env. exchange_dir d (local_img (v ! q)) (config (v ! q)) env = Some l))"
  proof (cases "q = r")
    case True
    then have "?v' ! q = (v ! q)\<lparr>local_img := l\<rparr>" using lv rp by simp
    with l True show ?thesis by blast
  next
    case False
    then have "?v' ! q = (v ! q)\<lparr>local_img := local_img (v ! q)\<rparr>" by simp
    then show ?thesis by blast
  qed
qed

lemma exchange_sweep_inv:
  assumes gr: "is_grid p g gc" and inv: "run_inv N p g w"
    and sw: "exchange_sweep (exchange_dir d) sends w = Some w'"
  shows "run_inv N p g w'"
proof -
  from inv have lw: "length w = p" unfolding run_inv_def world_ok_def by simp
  let ?f = "\<lambda>r v. map_option (\<lambda>l. v[r := (v ! r)\<lparr>local_img := l\<rparr>])
           (exchange_dir d (local_img (v ! r)) (config (v ! r)) (mailbox_of sends v (rank (config (v ! r)))))"
  from sw have f: "fold_option ?f [0..<length w] w = Some w'" unfolding exchange_sweep_def .
  show ?thesis
  proof (rule fold_option_invariant[OF f, where P = "run_inv N p g"])
    show "run_inv N p g w" by (rule inv)
  next
    fix r v v' assume r: "r \<in> set [0..<length w]" and v: "run_inv N p g v" and st: "?f r v = Some v'"
    from r lw have rp: "r < p" by simp
    from st obtain l where l: "exchange_dir d (local_img (v ! r)) (config (v ! r))
        (mailbox_of sends v (rank (config (v ! r)))) = Some l" "v' = v[r := (v ! r)\<lparr>local_img := l\<rparr>]"
      by auto
    show "run_inv N p g v'" unfolding l(2) by (rule exchange_step_inv[OF gr v rp l(1)])
  qed
qed

lemma exchange_answer_inv:
  assumes gr: "is_grid p g gc" and inv: "run_inv N p g w"
    and an: "exchange_answer (exchange_dir d) sends src w = Some w'"
  shows "run_inv N p g w'"
proof -
  from inv have lw: "length w = p" unfolding run_inv_def world_ok_def by simp
  from an have lw': "length w' = p"
    and each: "\<And>r. r < p \<Longrightarrow> map_option (\<lambda>l. (w ! r)\<lparr>local_img := l\<rparr>)
                 (exchange_dir d (local_img (w ! r)) (config (w ! r))
                    (mailbox_of sends src (rank (config (w ! r))))) = Some (w' ! r)"
    unfolding exchange_answer_def using lw by (auto simp: those_map_Some)
  show ?thesis
  proof (rule run_inv_exchanged[OF gr inv lw'])
    fix r assume "r < p"
    from each[OF this] obtain l where
      "exchange_dir d (local_img (w ! r)) (config (w ! r))
         (mailbox_of sends src (rank (config (w ! r)))) = Some l"
      "w' ! r = (w ! r)\<lparr>local_img := l\<rparr>" by auto
    then show "\<exists>l. w' ! r = (w ! r)\<lparr>local_img := l\<rparr> \<and>
                 (l = local_img (w ! r) \<or>
                  (\<exists>d env. exchange_dir d (local_img (w ! r)) (config (w ! r)) env = Some l))"
      by blast
  qed
qed

lemma exchange_dir_blocks:
  "exchange_north = exchange_dir North" "exchange_south = exchange_dir South"
  "exchange_west = exchange_dir West" "exchange_east = exchange_dir East"
  by (intro ext, simp)+

lemma exchange_world_steps:
  assumes "exchange_world w = Some w'"
  obtains w1 w2 w3 where
    "exchange_sweep (exchange_dir North) sends_south w = Some w1"
    "exchange_answer (exchange_dir South) sends_north w w1 = Some w2"
    "exchange_sweep (exchange_dir West) sends_east w2 = Some w3"
    "exchange_answer (exchange_dir East) sends_west w2 w3 = Some w'"
  using assms unfolding exchange_world_def exchange_dir_blocks
  by (auto split: option.splits)

lemma exchange_world_inv:
  assumes gr: "is_grid p g gc" and inv: "run_inv N p g w" and ew: "exchange_world w = Some w'"
  shows "run_inv N p g w'"
proof -
  from ew obtain w1 w2 w3 where s:
    "exchange_sweep (exchange_dir North) sends_south w = Some w1"
    "exchange_answer (exchange_dir South) sends_north w w1 = Some w2"
    "exchange_sweep (exchange_dir West) sends_east w2 = Some w3"
    "exchange_answer (exchange_dir East) sends_west w2 w3 = Some w'"
    by (rule exchange_world_steps)
  have "run_inv N p g w1" by (rule exchange_sweep_inv[OF gr inv s(1)])
  then have "run_inv N p g w2" by (rule exchange_answer_inv[OF gr _ s(2)])
  then have "run_inv N p g w3" by (rule exchange_sweep_inv[OF gr _ s(3)])
  then show ?thesis by (rule exchange_answer_inv[OF gr _ s(4)])
qed


section \<open>The kernel and the Collector keep the invariant\<close>

lemma compute_sobel_local_length:
  "length (compute_sobel_local loc outp cfg) = length outp"
proof -
  have "compute_sobel_local loc outp cfg =
     fold (\<lambda>i out. fold (\<lambda>j out. out[(i - halo_size cfg) * local_cols cfg + (j - halo_size cfg) :=
         (case gradients loc (local_cols cfg + 2 * halo_size cfg) i j of (gx_val, gy_val) \<Rightarrow>
            clamp255 (sqrt_cast (int32 (int32 (gx_val * gx_val) + int32 (gy_val * gy_val)))))])
        [halo_size cfg..<local_cols cfg + halo_size cfg] out)
       [halo_size cfg..<local_rows cfg + halo_size cfg] outp"
    by (simp add: compute_sobel_local_def Let_def case_prod_beta)
  then show ?thesis by (simp only: nested_update_length)
qed

lemma compute_world_inv:
  assumes inv: "run_inv N p g w"
  shows "run_inv N p g (compute_world w)"
proof -
  from inv have ok: "world_ok N p g w"
    and zb: "\<And>r d. r < p \<Longrightarrow> neighbor d (config (w ! r)) = None \<Longrightarrow>
                zero_border d (config (w ! r)) (local_img (w ! r))"
    unfolding run_inv_def by auto
  from ok have lw: "length w = p" and
    okr: "\<And>r. r < p \<Longrightarrow> config (w ! r) = config_for N r p g"
         "\<And>r. r < p \<Longrightarrow> length (local_img (w ! r)) = (local_rows (config (w ! r)) + 2) * (local_cols (config (w ! r)) + 2)"
         "\<And>r. r < p \<Longrightarrow> length (output_img (w ! r)) = local_rows (config (w ! r)) * local_cols (config (w ! r))"
         "\<And>r. r < p \<Longrightarrow> length (global_img (w ! r)) = N * N"
    unfolding world_ok_def by auto
  let ?w' = "compute_world w"
  have nth: "?w' ! r = (w ! r)\<lparr>output_img :=
        compute_sobel_local (local_img (w ! r)) (output_img (w ! r)) (config (w ! r))\<rparr>" if "r < p" for r
    using that lw by (simp add: compute_world_def)
  have same: "config (?w' ! r) = config (w ! r)" "local_img (?w' ! r) = local_img (w ! r)"
    "length (output_img (?w' ! r)) = length (output_img (w ! r))"
    "global_img (?w' ! r) = global_img (w ! r)" if "r < p" for r
    using that by (simp_all add: nth compute_sobel_local_length)
  show ?thesis unfolding run_inv_def world_ok_def
  proof (intro conjI allI impI)
    show "length ?w' = p" using lw by (simp add: compute_world_def)
  next
    fix r assume r: "r < p"
    show "config (?w' ! r) = config_for N r p g" using same(1)[OF r] okr(1)[OF r] by simp
    show "length (local_img (?w' ! r)) = (local_rows (config (?w' ! r)) + 2) * (local_cols (config (?w' ! r)) + 2)"
      unfolding same(1,2)[OF r] by (rule okr(2)[OF r])
    show "length (output_img (?w' ! r)) = local_rows (config (?w' ! r)) * local_cols (config (?w' ! r))"
      unfolding same(1,3)[OF r] by (rule okr(3)[OF r])
    show "length (global_img (?w' ! r)) = N * N" unfolding same(4)[OF r] by (rule okr(4)[OF r])
  next
    fix r d assume r: "r < p" and nul: "neighbor d (config (?w' ! r)) = None"
    from nul have "neighbor d (config (w ! r)) = None" unfolding same(1)[OF r] .
    from zb[OF r this] show "zero_border d (config (?w' ! r)) (local_img (?w' ! r))"
      unfolding same(1,2)[OF r] .
  qed
qed

lemma gather_recvs_length:
  assumes "gather_recvs glob cfg N r msgs = Some g'"
  shows "length g' = length glob"
proof -
  obtain sr sc rows cols where blk: "gather_block cfg N r = (sr, sc, rows, cols)"
    by (cases "gather_block cfg N r") auto
  from assms have fo: "fold_option (\<lambda>i g. recv_into g ((sr + i) * N + sc) cols (msgs ! i)) [0..<rows] glob = Some g'"
    by (simp add: gather_recvs_def blk split: if_splits)
  show ?thesis
    by (rule fold_option_invariant[OF fo, where P = "\<lambda>t. length t = length glob"])
       (auto dest: recv_into_length)
qed

lemma gather_copy_length:
  "length (gather_copy outp glob cfg N r) = length glob"
  by (cases "gather_block cfg N r") (simp add: gather_copy_def)

lemma gather_image_root_length:
  assumes "gather_image_root outp glob cfg N from = Some g'"
  shows "length g' = length glob"
  by (rule fold_option_invariant[OF assms[unfolded gather_image_root_def],
        where P = "\<lambda>t. length t = length glob"])
     (auto simp: gather_copy_length dest: gather_recvs_length split: if_splits)

lemma gather_world_inv:
  assumes inv: "run_inv N p g w" and gw: "gather_world N w = Some w'" and p: "1 \<le> p"
  shows "run_inv N p g w'"
proof -
  from inv have ok: "world_ok N p g w"
    and zb: "\<And>r d. r < p \<Longrightarrow> neighbor d (config (w ! r)) = None \<Longrightarrow>
                zero_border d (config (w ! r)) (local_img (w ! r))"
    unfolding run_inv_def by auto
  from ok have lw: "length w = p" and
    okr: "\<And>r. r < p \<Longrightarrow> config (w ! r) = config_for N r p g"
         "\<And>r. r < p \<Longrightarrow> length (local_img (w ! r)) = (local_rows (config (w ! r)) + 2) * (local_cols (config (w ! r)) + 2)"
         "\<And>r. r < p \<Longrightarrow> length (output_img (w ! r)) = local_rows (config (w ! r)) * local_cols (config (w ! r))"
         "\<And>r. r < p \<Longrightarrow> length (global_img (w ! r)) = N * N"
    unfolding world_ok_def by auto
  have p0: "0 < p" using p by simp
  with lw have wne: "w \<noteq> []" by auto
  from gw[unfolded gather_world_unfold[OF wne]] obtain g' where
    g': "gather_image_root (output_img (w ! 0)) (global_img (w ! 0)) (config (w ! 0)) N
          (\<lambda>r. if r < length w
                then inbox (gather_image_send (output_img (w ! r)) (config (w ! r))) 0 0
                else []) = Some g'"
    and w': "w' = w[0 := (w ! 0)\<lparr>global_img := g'\<rparr>]" by auto
  have len: "length g' = N * N" using gather_image_root_length[OF g'] okr(4)[OF p0] by simp
  have nth: "w' ! r = (if r = 0 then (w ! 0)\<lparr>global_img := g'\<rparr> else w ! r)" if "r < p" for r
    unfolding w' using that lw by (simp add: nth_list_update)
  have same: "config (w' ! r) = config (w ! r)" "local_img (w' ! r) = local_img (w ! r)"
    "output_img (w' ! r) = output_img (w ! r)" "length (global_img (w' ! r)) = N * N" if "r < p" for r
    using that okr(4)[OF that] len by (auto simp: nth)
  show ?thesis unfolding run_inv_def world_ok_def
  proof (intro conjI allI impI)
    show "length w' = p" unfolding w' using lw by simp
  next
    fix r assume r: "r < p"
    show "config (w' ! r) = config_for N r p g" using same(1)[OF r] okr(1)[OF r] by simp
    show "length (local_img (w' ! r)) = (local_rows (config (w' ! r)) + 2) * (local_cols (config (w' ! r)) + 2)"
      unfolding same(1,2)[OF r] by (rule okr(2)[OF r])
    show "length (output_img (w' ! r)) = local_rows (config (w' ! r)) * local_cols (config (w' ! r))"
      unfolding same(1,3)[OF r] by (rule okr(3)[OF r])
    show "length (global_img (w' ! r)) = N * N" by (rule same(4)[OF r])
  next
    fix r d assume r: "r < p" and nul: "neighbor d (config (w' ! r)) = None"
    from nul have "neighbor d (config (w ! r)) = None" unfolding same(1)[OF r] .
    from zb[OF r this] show "zero_border d (config (w' ! r)) (local_img (w' ! r))"
      unfolding same(1,2)[OF r] .
  qed
qed


lemma iteration_inv:
  assumes gr: "is_grid p g gc" and inv: "run_inv N p g w" and it: "iteration N w = Some w'"
  shows "run_inv N p g w'"
proof -
  from it obtain w1 w2 where s: "scatter_world N w = Some w1" "exchange_world w1 = Some w2"
    "gather_world N (compute_world w2) = Some w'"
    by (auto simp: iteration_def split: option.splits)
  have "run_inv N p g w1" by (rule scatter_world_inv[OF gr inv s(1)])
  then have "run_inv N p g w2" by (rule exchange_world_inv[OF gr _ s(2)])
  then have "run_inv N p g (compute_world w2)" by (rule compute_world_inv)
  then show ?thesis by (rule gather_world_inv[OF _ s(3) is_gridD(5)[OF gr]])
qed

lemma run_inv_run:
  assumes gr: "is_grid p g gc"
  shows "run_inv N p g w \<Longrightarrow> run n N w = Some w' \<Longrightarrow> run_inv N p g w'"
proof (induction n arbitrary: w)
  case 0
  then show ?case by simp
next
  case (Suc n)
  from Suc.prems(2) obtain v where v: "iteration N w = Some v" "run n N v = Some w'"
    by (auto split: option.splits)
  have "run_inv N p g v" by (rule iteration_inv[OF gr Suc.prems(1) v(1)])
  then show ?case using v(2) by (rule Suc.IH)
qed


section \<open>Message counts of the Distributor and the Collector\<close>

lemma scatter_messages_fit:
  assumes gr: "is_grid p g gc" and r: "0 < r" "r < p" and len: "length glob = N * N"
  shows "length (inbox (snd (scatter_image_root glob loc (config_for N 0 p g) N)) r 0)
           = local_rows (config_for N r p g)"
    and "\<forall>m \<in> set (inbox (snd (scatter_image_root glob loc (config_for N 0 p g) N)) r 0).
           length m = local_cols (config_for N r p g)"
proof -
  let ?cfg = "\<lambda>r. config_for N r p g"
  note cf = config_for_fields[OF gr]
  have ws: "1 \<le> world_size (?cfg 0)" using is_gridD(5)[OF gr] by (simp add: cf)
  have msgs: "inbox (snd (scatter_image_root glob loc (?cfg 0) N)) r 0
      = map (\<lambda>i. payload glob ((start_row_of (?cfg r) + i) * N + start_col_of (?cfg r))
                   (local_cols (?cfg r))) [0..<local_rows (?cfg r)]"
    using inbox_scatter_root[OF ws r(1), of glob loc N] r(2)
    by (simp add: cf scatter_block_own[OF gr])
  show "length (inbox (snd (scatter_image_root glob loc (?cfg 0) N)) r 0) = local_rows (?cfg r)"
    unfolding msgs by simp
  show "\<forall>m \<in> set (inbox (snd (scatter_image_root glob loc (?cfg 0) N)) r 0).
           length m = local_cols (?cfg r)"
    unfolding msgs
  proof
    fix m assume "m \<in> set (map (\<lambda>i. payload glob ((start_row_of (?cfg r) + i) * N + start_col_of (?cfg r))
                   (local_cols (?cfg r))) [0..<local_rows (?cfg r)])"
    then obtain i where i: "i < local_rows (?cfg r)"
      and m: "m = payload glob ((start_row_of (?cfg r) + i) * N + start_col_of (?cfg r)) (local_cols (?cfg r))"
      by auto
    have "(start_row_of (?cfg r) + i) * N + start_col_of (?cfg r) + local_cols (?cfg r) \<le> length glob"
      unfolding len by (rule block_index_bound[OF block_bounds[OF gr r(2)] i]) simp
    then show "length m = local_cols (?cfg r)" unfolding m by (rule payload_length)
  qed
qed

lemma gather_messages_fit:
  assumes len: "length outp = local_rows cfg * local_cols cfg"
  shows "length (inbox (gather_image_send outp cfg) 0 0) = local_rows cfg"
    and "\<forall>m \<in> set (inbox (gather_image_send outp cfg) 0 0). length m = local_cols cfg"
proof -
  show "length (inbox (gather_image_send outp cfg) 0 0) = local_rows cfg"
    by (simp add: inbox_gather_image_send)
  show "\<forall>m \<in> set (inbox (gather_image_send outp cfg) 0 0). length m = local_cols cfg"
    unfolding inbox_gather_image_send
  proof
    fix m assume "m \<in> set (map (\<lambda>i. payload outp (i * local_cols cfg) (local_cols cfg)) [0..<local_rows cfg])"
    then obtain i where i: "i < local_rows cfg"
      and m: "m = payload outp (i * local_cols cfg) (local_cols cfg)" by auto
    from i have "i + 1 \<le> local_rows cfg" by simp
    then have "(i + 1) * local_cols cfg \<le> local_rows cfg * local_cols cfg" by (rule mult_le_mono1)
    then have "i * local_cols cfg + local_cols cfg \<le> length outp" by (simp add: len)
    then show "length m = local_cols cfg" unfolding m by (rule payload_length)
  qed
qed


section \<open>The exchange succeeds when every receive has its message\<close>

lemma sendrecv_recv_Some:
  assumes "env src tag = Some m" "length m \<le> count" "off + count \<le> length buf"
  shows "\<exists>buf'. sendrecv_recv env buf off count src tag = Some buf' \<and> length buf' = length buf"
proof -
  from assms(2,3) have "off + length m \<le> length buf" by simp
  with assms(2) obtain buf' where b: "recv_into buf off count m = Some buf'"
    by (auto simp: recv_into_def)
  from recv_into_length[OF b] b assms(1) show ?thesis by (simp add: sendrecv_recv_def)
qed

lemma exchange_dir_Some:
  assumes dl: "delivers env cfg d" and h: "halo_size cfg = 1"
    and len: "length loc = (local_rows cfg + 2) * (local_cols cfg + 2)"
  shows "\<exists>l'. exchange_dir d loc cfg env = Some l' \<and> length l' = length loc"
proof -
  let ?W = "local_cols cfg + 2" and ?rows = "local_rows cfg" and ?cols = "local_cols cfg"
  have bound: "a * ?W + b \<le> length loc" if "a < ?rows + 2" "b \<le> ?W" for a b
  proof -
    from that(1) have "a + 1 \<le> ?rows + 2" by simp
    then have "(a + 1) * ?W \<le> (?rows + 2) * ?W" by (rule mult_le_mono1)
    with that(2) show ?thesis by (simp add: len)
  qed
  show ?thesis
  proof (cases d)
    case North
    show ?thesis
    proof (cases "north cfg")
      case None
      with North show ?thesis by (simp add: exchange_north_def Let_def)
    next
      case (Some nb)
      with dl North obtain m where m: "env nb 1 = Some m" "length m \<le> ?cols"
        by (auto split: option.splits)
      have "0 * ?W + 1 + ?cols \<le> length loc" using bound[of 0 "1 + ?cols"] by simp
      from sendrecv_recv_Some[where env = env and src = nb and tag = 1, OF m this] Some North show ?thesis
        by (simp add: exchange_north_def Let_def h)
    qed
  next
    case South
    show ?thesis
    proof (cases "south cfg")
      case None
      with South show ?thesis by (simp add: exchange_south_def Let_def)
    next
      case (Some nb)
      with dl South obtain m where m: "env nb 0 = Some m" "length m \<le> ?cols"
        by (auto split: option.splits)
      have "(?rows + 1) * ?W + 1 + ?cols \<le> length loc"
        using bound[of "?rows + 1" "1 + ?cols"] by (simp add: add.assoc)
      from sendrecv_recv_Some[where env = env and src = nb and tag = 0, OF m this] Some South show ?thesis
        by (simp add: exchange_south_def Let_def h)
    qed
  next
    case West
    show ?thesis
    proof (cases "west cfg")
      case None
      with West show ?thesis by (simp add: exchange_west_def Let_def)
    next
      case (Some nb)
      let ?f = "\<lambda>i l. sendrecv_recv env l ((i + 1) * ?W) 1 nb (2 + ?rows + i)"
      have "\<exists>l'. fold_option ?f [0..<?rows] loc = Some l' \<and> length l' = length loc"
      proof (rule fold_option_Some[where Q = "\<lambda>t::int list. length t = length loc"])
        show "length loc = length loc" ..
      next
        fix i and t :: "int list"
        assume i: "i \<in> set [0..<?rows]" and t: "length t = length loc"
        from dl West Some have "\<forall>i \<in> set [0..<?rows].
            (case env nb (2 + ?rows + i) of None \<Rightarrow> False | Some m \<Rightarrow> length m \<le> 1)"
          by (simp add: list_all_iff)
        with i have "case env nb (2 + ?rows + i) of None \<Rightarrow> False | Some m \<Rightarrow> length m \<le> 1"
          by (rule bspec[rotated])
        then obtain m where m: "env nb (2 + ?rows + i) = Some m" "length m \<le> 1"
          by (cases "env nb (2 + ?rows + i)") auto
        have "(i + 1) * ?W + 1 \<le> length t" unfolding t using i by (intro bound) simp_all
        from sendrecv_recv_Some[where env = env and src = nb and tag = "2 + ?rows + i", OF m this] t
        show "\<exists>t'. ?f i t = Some t' \<and> length t' = length loc" by simp
      qed
      with Some West show ?thesis by (simp add: exchange_west_def Let_def h)
    qed
  next
    case East
    show ?thesis
    proof (cases "east cfg")
      case None
      with East show ?thesis by (simp add: exchange_east_def Let_def)
    next
      case (Some nb)
      let ?f = "\<lambda>i l. sendrecv_recv env l ((i + 1) * ?W + ?cols + 1) 1 nb (2 + i)"
      have "\<exists>l'. fold_option ?f [0..<?rows] loc = Some l' \<and> length l' = length loc"
      proof (rule fold_option_Some[where Q = "\<lambda>t::int list. length t = length loc"])
        show "length loc = length loc" ..
      next
        fix i and t :: "int list"
        assume i: "i \<in> set [0..<?rows]" and t: "length t = length loc"
        from dl East Some have "\<forall>i \<in> set [0..<?rows].
            (case env nb (2 + i) of None \<Rightarrow> False | Some m \<Rightarrow> length m \<le> 1)"
          by (simp add: list_all_iff)
        with i have "case env nb (2 + i) of None \<Rightarrow> False | Some m \<Rightarrow> length m \<le> 1"
          by (rule bspec[rotated])
        then obtain m where m: "env nb (2 + i) = Some m" "length m \<le> 1"
          by (cases "env nb (2 + i)") auto
        have "(i + 1) * ?W + (?cols + 2) \<le> length t" unfolding t using i by (intro bound) simp_all
        then have "(i + 1) * ?W + ?cols + 1 + 1 \<le> length t" by simp
        from sendrecv_recv_Some[where env = env and src = nb and tag = "2 + i", OF m this] t
        show "\<exists>t'. ?f i t = Some t' \<and> length t' = length loc" by simp
      qed
      with Some East show ?thesis by (simp add: exchange_east_def Let_def h)
    qed
  qed
qed

lemma exchange_halo_blocking_Some:
  assumes dl: "\<And>d. delivers env cfg d" and h: "halo_size cfg = 1"
    and len: "length loc = (local_rows cfg + 2) * (local_cols cfg + 2)"
  shows "\<exists>l'. exchange_halo_blocking loc cfg env = Some l'"
proof -
  from exchange_dir_Some[OF dl h len, of North] obtain l1 where
    l1: "exchange_north loc cfg env = Some l1" "length l1 = length loc" by auto
  from exchange_dir_Some[OF dl h, of l1 South] l1(2) len obtain l2 where
    l2: "exchange_south l1 cfg env = Some l2" "length l2 = length loc" by auto
  from exchange_dir_Some[OF dl h, of l2 West] l2(2) len obtain l3 where
    l3: "exchange_west l2 cfg env = Some l3" "length l3 = length loc" by auto
  from exchange_dir_Some[OF dl h, of l3 East] l3(2) len obtain l4 where
    l4: "exchange_east l3 cfg env = Some l4" by auto
  from l1 l2 l3 l4 show ?thesis by (simp add: exchange_halo_blocking_def)
qed


section \<open>Neighbours come in pairs\<close>

lemma config_for_tile:
  assumes "is_grid p g gc"
  shows "local_rows (config_for N r p g)
           = (if r div gc = g - 1 then N - (g - 1) * (N div g) else N div g)"
    and "local_cols (config_for N r p g)
           = (if r mod gc = gc - 1 then N - (gc - 1) * (N div gc) else N div gc)"
  using is_gridD(4)[OF assms] by (simp_all add: config_for_def)

lemma config_for_neighbors:
  assumes "is_grid p g gc"
  shows "north (config_for N r p g) = (if r div gc > 0 then Some (r - gc) else None)"
    and "south (config_for N r p g) = (if r div gc < g - 1 then Some (r + gc) else None)"
    and "west (config_for N r p g) = (if r mod gc > 0 then Some (r - 1) else None)"
    and "east (config_for N r p g) = (if r mod gc < gc - 1 then Some (r + 1) else None)"
  using is_gridD(4)[OF assms]
  by (simp_all add: north_def south_def west_def east_def config_for_def)

lemma rank_north:
  assumes gc: "1 \<le> (gc::nat)" and b: "0 < r div gc"
  shows "(r - gc) div gc = r div gc - 1" "(r - gc) mod gc = r mod gc" "gc \<le> r" "r - gc + gc = r"
proof -
  have ge: "gc \<le> r"
  proof (rule ccontr)
    assume "\<not> gc \<le> r"
    then have "r div gc = 0" by simp
    with b show False by simp
  qed
  then obtain k where k: "r = k + gc" by (metis le_add_diff_inverse2)
  show "gc \<le> r" by (rule ge)
  show "r - gc + gc = r" using ge by simp
  show "(r - gc) div gc = r div gc - 1" unfolding k using gc by simp
  show "(r - gc) mod gc = r mod gc" unfolding k by simp
qed

lemma rank_south:
  assumes gc: "1 \<le> (gc::nat)"
  shows "(r + gc) div gc = r div gc + 1" "(r + gc) mod gc = r mod gc"
  using gc by simp_all

lemma rank_west:
  assumes gc: "1 \<le> (gc::nat)" and c: "0 < r mod gc"
  shows "(r - 1) div gc = r div gc" "(r - 1) mod gc = r mod gc - 1" "1 \<le> r" "r - 1 + 1 = r"
proof -
  let ?b = "r div gc" and ?c = "r mod gc"
  have r: "r = ?b * gc + ?c" by simp
  have c1: "?c - 1 < gc" using gc by (simp add: less_imp_diff_less)
  have e: "r - 1 = ?b * gc + (?c - 1)" using c r by linarith
  show "(r - 1) div gc = ?b" by (subst e) (rule grid_index(1)[OF c1])
  show "(r - 1) mod gc = ?c - 1" by (subst e) (rule grid_index(2)[OF c1])
  show "1 \<le> r" using c by (cases r) auto
  then show "r - 1 + 1 = r" by simp
qed

lemma rank_east:
  assumes c: "r mod gc < gc - (1::nat)"
  shows "(r + 1) div gc = r div gc" "(r + 1) mod gc = r mod gc + 1"
proof -
  let ?b = "r div gc" and ?c = "r mod gc"
  have c1: "?c + 1 < gc" using c by simp
  have e: "r + 1 = ?b * gc + (?c + 1)" by simp
  show "(r + 1) div gc = ?b" by (subst e) (rule grid_index(1)[OF c1])
  show "(r + 1) mod gc = ?c + 1" by (subst e) (rule grid_index(2)[OF c1])
qed

lemma rank_in_grid:
  assumes "b < g" "c < gc" "r div gc = b" "r mod gc = (c::nat)"
  shows "r < g * gc"
proof -
  have "r = b * gc + c" using assms(3,4) by (metis div_mult_mod_eq)
  then show ?thesis using grid_rank_bound[OF assms(1,2)] by simp
qed

lemma neighbor_pairs:
  assumes gr: "is_grid p g gc" and r: "r < p"
  shows "north (config_for N r p g) = Some nb \<Longrightarrow>
           nb < p \<and> south (config_for N nb p g) = Some r \<and>
           local_cols (config_for N nb p g) = local_cols (config_for N r p g)"
    and "south (config_for N r p g) = Some nb \<Longrightarrow>
           nb < p \<and> north (config_for N nb p g) = Some r \<and>
           local_cols (config_for N nb p g) = local_cols (config_for N r p g)"
    and "west (config_for N r p g) = Some nb \<Longrightarrow>
           nb < p \<and> east (config_for N nb p g) = Some r \<and>
           local_rows (config_for N nb p g) = local_rows (config_for N r p g)"
    and "east (config_for N r p g) = Some nb \<Longrightarrow>
           nb < p \<and> west (config_for N nb p g) = Some r \<and>
           local_rows (config_for N nb p g) = local_rows (config_for N r p g)"
proof -
  note d = is_gridD[OF gr]
  note nb = config_for_neighbors[OF gr] and tl = config_for_tile[OF gr]
  have b: "r div gc < g" using r d(3) by (simp add: less_mult_imp_div_less)
  have c: "r mod gc < gc" using d(2) by simp
  show "nb < p \<and> south (config_for N nb p g) = Some r \<and>
           local_cols (config_for N nb p g) = local_cols (config_for N r p g)"
    if "north (config_for N r p g) = Some nb"
  proof -
    from that have b0: "0 < r div gc" and e: "nb = r - gc" by (auto simp: nb split: if_splits)
    note rn = rank_north[OF d(2) b0]
    have "nb < p" using r rn(3) e by simp
    moreover have "south (config_for N nb p g) = Some r"
      unfolding nb e rn(1) using b b0 rn(4) by simp
    moreover have "local_cols (config_for N nb p g) = local_cols (config_for N r p g)"
      unfolding tl e rn(2) ..
    ultimately show ?thesis by blast
  qed
  show "nb < p \<and> north (config_for N nb p g) = Some r \<and>
           local_cols (config_for N nb p g) = local_cols (config_for N r p g)"
    if "south (config_for N r p g) = Some nb"
  proof -
    from that have b1: "r div gc < g - 1" and e: "nb = r + gc" by (auto simp: nb split: if_splits)
    note rs = rank_south[OF d(2), of r]
    have "nb < g * gc"
      by (rule rank_in_grid[of "r div gc + 1" g "r mod gc" gc]) (use b1 c rs e in simp_all)
    then have "nb < p" using d(3) by simp
    moreover have "north (config_for N nb p g) = Some r"
      unfolding nb e rs(1) by simp
    moreover have "local_cols (config_for N nb p g) = local_cols (config_for N r p g)"
      unfolding tl e rs(2) ..
    ultimately show ?thesis by blast
  qed
  show "nb < p \<and> east (config_for N nb p g) = Some r \<and>
           local_rows (config_for N nb p g) = local_rows (config_for N r p g)"
    if "west (config_for N r p g) = Some nb"
  proof -
    from that have c0: "0 < r mod gc" and e: "nb = r - 1" by (auto simp: nb split: if_splits)
    note rw = rank_west[OF d(2) c0]
    have "nb < p" using r e by simp
    moreover have "east (config_for N nb p g) = Some r"
      unfolding nb e rw(1,2) using c c0 rw(4) by simp
    moreover have "local_rows (config_for N nb p g) = local_rows (config_for N r p g)"
      unfolding tl e rw(1) ..
    ultimately show ?thesis by blast
  qed
  show "nb < p \<and> west (config_for N nb p g) = Some r \<and>
           local_rows (config_for N nb p g) = local_rows (config_for N r p g)"
    if "east (config_for N r p g) = Some nb"
  proof -
    from that have c1: "r mod gc < gc - 1" and e: "nb = r + 1" by (auto simp: nb split: if_splits)
    note re = rank_east[OF c1]
    have "nb < g * gc"
      by (rule rank_in_grid[of "r div gc" g "r mod gc + 1" gc]) (use b c1 re e in simp_all)
    then have "nb < p" using d(3) by simp
    moreover have "west (config_for N nb p g) = Some r"
      unfolding nb e re(2) by simp
    moreover have "local_rows (config_for N nb p g) = local_rows (config_for N r p g)"
      unfolding tl e re(1) ..
    ultimately show ?thesis by blast
  qed
qed


section \<open>The exchange of a whole process group succeeds\<close>

lemma payload_length_le: "length (payload buf off count) \<le> count"
  by (simp add: payload_def)

lemma sends_lengths:
  "(dst, t, m) \<in> set (sends_north loc cfg) \<Longrightarrow> length m \<le> local_cols cfg"
  "(dst, t, m) \<in> set (sends_south loc cfg) \<Longrightarrow> length m \<le> local_cols cfg"
  "(dst, t, m) \<in> set (sends_west loc cfg) \<Longrightarrow> length m \<le> 1"
  "(dst, t, m) \<in> set (sends_east loc cfg) \<Longrightarrow> length m \<le> 1"
  by (auto simp: sends_north_def sends_south_def sends_west_def sends_east_def
        Let_def payload_length_le split: option.splits)

lemma inbox_head:
  assumes "(me, t, m0) \<in> set out"
  shows "\<exists>m ms. inbox out me t = m # ms \<and> (me, t, m) \<in> set out"
proof -
  let ?P = "\<lambda>(d, t', m). d = me \<and> t' = t"
  have "(me, t, m0) \<in> set (filter ?P out)" using assms by simp
  then have "filter ?P out \<noteq> []" by (metis empty_iff list.set(1))
  then obtain x xs where f: "filter ?P out = x # xs" by (cases "filter ?P out") simp_all
  then have "x \<in> set (filter ?P out)" by simp
  then have x: "x \<in> set out" "?P x" by simp_all
  obtain d t' m where xe: "x = (d, t', m)" by (cases x) auto
  with x have "(me, t, m) \<in> set out" by simp
  moreover have "inbox out me t = m # map (\<lambda>(d, t, m). m) xs"
    unfolding inbox_def f using xe by simp
  ultimately show ?thesis by blast
qed

lemma mailbox_of_Some:
  assumes "src < length w"
    and "(me, t, m0) \<in> set (sends (local_img (w ! src)) (config (w ! src)))"
  shows "\<exists>m. mailbox_of sends w me src t = Some m \<and>
           (me, t, m) \<in> set (sends (local_img (w ! src)) (config (w ! src)))"
proof -
  from inbox_head[OF assms(2)] obtain m ms where
    "inbox (sends (local_img (w ! src)) (config (w ! src))) me t = m # ms"
    "(me, t, m) \<in> set (sends (local_img (w ! src)) (config (w ! src)))" by blast
  with assms(1) show ?thesis by (simp add: mailbox_of_def)
qed

lemma sends_members:
  "south cfg = Some dst \<Longrightarrow> \<exists>m. (dst, 1, m) \<in> set (sends_south loc cfg)"
  "north cfg = Some dst \<Longrightarrow> \<exists>m. (dst, 0, m) \<in> set (sends_north loc cfg)"
  "east cfg = Some dst \<Longrightarrow> halo_size cfg = 1 \<Longrightarrow> i < local_rows cfg \<Longrightarrow>
     \<exists>m. (dst, 2 + local_rows cfg + i, m) \<in> set (sends_east loc cfg)"
  "west cfg = Some dst \<Longrightarrow> halo_size cfg = 1 \<Longrightarrow> i < local_rows cfg \<Longrightarrow>
     \<exists>m. (dst, 2 + i, m) \<in> set (sends_west loc cfg)"
proof -
  show "south cfg = Some dst \<Longrightarrow> \<exists>m. (dst, 1, m) \<in> set (sends_south loc cfg)"
    by (auto simp: sends_south_def Let_def)
  show "north cfg = Some dst \<Longrightarrow> \<exists>m. (dst, 0, m) \<in> set (sends_north loc cfg)"
    by (auto simp: sends_north_def Let_def)
  show "\<exists>m. (dst, 2 + local_rows cfg + i, m) \<in> set (sends_east loc cfg)"
    if "east cfg = Some dst" "halo_size cfg = 1" "i < local_rows cfg"
  proof -
    have "(dst, 2 + local_rows cfg + i,
           payload loc ((i + 1) * (local_cols cfg + 2) + local_cols cfg + 1 - 1) 1)
        \<in> set (sends_east loc cfg)"
      using that by (auto simp: sends_east_def Let_def image_iff)
    then show ?thesis by blast
  qed
  show "\<exists>m. (dst, 2 + i, m) \<in> set (sends_west loc cfg)"
    if "west cfg = Some dst" "halo_size cfg = 1" "i < local_rows cfg"
  proof -
    have "(dst, 2 + i, payload loc ((i + 1) * (local_cols cfg + 2) + 1) 1) \<in> set (sends_west loc cfg)"
      using that by (auto simp: sends_west_def Let_def image_iff)
    then show ?thesis by blast
  qed
qed

lemma world_delivers:
  assumes gr: "is_grid p g gc" and ok: "world_ok N p g w" and r: "r < p"
  shows "delivers (mailbox_of sends_south w r) (config_for N r p g) North"
    and "delivers (mailbox_of sends_north w r) (config_for N r p g) South"
    and "delivers (mailbox_of sends_east w r) (config_for N r p g) West"
    and "delivers (mailbox_of sends_west w r) (config_for N r p g) East"
proof -
  let ?cfg = "\<lambda>r. config_for N r p g"
  note cf = config_for_fields[OF gr]
  from ok have lw: "length w = p" and cfg: "\<And>r. r < p \<Longrightarrow> config (w ! r) = ?cfg r"
    unfolding world_ok_def by auto
  note np = neighbor_pairs[OF gr r, of N]
  have get: "\<exists>m. mailbox_of sends w r nb t = Some m \<and>
       (r, t, m) \<in> set (sends (local_img (w ! nb)) (?cfg nb))"
    if "nb < p" "\<exists>m. (r, t, m) \<in> set (sends (local_img (w ! nb)) (?cfg nb))" for nb t sends
    using mailbox_of_Some[where src = nb and w = w and me = r and t = t and sends = sends]
      that lw cfg[OF that(1)] by auto
  show "delivers (mailbox_of sends_south w r) (?cfg r) North"
  proof (cases "north (?cfg r)")
    case None
    then show ?thesis by simp
  next
    case (Some nb)
    from np(1)[OF Some] have nb: "nb < p" "south (?cfg nb) = Some r"
      "local_cols (?cfg nb) = local_cols (?cfg r)" by simp_all
    from get[where sends = sends_south, OF nb(1) sends_members(1)[OF nb(2)]] obtain m where
      m: "mailbox_of sends_south w r nb 1 = Some m"
         "(r, 1, m) \<in> set (sends_south (local_img (w ! nb)) (?cfg nb))"
      by blast
    from sends_lengths(2)[OF m(2)] nb(3) have "length m \<le> local_cols (?cfg r)" by simp
    with m(1) Some show ?thesis by simp
  qed
  show "delivers (mailbox_of sends_north w r) (?cfg r) South"
  proof (cases "south (?cfg r)")
    case None
    then show ?thesis by simp
  next
    case (Some nb)
    from np(2)[OF Some] have nb: "nb < p" "north (?cfg nb) = Some r"
      "local_cols (?cfg nb) = local_cols (?cfg r)" by simp_all
    from get[where sends = sends_north, OF nb(1) sends_members(2)[OF nb(2)]] obtain m where
      m: "mailbox_of sends_north w r nb 0 = Some m"
         "(r, 0, m) \<in> set (sends_north (local_img (w ! nb)) (?cfg nb))"
      by blast
    from sends_lengths(1)[OF m(2)] nb(3) have "length m \<le> local_cols (?cfg r)" by simp
    with m(1) Some show ?thesis by simp
  qed
  show "delivers (mailbox_of sends_east w r) (?cfg r) West"
  proof (cases "west (?cfg r)")
    case None
    then show ?thesis by simp
  next
    case (Some nb)
    from np(3)[OF Some] have nb: "nb < p" "east (?cfg nb) = Some r"
      "local_rows (?cfg nb) = local_rows (?cfg r)" by simp_all
    have "case mailbox_of sends_east w r nb (2 + local_rows (?cfg r) + i) of
            None \<Rightarrow> False | Some m \<Rightarrow> length m \<le> 1" if i: "i < local_rows (?cfg r)" for i
    proof -
      from i have i': "i < local_rows (?cfg nb)" using nb(3) by simp
      from get[where sends = sends_east, OF nb(1) sends_members(3)[OF nb(2) cf(4) i']] obtain m where
        m: "mailbox_of sends_east w r nb (2 + local_rows (?cfg r) + i) = Some m"
           "(r, 2 + local_rows (?cfg r) + i, m) \<in> set (sends_east (local_img (w ! nb)) (?cfg nb))"
        unfolding nb(3) by blast
      from sends_lengths(4)[OF m(2)] have "length m \<le> 1" .
      with m(1) show ?thesis by simp
    qed
    with Some show ?thesis by (simp add: list_all_iff)
  qed
  show "delivers (mailbox_of sends_west w r) (?cfg r) East"
  proof (cases "east (?cfg r)")
    case None
    then show ?thesis by simp
  next
    case (Some nb)
    from np(4)[OF Some] have nb: "nb < p" "west (?cfg nb) = Some r"
      "local_rows (?cfg nb) = local_rows (?cfg r)" by simp_all
    have "case mailbox_of sends_west w r nb (2 + i) of
            None \<Rightarrow> False | Some m \<Rightarrow> length m \<le> 1" if i: "i < local_rows (?cfg r)" for i
    proof -
      from i have i': "i < local_rows (?cfg nb)" using nb(3) by simp
      from get[where sends = sends_west, OF nb(1) sends_members(4)[OF nb(2) cf(4) i']] obtain m where
        m: "mailbox_of sends_west w r nb (2 + i) = Some m"
           "(r, 2 + i, m) \<in> set (sends_west (local_img (w ! nb)) (?cfg nb))"
        by blast
      from sends_lengths(3)[OF m(2)] have "length m \<le> 1" .
      with m(1) show ?thesis by simp
    qed
    with Some show ?thesis by (simp add: list_all_iff)
  qed
qed

lemma exchange_block_Some:
  assumes gr: "is_grid p g gc" and v: "run_inv N p g v" and r: "r < p"
    and dl: "delivers (mailbox_of sends src r) (config_for N r p g) d"
  shows "\<exists>l. exchange_dir d (local_img (v ! r)) (config (v ! r))
               (mailbox_of sends src (rank (config (v ! r)))) = Some l"
proof -
  note cf = config_for_fields[OF gr]
  from v r have c: "config (v ! r) = config_for N r p g"
    and len: "length (local_img (v ! r))
                = (local_rows (config (v ! r)) + 2) * (local_cols (config (v ! r)) + 2)"
    unfolding run_inv_def world_ok_def by auto
  from exchange_dir_Some[OF dl cf(4), of "local_img (v ! r)"] len c
  show ?thesis by (auto simp: cf(1))
qed

lemma exchange_sweep_Some:
  assumes gr: "is_grid p g gc" and inv: "run_inv N p g w"
    and dl: "\<And>v r. world_ok N p g v \<Longrightarrow> r < p \<Longrightarrow>
               delivers (mailbox_of sends v r) (config_for N r p g) d"
  shows "\<exists>w'. exchange_sweep (exchange_dir d) sends w = Some w' \<and> run_inv N p g w'"
  unfolding exchange_sweep_def
proof (rule fold_option_Some[where Q = "run_inv N p g"])
  show "run_inv N p g w" by (rule inv)
next
  from inv have lw: "length w = p" unfolding run_inv_def world_ok_def by simp
  fix r v assume "r \<in> set [0..<length w]" and v: "run_inv N p g v"
  then have r: "r < p" using lw by simp
  from v have ok: "world_ok N p g v" unfolding run_inv_def by simp
  from exchange_block_Some[OF gr v r dl[OF ok r]] obtain l where
    l: "exchange_dir d (local_img (v ! r)) (config (v ! r))
               (mailbox_of sends v (rank (config (v ! r)))) = Some l" by blast
  from exchange_step_inv[OF gr v r l] l
  show "\<exists>v'. map_option (\<lambda>l. v[r := (v ! r)\<lparr>local_img := l\<rparr>])
            (exchange_dir d (local_img (v ! r)) (config (v ! r))
               (mailbox_of sends v (rank (config (v ! r))))) = Some v' \<and> run_inv N p g v'"
    by simp
qed

lemma exchange_answer_Some:
  assumes gr: "is_grid p g gc" and inv: "run_inv N p g w"
    and dl: "\<And>r. r < p \<Longrightarrow> delivers (mailbox_of sends src r) (config_for N r p g) d"
  shows "\<exists>w'. exchange_answer (exchange_dir d) sends src w = Some w' \<and> run_inv N p g w'"
proof -
  from inv have lw: "length w = p" unfolding run_inv_def world_ok_def by simp
  have "\<exists>w'. exchange_answer (exchange_dir d) sends src w = Some w'"
    unfolding exchange_answer_def
  proof (rule those_map_SomeI)
    fix q assume "q \<in> set w"
    then obtain r where r: "r < p" "q = w ! r" using lw by (auto simp: in_set_conv_nth)
    from exchange_block_Some[OF gr inv r(1) dl[OF r(1)]]
    show "\<exists>y. map_option (\<lambda>l. q\<lparr>local_img := l\<rparr>)
             (exchange_dir d (local_img q) (config q) (mailbox_of sends src (rank (config q)))) = Some y"
      unfolding r(2) by auto
  qed
  then obtain w' where w': "exchange_answer (exchange_dir d) sends src w = Some w'" ..
  with exchange_answer_inv[OF gr inv w'] show ?thesis by blast
qed

lemma exchange_world_Some:
  assumes gr: "is_grid p g gc" and inv: "run_inv N p g w"
  shows "\<exists>w'. exchange_world w = Some w' \<and> run_inv N p g w'"
proof -
  from inv have ok: "world_ok N p g w" unfolding run_inv_def by simp
  from exchange_sweep_Some[OF gr inv world_delivers(1)[OF gr]] obtain w1 where
    w1: "exchange_sweep (exchange_dir North) sends_south w = Some w1" "run_inv N p g w1"
    by blast
  from exchange_answer_Some[OF gr w1(2) world_delivers(2)[OF gr ok]] obtain w2 where
    w2: "exchange_answer (exchange_dir South) sends_north w w1 = Some w2" "run_inv N p g w2"
    by blast
  from w2(2) have ok2: "world_ok N p g w2" unfolding run_inv_def by simp
  from exchange_sweep_Some[OF gr w2(2) world_delivers(3)[OF gr]] obtain w3 where
    w3: "exchange_sweep (exchange_dir West) sends_east w2 = Some w3" "run_inv N p g w3"
    by blast
  from exchange_answer_Some[OF gr w3(2) world_delivers(4)[OF gr ok2]] obtain w4 where
    w4: "exchange_answer (exchange_dir East) sends_west w2 w3 = Some w4" "run_inv N p g w4"
    by blast
  have "exchange_world w = Some w4"
    unfolding exchange_world_def exchange_dir_blocks by (simp add: w1 w2 w3 w4)
  with w4(2) show ?thesis by blast
qed


section \<open>Every run returns\<close>

lemma gather_recvs_Some:
  assumes blk: "gather_block cfg N r = (sr, sc, rows, cols)"
    and n: "length msgs = rows"
    and m: "\<And>i. i < rows \<Longrightarrow> length (msgs ! i) \<le> cols"
    and bnd: "sr + rows \<le> N" "sc + cols \<le> N" and len: "length glob = N * N"
  shows "\<exists>g'. gather_recvs glob cfg N r msgs = Some g' \<and> length g' = N * N"
proof -
  let ?off = "\<lambda>i. (sr + i) * N + sc"
  let ?f = "\<lambda>i g. recv_into g (?off i) cols (msgs ! i)"
  have unf: "gather_recvs glob cfg N r msgs = fold_option ?f [0..<rows] glob"
    by (simp add: gather_recvs_def blk n)
  have "\<exists>g'. fold_option ?f [0..<rows] glob = Some g' \<and> length g' = N * N"
  proof (rule fold_option_Some[where Q = "\<lambda>t::int list. length t = N * N"])
    show "length glob = N * N" by (rule len)
  next
    fix i and t :: "int list"
    assume "i \<in> set [0..<rows]" and t: "length t = N * N"
    then have i: "i < rows" by simp
    have "?off i + cols \<le> N * N" by (rule block_index_bound[OF bnd i]) simp
    then have "?off i + length (msgs ! i) \<le> length t" using m[OF i] t by simp
    with m[OF i] obtain t' where t': "?f i t = Some t'" using recv_into_Some by blast
    with recv_into_length[OF t'] t show "\<exists>t'. ?f i t = Some t' \<and> length t' = N * N" by simp
  qed
  then show ?thesis unfolding unf .
qed

lemma gather_world_Some:
  assumes gr: "is_grid p g gc" and ok: "world_ok N p g w"
  shows "\<exists>w'. gather_world N w = Some w'"
proof -
  note d = is_gridD[OF gr]
  let ?cfg = "\<lambda>r. config_for N r p g"
  note cf = config_for_fields[OF gr]
  from ok have lw: "length w = p" and
    okr: "\<And>r. r < p \<Longrightarrow> config (w ! r) = ?cfg r"
         "\<And>r. r < p \<Longrightarrow> length (global_img (w ! r)) = N * N"
    unfolding world_ok_def by auto
  have p0: "0 < p" using d(5) by simp
  then have wne: "w \<noteq> []" using lw by auto
  let ?from = "\<lambda>r. if r < length w
                then inbox (gather_image_send (output_img (w ! r)) (config (w ! r))) 0 0
                else []"
  let ?f = "\<lambda>r g. if r = 0 then Some (gather_copy (output_img (w ! 0)) g (?cfg 0) N r)
                  else gather_recvs g (?cfg 0) N r (?from r)"
  have "\<exists>g'. fold_option ?f [0..<world_size (?cfg 0)] (global_img (w ! 0)) = Some g' \<and> length g' = N * N"
  proof (rule fold_option_Some[where Q = "\<lambda>t::int list. length t = N * N"])
    show "length (global_img (w ! 0)) = N * N" by (rule okr(2)[OF p0])
  next
    fix r and t :: "int list"
    assume "r \<in> set [0..<world_size (?cfg 0)]" and t: "length t = N * N"
    then have rp: "r < p" by (simp add: cf)
    show "\<exists>t'. ?f r t = Some t' \<and> length t' = N * N"
    proof (cases "r = 0")
      case True
      then show ?thesis using t by (simp add: gather_copy_length)
    next
      case False
      let ?lr = "local_rows (?cfg r)" and ?lc = "local_cols (?cfg r)"
      have fr: "?from r = map (\<lambda>i. payload (output_img (w ! r)) (i * ?lc) ?lc) [0..<?lr]"
        using rp lw by (simp add: inbox_gather_image_send okr(1)[OF rp])
      have n: "length (?from r) = ?lr" unfolding fr by simp
      have m: "length (?from r ! i) \<le> ?lc" if "i < ?lr" for i
        unfolding fr using that by (simp add: payload_def)
      from gather_recvs_Some[OF scatter_block_own(2)[OF gr] n m block_bounds[OF gr rp] t]
      show ?thesis using False by simp
    qed
  qed
  then obtain g' where
    "gather_image_root (output_img (w ! 0)) (global_img (w ! 0)) (?cfg 0) N ?from = Some g'"
    unfolding gather_image_root_def by blast
  then show ?thesis unfolding gather_world_unfold[OF wne] okr(1)[OF p0] by simp
qed

lemma iteration_Some:
  assumes gr: "is_grid p g gc" and inv: "run_inv N p g w"
  shows "\<exists>w'. iteration N w = Some w' \<and> run_inv N p g w'"
proof -
  from inv have ok: "world_ok N p g w" unfolding run_inv_def by simp
  from scatter_world_ok[OF gr ok] obtain w1 where w1: "scatter_world N w = Some w1" by blast
  have i1: "run_inv N p g w1" by (rule scatter_world_inv[OF gr inv w1])
  from exchange_world_Some[OF gr i1] obtain w2 where
    w2: "exchange_world w1 = Some w2" "run_inv N p g w2" by blast
  from w2(2) have i3: "run_inv N p g (compute_world w2)" by (rule compute_world_inv)
  then have "world_ok N p g (compute_world w2)" unfolding run_inv_def by simp
  from gather_world_Some[OF gr this] obtain w' where
    w': "gather_world N (compute_world w2) = Some w'" by blast
  have "iteration N w = Some w'" by (simp add: iteration_def w1 w2(1) w')
  moreover have "run_inv N p g w'" by (rule gather_world_inv[OF i3 w' is_gridD(5)[OF gr]])
  ultimately show ?thesis by blast
qed

lemma run_Some:
  assumes gr: "is_grid p g gc"
  shows "run_inv N p g w \<Longrightarrow> \<exists>w'. run n N w = Some w' \<and> run_inv N p g w'"
proof (induction n arbitrary: w)
  case 0
  then show ?case by simp
next
  case (Suc n)
  from iteration_Some[OF gr Suc.prems] obtain v where
    v: "iteration N w = Some v" "run_inv N p g v" by blast
  from Suc.IH[OF v(2)] show ?case by (simp add: v(1))
qed

lemma sobel_mpi_returns:
  assumes p: "1 \<le> p" and len: "length img = N * N"
  shows "\<exists>out. sobel_mpi N n p img = Some out \<and> length out = N * N"
proof -
  from setup_domain_is_grid[OF p] obtain g gc where
    gr: "is_grid p g gc" and sd: "\<forall>N r. setup_domain N r p = Some (config_for N r p g)" by blast
  let ?w0 = "map (\<lambda>r. init_proc N img (config_for N r p g)) [0..<p]"
  have w0: "init_world N p img = Some ?w0" by (rule init_world_eq[OF sd])
  from run_Some[OF gr init_world_inv[OF gr len], of n] obtain w where
    w: "run n N ?w0 = Some w" "run_inv N p g w" by blast
  from w(2) p have l: "length (global_img (w ! 0)) = N * N" "length w = p"
    unfolding run_inv_def world_ok_def by auto
  with p obtain q0 qs where "w = q0 # qs" by (cases w) auto
  with l(1) show ?thesis by (simp add: sobel_mpi_def w0 w(1))
qed


section \<open>The exchange on the group and \<open>exchange_halo_blocking\<close> on one rank\<close>

lemma inbox_halo_sends:
  "inbox (halo_sends l0 l1 l2 l3 cfg) me 0 = inbox (sends_north l0 cfg) me 0"
  "inbox (halo_sends l0 l1 l2 l3 cfg) me 1 = inbox (sends_south l1 cfg) me 1"
  "i < local_rows cfg \<Longrightarrow>
     inbox (halo_sends l0 l1 l2 l3 cfg) me (2 + i) = inbox (sends_west l2 cfg) me (2 + i)"
  "inbox (halo_sends l0 l1 l2 l3 cfg) me (2 + local_rows cfg + i)
     = inbox (sends_east l3 cfg) me (2 + local_rows cfg + i)"
proof -
  have none: "inbox out me t = []" if "\<And>d t' m. (d, t', m) \<in> set out \<Longrightarrow> t' \<noteq> t" for out t
    using that by (auto simp: inbox_def filter_empty_conv)
  have tn: "t' = 0" if "(d, t', m) \<in> set (sends_north l cfg)" for d t' m l
    using that by (auto simp: sends_north_def Let_def split: option.splits)
  have ts: "t' = 1" if "(d, t', m) \<in> set (sends_south l cfg)" for d t' m l
    using that by (auto simp: sends_south_def Let_def split: option.splits)
  have tw: "2 \<le> t' \<and> t' < 2 + local_rows cfg" if "(d, t', m) \<in> set (sends_west l cfg)" for d t' m l
    using that by (auto simp: sends_west_def Let_def split: option.splits)
  have te: "2 + local_rows cfg \<le> t'" if "(d, t', m) \<in> set (sends_east l cfg)" for d t' m l
    using that by (auto simp: sends_east_def Let_def split: option.splits)
  have n: "inbox (sends_north l cfg) me t = []" if "t \<noteq> 0" for l t
    by (rule none) (use tn that in blast)
  have s: "inbox (sends_south l cfg) me t = []" if "t \<noteq> 1" for l t
    by (rule none) (use ts that in blast)
  have w: "inbox (sends_west l cfg) me t = []" if "t < 2 \<or> 2 + local_rows cfg \<le> t" for l t
    by (rule none) (use tw that in fastforce)
  have e: "inbox (sends_east l cfg) me t = []" if "t < 2 + local_rows cfg" for l t
    by (rule none) (use te that in fastforce)
  show "inbox (halo_sends l0 l1 l2 l3 cfg) me 0 = inbox (sends_north l0 cfg) me 0"
    by (simp add: halo_sends_def inbox_append s w e)
  show "inbox (halo_sends l0 l1 l2 l3 cfg) me 1 = inbox (sends_south l1 cfg) me 1"
    by (simp add: halo_sends_def inbox_append n w e)
  show "inbox (halo_sends l0 l1 l2 l3 cfg) me (2 + i) = inbox (sends_west l2 cfg) me (2 + i)"
    if "i < local_rows cfg"
    using that by (simp add: halo_sends_def inbox_append n s e)
  show "inbox (halo_sends l0 l1 l2 l3 cfg) me (2 + local_rows cfg + i)
     = inbox (sends_east l3 cfg) me (2 + local_rows cfg + i)"
    by (simp add: halo_sends_def inbox_append n s w)
qed

lemma fold_option_cong:
  assumes "\<And>x s. x \<in> set xs \<Longrightarrow> f x s = g x s"
  shows "fold_option f xs s = fold_option g xs s"
  using assms by (induction xs arbitrary: s) (auto split: option.splits)

lemma exchange_north_env:
  assumes "\<And>s. env s 1 = env' s 1"
  shows "exchange_dir North loc cfg env = exchange_dir North loc cfg env'"
  using assms by (simp add: exchange_north_def sendrecv_recv_def Let_def split: option.splits)

lemma exchange_south_env:
  assumes "\<And>s. env s 0 = env' s 0"
  shows "exchange_dir South loc cfg env = exchange_dir South loc cfg env'"
  using assms by (simp add: exchange_south_def sendrecv_recv_def Let_def split: option.splits)

lemma exchange_west_env:
  assumes "\<And>s i. i < local_rows cfg \<Longrightarrow>
             env s (2 + local_rows cfg + i) = env' s (2 + local_rows cfg + i)"
  shows "exchange_dir West loc cfg env = exchange_dir West loc cfg env'"
proof (cases "west cfg")
  case None
  then show ?thesis by (simp add: exchange_west_def Let_def)
next
  case (Some nb)
  show ?thesis
    unfolding exchange_dir.simps exchange_west_def Let_def Some option.case
  proof (rule fold_option_cong)
    fix x and l :: "int list" assume "x \<in> set [0..<local_rows cfg]"
    then have "env nb (2 + local_rows cfg + x) = env' nb (2 + local_rows cfg + x)"
      by (intro assms) simp
    then show "sendrecv_recv env l ((x + halo_size cfg) * (local_cols cfg + 2 * halo_size cfg)) 1 nb
                 (2 + local_rows cfg + x)
             = sendrecv_recv env' l ((x + halo_size cfg) * (local_cols cfg + 2 * halo_size cfg)) 1 nb
                 (2 + local_rows cfg + x)"
      unfolding sendrecv_recv_def by (rule arg_cong)
  qed
qed

lemma exchange_east_env:
  assumes "\<And>s i. i < local_rows cfg \<Longrightarrow> env s (2 + i) = env' s (2 + i)"
  shows "exchange_dir East loc cfg env = exchange_dir East loc cfg env'"
proof (cases "east cfg")
  case None
  then show ?thesis by (simp add: exchange_east_def Let_def)
next
  case (Some nb)
  show ?thesis
    unfolding exchange_dir.simps exchange_east_def Let_def Some option.case
  proof (rule fold_option_cong)
    fix x and l :: "int list" assume "x \<in> set [0..<local_rows cfg]"
    then have "env nb (2 + x) = env' nb (2 + x)"
      by (intro assms) simp
    then show "sendrecv_recv env l ((x + halo_size cfg) * (local_cols cfg + 2 * halo_size cfg)
                   + local_cols cfg + halo_size cfg) 1 nb (2 + x)
             = sendrecv_recv env' l ((x + halo_size cfg) * (local_cols cfg + 2 * halo_size cfg)
                   + local_cols cfg + halo_size cfg) 1 nb (2 + x)"
      unfolding sendrecv_recv_def by (rule arg_cong)
  qed
qed

lemma exchange_sweep_rank:
  assumes sw: "exchange_sweep block sends w = Some w'"
  shows "length w' = length w \<and>
     (\<forall>r < length w. \<exists>l env. block (local_img (w ! r)) (config (w ! r)) env = Some l \<and>
                       w' ! r = (w ! r)\<lparr>local_img := l\<rparr>)"
proof -
  let ?f = "\<lambda>r v. map_option (\<lambda>l. v[r := (v ! r)\<lparr>local_img := l\<rparr>])
           (block (local_img (v ! r)) (config (v ! r)) (mailbox_of sends v (rank (config (v ! r)))))"
  have gen: "fold_option ?f [0..<k] w = Some v \<Longrightarrow> k \<le> length w \<Longrightarrow>
       length v = length w \<and>
       (\<forall>r < k. \<exists>l env. block (local_img (w ! r)) (config (w ! r)) env = Some l \<and>
                       v ! r = (w ! r)\<lparr>local_img := l\<rparr>) \<and>
       (\<forall>r. k \<le> r \<longrightarrow> v ! r = w ! r)" for k v
  proof (induction k arbitrary: v)
    case 0
    then show ?case by simp
  next
    case (Suc k)
    from Suc.prems(1) obtain u where u: "fold_option ?f [0..<k] w = Some u" "?f k u = Some v"
      by (auto simp: fold_option_append split: option.splits)
    from Suc.IH[OF u(1)] Suc.prems(2) have ih: "length u = length w"
      "\<And>r. r < k \<Longrightarrow> \<exists>l env. block (local_img (w ! r)) (config (w ! r)) env = Some l \<and>
                       u ! r = (w ! r)\<lparr>local_img := l\<rparr>"
      "\<And>r. k \<le> r \<Longrightarrow> u ! r = w ! r" by auto
    from u(2) obtain l where l: "block (local_img (u ! k)) (config (u ! k))
        (mailbox_of sends u (rank (config (u ! k)))) = Some l" "v = u[k := (u ! k)\<lparr>local_img := l\<rparr>]"
      by auto
    have k: "k < length u" using Suc.prems(2) ih(1) by simp
    have "\<exists>l env. block (local_img (w ! r)) (config (w ! r)) env = Some l \<and>
                       v ! r = (w ! r)\<lparr>local_img := l\<rparr>" if "r < Suc k" for r
    proof (cases "r = k")
      case True
      have "v ! k = (w ! k)\<lparr>local_img := l\<rparr>" using l(2) k ih(3)[of k] by simp
      moreover have "block (local_img (w ! k)) (config (w ! k))
          (mailbox_of sends u (rank (config (w ! k)))) = Some l"
        using l(1) ih(3)[of k] by simp
      ultimately show ?thesis unfolding True by blast
    next
      case False
      with that have "r < k" by simp
      from ih(2)[OF this] False l(2) show ?thesis by simp
    qed
    moreover have "v ! r = w ! r" if "Suc k \<le> r" for r
      using that l(2) ih(3)[of r] by simp
    moreover have "length v = length w" using l(2) ih(1) by simp
    ultimately show ?case by blast
  qed
  from gen[of "length w" w'] sw show ?thesis unfolding exchange_sweep_def by blast
qed

lemma exchange_answer_rank:
  assumes an: "exchange_answer block sends src w = Some w'"
  shows "length w' = length w \<and>
     (\<forall>r < length w. \<exists>l env. block (local_img (w ! r)) (config (w ! r)) env = Some l \<and>
                       w' ! r = (w ! r)\<lparr>local_img := l\<rparr>)"
proof -
  from an have lw': "length w' = length w"
    and each: "\<And>r. r < length w \<Longrightarrow> map_option (\<lambda>l. (w ! r)\<lparr>local_img := l\<rparr>)
                 (block (local_img (w ! r)) (config (w ! r))
                    (mailbox_of sends src (rank (config (w ! r))))) = Some (w' ! r)"
    unfolding exchange_answer_def by (auto simp: those_map_Some)
  have "\<exists>l env. block (local_img (w ! r)) (config (w ! r)) env = Some l \<and>
                       w' ! r = (w ! r)\<lparr>local_img := l\<rparr>" if "r < length w" for r
  proof -
    from each[OF that] obtain l where
      "block (local_img (w ! r)) (config (w ! r)) (mailbox_of sends src (rank (config (w ! r)))) = Some l"
      "w' ! r = (w ! r)\<lparr>local_img := l\<rparr>" by auto
    then show ?thesis by blast
  qed
  with lw' show ?thesis by blast
qed

lemma exchange_world_rank:
  assumes ew: "exchange_world w = Some w'" and r: "r < length w"
  shows "\<exists>l env. exchange_halo_blocking (local_img (w ! r)) (config (w ! r)) env = Some l \<and>
           w' ! r = (w ! r)\<lparr>local_img := l\<rparr>"
proof -
  from ew obtain w1 w2 w3 where s:
    "exchange_sweep (exchange_dir North) sends_south w = Some w1"
    "exchange_answer (exchange_dir South) sends_north w w1 = Some w2"
    "exchange_sweep (exchange_dir West) sends_east w2 = Some w3"
    "exchange_answer (exchange_dir East) sends_west w2 w3 = Some w'"
    by (rule exchange_world_steps)
  let ?cfg = "config (w ! r)" and ?rows = "local_rows (config (w ! r))"
  from exchange_sweep_rank[OF s(1)] r obtain l1 e1 where
    a1: "length w1 = length w" "exchange_dir North (local_img (w ! r)) ?cfg e1 = Some l1"
        "w1 ! r = (w ! r)\<lparr>local_img := l1\<rparr>" by blast
  from exchange_answer_rank[OF s(2)] r a1(1) obtain l2 e2 where
    a2: "length w2 = length w" "exchange_dir South (local_img (w1 ! r)) (config (w1 ! r)) e2 = Some l2"
        "w2 ! r = (w1 ! r)\<lparr>local_img := l2\<rparr>" by force
  from exchange_sweep_rank[OF s(3)] r a2(1) obtain l3 e3 where
    a3: "length w3 = length w" "exchange_dir West (local_img (w2 ! r)) (config (w2 ! r)) e3 = Some l3"
        "w3 ! r = (w2 ! r)\<lparr>local_img := l3\<rparr>" by force
  from exchange_answer_rank[OF s(4)] r a3(1) obtain l4 e4 where
    a4: "exchange_dir East (local_img (w3 ! r)) (config (w3 ! r)) e4 = Some l4"
        "w' ! r = (w3 ! r)\<lparr>local_img := l4\<rparr>" by force
  define env where "env = (\<lambda>src t. if t = 1 then e1 src t else if t = 0 then e2 src t
                             else if 2 + ?rows \<le> t then e3 src t else e4 src t)"
  have b1: "exchange_dir North (local_img (w ! r)) ?cfg env = Some l1"
    using a1(2) exchange_north_env[of env e1 "local_img (w ! r)" ?cfg] by (simp add: env_def)
  have b2: "exchange_dir South l1 ?cfg env = Some l2"
    using a2(2) a1(3) exchange_south_env[of env e2 l1 ?cfg] by (simp add: env_def)
  have b3: "exchange_dir West l2 ?cfg env = Some l3"
    using a3(2) a2(3) a1(3) exchange_west_env[of ?cfg env e3 l2] by (simp add: env_def)
  have b4: "exchange_dir East l3 ?cfg env = Some l4"
    using a4(1) a3(3) a2(3) a1(3) exchange_east_env[of ?cfg env e4 l3] by (simp add: env_def)
  have "exchange_halo_blocking (local_img (w ! r)) ?cfg env = Some l4"
    using b1 b2 b3 b4 by (simp add: exchange_halo_blocking_def)
  moreover have "w' ! r = (w ! r)\<lparr>local_img := l4\<rparr>"
    using a4(2) a3(3) a2(3) a1(3) by simp
  ultimately show ?thesis by blast
qed


section \<open>Programs of paired calls are never stuck\<close>

lemma matchedD:
  assumes m: "matched progs stamps" and a: "a < length progs" and k: "k < length (progs ! a)"
  shows "dest (progs ! a ! k) < length progs"
    and "source (progs ! a ! k) = dest (progs ! a ! k)"
    and "\<exists>k' < length (progs ! dest (progs ! a ! k)).
           stamps ! dest (progs ! a ! k) ! k' = stamps ! a ! k \<and>
           progs ! dest (progs ! a ! k) ! k' = mirror a (progs ! a ! k)"
proof -
  from m a have la: "length (stamps ! a) = length (progs ! a)"
    and el: "\<And>t op. (t, op) \<in> set (zip (stamps ! a) (progs ! a)) \<Longrightarrow>
               dest op < length progs \<and> source op = dest op \<and>
               (t, mirror a op) \<in> set (zip (stamps ! dest op) (progs ! dest op))"
    unfolding matched_def by fastforce+
  have "(stamps ! a ! k, progs ! a ! k) \<in> set (zip (stamps ! a) (progs ! a))"
    using k la by (auto simp: set_zip)
  from el[OF this] have d: "dest (progs ! a ! k) < length progs"
    "source (progs ! a ! k) = dest (progs ! a ! k)"
    "(stamps ! a ! k, mirror a (progs ! a ! k))
       \<in> set (zip (stamps ! dest (progs ! a ! k)) (progs ! dest (progs ! a ! k)))" by simp_all
  show "dest (progs ! a ! k) < length progs" by (rule d(1))
  show "source (progs ! a ! k) = dest (progs ! a ! k)" by (rule d(2))
  from d(3) show "\<exists>k' < length (progs ! dest (progs ! a ! k)).
           stamps ! dest (progs ! a ! k) ! k' = stamps ! a ! k \<and>
           progs ! dest (progs ! a ! k) ! k' = mirror a (progs ! a ! k)"
    by (auto simp: set_zip)
qed

lemma stamps_order:
  assumes m: "matched progs stamps" and a: "a < length progs"
    and k: "k < length (progs ! a)" and k': "k' < length (progs ! a)"
  shows "(stamps ! a ! k < stamps ! a ! k') = (k < k')"
    and "(stamps ! a ! k = stamps ! a ! k') = (k = k')"
    and "(stamps ! a ! k \<le> stamps ! a ! k') = (k \<le> k')"
proof -
  from m a have la: "length (stamps ! a) = length (progs ! a)"
    and so: "sorted_wrt (<) (stamps ! a)"
    unfolding matched_def by auto
  have lt: "stamps ! a ! i < stamps ! a ! j" if "i < j" "j < length (progs ! a)" for i j
    using sorted_wrt_nth_less[OF so that(1)] that(2) la by simp
  show "(stamps ! a ! k < stamps ! a ! k') = (k < k')"
    using lt[of k k'] lt[of k' k] k k' by (cases k k' rule: linorder_cases) auto
  show "(stamps ! a ! k = stamps ! a ! k') = (k = k')"
    using lt[of k k'] lt[of k' k] k k' by (cases k k' rule: linorder_cases) auto
  show "(stamps ! a ! k \<le> stamps ! a ! k') = (k \<le> k')"
    using lt[of k k'] lt[of k' k] k k' by (cases k k' rule: linorder_cases) auto
qed

lemma sched_invD:
  assumes "sched_inv progs stamps s"
  shows "length s = length progs"
    and "\<And>a. a < length progs \<Longrightarrow> pc (s ! a) \<le> length (progs ! a)"
    and "\<And>a. a < length progs \<Longrightarrow> \<not> (sent (s ! a) \<and> received (s ! a))"
    and "\<And>a k k'. a < length progs \<Longrightarrow> k < length (progs ! a) \<Longrightarrow>
           k' < length (progs ! dest (progs ! a ! k)) \<Longrightarrow>
           stamps ! dest (progs ! a ! k) ! k' = stamps ! a ! k \<Longrightarrow>
           send_done s a k = recv_done s (dest (progs ! a ! k)) k'"
  using assms unfolding sched_inv_def by blast+

lemma sched_inv_start:
  assumes m: "matched progs stamps"
  shows "sched_inv progs stamps (start progs)"
  unfolding sched_inv_def
proof (intro conjI allI impI)
  show "length (start progs) = length progs" by (simp add: start_def)
next
  fix a assume "a < length progs"
  then show "pc (start progs ! a) \<le> length (progs ! a)"
    "\<not> (sent (start progs ! a) \<and> received (start progs ! a))"
    by (simp_all add: start_def)
next
  fix a k k' assume a: "a < length progs" and k: "k < length (progs ! a)"
  have d: "dest (progs ! a ! k) < length progs" by (rule matchedD(1)[OF m a k])
  show "send_done (start progs) a k = recv_done (start progs) (dest (progs ! a ! k)) k'"
    using a d by (simp add: start_def send_done_def recv_done_def)
qed

lemma transfer_partner:
  assumes m: "matched progs stamps" and inv: "sched_inv progs stamps s"
    and ct: "can_transfer progs s a b"
  shows "stamps ! b ! pc (s ! b) = stamps ! a ! pc (s ! a)"
proof -
  let ?ka = "pc (s ! a)" and ?kb = "pc (s ! b)"
  from ct have a: "a < length progs" and b: "b < length progs"
    and ka: "?ka < length (progs ! a)" and kb: "?kb < length (progs ! b)"
    and ns: "\<not> sent (s ! a)" and nr: "\<not> received (s ! b)"
    and da: "dest (progs ! a ! ?ka) = b" and sb: "source (progs ! b ! ?kb) = a"
    unfolding can_transfer_def by simp_all
  note x = sched_invD(4)[OF inv]
  from matchedD(3)[OF m a ka] da obtain k' where k': "k' < length (progs ! b)"
    "stamps ! b ! k' = stamps ! a ! ?ka" by auto
  have "send_done s a ?ka = recv_done s b k'"
    using x[OF a ka, of k'] k' da by simp
  with ns have "\<not> recv_done s b k'" by (simp add: send_done_def)
  then have le1: "?kb \<le> k'" by (simp add: recv_done_def)
  have db: "dest (progs ! b ! ?kb) = a" using matchedD(2)[OF m b kb] sb by simp
  from matchedD(3)[OF m b kb] db obtain k'' where k'': "k'' < length (progs ! a)"
    "stamps ! a ! k'' = stamps ! b ! ?kb" "progs ! a ! k'' = mirror b (progs ! b ! ?kb)" by auto
  have dk: "dest (progs ! a ! k'') = b" using k''(3) by (simp add: mirror_def)
  have "send_done s a k'' = recv_done s b ?kb"
    using x[OF a k''(1), of ?kb] kb k''(2) dk by simp
  with nr have "\<not> send_done s a k''" by (simp add: recv_done_def)
  then have le2: "?ka \<le> k''" by (simp add: send_done_def)
  have "stamps ! b ! ?kb \<le> stamps ! b ! k'" using stamps_order(3)[OF m b kb k'(1)] le1 by simp
  moreover have "stamps ! a ! ?ka \<le> stamps ! a ! k''"
    using stamps_order(3)[OF m a ka k''(1)] le2 by simp
  ultimately show ?thesis using k'(2) k''(2) by simp
qed

lemma transfer_nth:
  assumes len: "length s = n" and a: "a < n" and b: "b < n" and r: "r < n"
  shows "transfer s a b ! r
     = settle ((s ! r)\<lparr>sent := (r = a \<or> sent (s ! r)), received := (r = b \<or> received (s ! r))\<rparr>)"
    and "length (transfer s a b) = n"
proof -
  show "length (transfer s a b) = n" by (simp add: transfer_def Let_def len)
  have "(s[a := (s ! a)\<lparr>sent := True\<rparr>, b := (s[a := (s ! a)\<lparr>sent := True\<rparr>] ! b)\<lparr>received := True\<rparr>]) ! r
      = (s ! r)\<lparr>sent := (r = a \<or> sent (s ! r)), received := (r = b \<or> received (s ! r))\<rparr>"
    using len a b r by (cases "r = a"; cases "r = b"; cases "a = b"; simp)
  then show "transfer s a b ! r
     = settle ((s ! r)\<lparr>sent := (r = a \<or> sent (s ! r)), received := (r = b \<or> received (s ! r))\<rparr>)"
    using r len by (simp add: transfer_def Let_def)
qed

lemma transfer_done:
  assumes len: "length s = n" and a: "a < n" and b: "b < n" and r: "r < n"
  shows "send_done (transfer s a b) r k = ((r = a \<and> k = pc (s ! a)) \<or> send_done s r k)"
    and "recv_done (transfer s a b) r k = ((r = b \<and> k = pc (s ! b)) \<or> recv_done s r k)"
  unfolding send_done_def recv_done_def transfer_nth(1)[OF len a b r]
  by (auto simp: settle_def)

lemma sched_inv_transfer:
  assumes m: "matched progs stamps" and inv: "sched_inv progs stamps s"
    and ct: "can_transfer progs s a b"
  shows "sched_inv progs stamps (transfer s a b)"
proof -
  let ?n = "length progs" and ?ka = "pc (s ! a)" and ?kb = "pc (s ! b)"
  from ct have a: "a < ?n" and b: "b < ?n"
    and ka: "?ka < length (progs ! a)" and kb: "?kb < length (progs ! b)"
    and da: "dest (progs ! a ! ?ka) = b" and sb: "source (progs ! b ! ?kb) = a"
    unfolding can_transfer_def by simp_all
  note i = sched_invD[OF inv]
  note st = transfer_partner[OF m inv ct]
  note nth = transfer_nth[OF i(1) a b]
  show ?thesis unfolding sched_inv_def
  proof (intro conjI allI impI)
    show "length (transfer s a b) = ?n" by (rule nth(2)) (rule a)
  next
    fix r assume r: "r < ?n"
    show "pc (transfer s a b ! r) \<le> length (progs ! r)"
    proof (cases "(r = a \<or> sent (s ! r)) \<and> (r = b \<or> received (s ! r))")
      case True
      with i(3)[OF r] have "r = a \<or> r = b" by blast
      with ka kb have "pc (s ! r) < length (progs ! r)" by blast
      then show ?thesis unfolding nth(1)[OF r] by (simp add: settle_def)
    next
      case False
      then have "pc (transfer s a b ! r) = pc (s ! r)"
        unfolding nth(1)[OF r] settle_def by auto
      with i(2)[OF r] show ?thesis by simp
    qed
    show "\<not> (sent (transfer s a b ! r) \<and> received (transfer s a b ! r))"
      unfolding nth(1)[OF r] by (auto simp: settle_def)
  next
    fix c k k' assume c: "c < ?n" and k: "k < length (progs ! c)"
      and k': "k' < length (progs ! dest (progs ! c ! k))"
      and se: "stamps ! dest (progs ! c ! k) ! k' = stamps ! c ! k"
    let ?d = "dest (progs ! c ! k)"
    have d: "?d < ?n" by (rule matchedD(1)[OF m c k])
    have old: "send_done s c k = recv_done s ?d k'" by (rule i(4)[OF c k k' se])
    have "(c = a \<and> k = ?ka) = (?d = b \<and> k' = ?kb)"
    proof
      assume "c = a \<and> k = ?ka"
      then have e: "c = a" "k = ?ka" by simp_all
      have "?d = b" using da e by simp
      moreover have "k' = ?kb"
        using stamps_order(2)[OF m b _ kb, of k'] k' se st e \<open>?d = b\<close> by simp
      ultimately show "?d = b \<and> k' = ?kb" by simp
    next
      assume "?d = b \<and> k' = ?kb"
      then have e: "?d = b" "k' = ?kb" by simp_all
      from matchedD(3)[OF m c k] e(1) obtain j where j: "j < length (progs ! b)"
        "stamps ! b ! j = stamps ! c ! k" "progs ! b ! j = mirror c (progs ! c ! k)" by auto
      have "j = ?kb" using stamps_order(2)[OF m b j(1) kb] j(2) se e by simp
      with j(3) have "source (progs ! b ! ?kb) = c" by (simp add: mirror_def)
      with sb have ca: "c = a" by simp
      have "stamps ! a ! k = stamps ! a ! ?ka" using se e st ca by simp
      then have "k = ?ka" using stamps_order(2)[OF m a _ ka, of k] k ca by simp
      with ca show "c = a \<and> k = ?ka" by simp
    qed
    then show "send_done (transfer s a b) c k = recv_done (transfer s a b) ?d k'"
      unfolding transfer_done(1)[OF i(1) a b c] transfer_done(2)[OF i(1) a b d] using old by simp
  qed
qed

lemma reachable_inv:
  assumes m: "matched progs stamps" and r: "reachable progs s"
  shows "sched_inv progs stamps s"
  using r
proof (induction rule: reachable.induct)
  case initial
  show ?case by (rule sched_inv_start[OF m])
next
  case (step s a b)
  then show ?case using sched_inv_transfer[OF m] by blast
qed

lemma sched_progress:
  assumes m: "matched progs stamps" and inv: "sched_inv progs stamps s"
    and nf: "\<not> finished progs s"
  shows "\<exists>a b. can_transfer progs s a b"
proof -
  let ?n = "length progs"
  note i = sched_invD[OF inv]
  let ?P = "\<lambda>a. a < ?n \<and> pc (s ! a) < length (progs ! a)"
  let ?st = "\<lambda>a. stamps ! a ! pc (s ! a)"
  from nf obtain a0 where "a0 < ?n" "pc (s ! a0) \<noteq> length (progs ! a0)"
    unfolding finished_def list_all_iff by auto
  with i(2)[of a0] have "?P a0" by simp
  from ex_has_least_nat[of ?P a0 ?st, OF this] obtain a where a: "a < ?n"
    and ka: "pc (s ! a) < length (progs ! a)"
    and least: "\<And>c. ?P c \<Longrightarrow> ?st a \<le> ?st c" by blast
  let ?ka = "pc (s ! a)"
  let ?b = "dest (progs ! a ! ?ka)"
  have b: "?b < ?n" by (rule matchedD(1)[OF m a ka])
  have sa: "source (progs ! a ! ?ka) = ?b" by (rule matchedD(2)[OF m a ka])
  from matchedD(3)[OF m a ka] obtain k' where k': "k' < length (progs ! ?b)"
    "stamps ! ?b ! k' = ?st a" "progs ! ?b ! k' = mirror a (progs ! a ! ?ka)" by auto
  have x1: "send_done s a ?ka = recv_done s ?b k'" by (rule i(4)[OF a ka k'(1,2)])
  have dk: "dest (progs ! ?b ! k') = a" using k'(3) by (simp add: mirror_def)
  have x2: "send_done s ?b k' = recv_done s a ?ka"
    using i(4)[OF b k'(1), of ?ka] ka k'(2) dk by simp
  have head: "pc (s ! ?b) = k'" if "pc (s ! ?b) \<le> k'"
  proof -
    from that k'(1) have pb: "?P ?b" using b by simp
    from least[OF pb] have "stamps ! ?b ! k' \<le> stamps ! ?b ! pc (s ! ?b)" using k'(2) by simp
    then have "k' \<le> pc (s ! ?b)" using stamps_order(3)[OF m b k'(1)] pb by simp
    with that show ?thesis by simp
  qed
  show ?thesis
  proof (cases "sent (s ! a)")
    case False
    then have "\<not> recv_done s ?b k'" using x1 by (simp add: send_done_def)
    then have le: "pc (s ! ?b) \<le> k'" and nr: "pc (s ! ?b) = k' \<longrightarrow> \<not> received (s ! ?b)"
      by (auto simp: recv_done_def)
    note h = head[OF le]
    have "can_transfer progs s a ?b"
      unfolding can_transfer_def using a b ka k' False nr h
      by (simp add: mirror_def)
    then show ?thesis by blast
  next
    case True
    with i(3)[OF a] have "\<not> received (s ! a)" by simp
    then have "\<not> send_done s ?b k'" using x2 by (simp add: recv_done_def)
    then have le: "pc (s ! ?b) \<le> k'" and ns: "pc (s ! ?b) = k' \<longrightarrow> \<not> sent (s ! ?b)"
      by (auto simp: send_done_def)
    note h = head[OF le]
    have "can_transfer progs s ?b a"
      unfolding can_transfer_def using a b ka k' \<open>\<not> received (s ! a)\<close> ns h sa
      by (simp add: mirror_def)
    then show ?thesis by blast
  qed
qed

lemma pending_transfer:
  assumes len: "length s = length progs" and ct: "can_transfer progs s a b"
  shows "pending progs (transfer s a b) < pending progs s"
proof -
  let ?n = "length progs"
  let ?t = "\<lambda>s a. 2 * (length (progs ! a) - pc (s ! a))
          - (if sent (s ! a) then 1 else 0) - (if received (s ! a) then (1::nat) else 0)"
  from ct have a: "a < ?n" and b: "b < ?n"
    and ka: "pc (s ! a) < length (progs ! a)" and ns: "\<not> sent (s ! a)"
    unfolding can_transfer_def by simp_all
  note nth = transfer_nth(1)[OF len a b]
  define t :: "call_state list \<Rightarrow> nat \<Rightarrow> nat" where "t = ?t"
  have le: "t (transfer s a b) r \<le> t s r" if "r < ?n" for r
    unfolding t_def nth[OF that] by (auto simp: settle_def)
  have lt: "t (transfer s a b) a < t s a"
    unfolding t_def nth[OF a] using ka ns by (auto simp: settle_def)
  have "sum (t (transfer s a b)) {0..<?n} < sum (t s) {0..<?n}"
  proof (rule sum_strict_mono_ex1)
    show "finite {0..<?n}" by simp
    show "\<forall>r \<in> {0..<?n}. t (transfer s a b) r \<le> t s r" using le by simp
    from lt a show "\<exists>r \<in> {0..<?n}. t (transfer s a b) r < t s r"
      by (intro bexI[of _ a]) simp_all
  qed
  then show ?thesis unfolding pending_def t_def by (simp add: interv_sum_list_conv_sum_set_nat)
qed


section \<open>The calls of the exchange are paired\<close>

lemma exchange_stamps_length:
  "length (exchange_stamps cfg) = length (exchange_ops cfg)"
  by (simp add: exchange_stamps_def exchange_ops_def Let_def split: option.splits)

lemma exchange_zip_set:
  "set (zip (exchange_stamps cfg) (exchange_ops cfg)) =
     (case north cfg of None \<Rightarrow> {}
      | Some nb \<Rightarrow> {(my_row cfg, \<lparr>dest = nb, sendtag = 0, source = nb, recvtag = 1\<rparr>)}) \<union>
     (case south cfg of None \<Rightarrow> {}
      | Some nb \<Rightarrow> {(my_row cfg + 1, \<lparr>dest = nb, sendtag = 1, source = nb, recvtag = 0\<rparr>)}) \<union>
     (case west cfg of None \<Rightarrow> {}
      | Some nb \<Rightarrow> (\<lambda>i. (grid_rows cfg + my_col cfg * local_rows cfg + i,
                         \<lparr>dest = nb, sendtag = 2 + i, source = nb, recvtag = 2 + local_rows cfg + i\<rparr>))
                    ` {0..<local_rows cfg}) \<union>
     (case east cfg of None \<Rightarrow> {}
      | Some nb \<Rightarrow> (\<lambda>i. (grid_rows cfg + (my_col cfg + 1) * local_rows cfg + i,
                         \<lparr>dest = nb, sendtag = 2 + local_rows cfg + i, source = nb, recvtag = 2 + i\<rparr>))
                    ` {0..<local_rows cfg})"
proof -
  have z: "zip (map f xs) (map h xs) = map (\<lambda>x. (f x, h x)) xs" for f :: "nat \<Rightarrow> nat" and h :: "nat \<Rightarrow> sendrecv" and xs
    by (induction xs) simp_all
  show ?thesis
    by (cases "north cfg"; cases "south cfg"; cases "west cfg"; cases "east cfg")
       (auto simp add: exchange_stamps_def exchange_ops_def Let_def z)
qed

lemma exchange_stamps_sorted:
  assumes "my_row cfg < grid_rows cfg"
    and "\<And>nb. south cfg = Some nb \<Longrightarrow> my_row cfg + 1 < grid_rows cfg"
  shows "sorted_wrt (<) (exchange_stamps cfg)"
proof -
  have up: "sorted_wrt (<) (map (\<lambda>i. c + i) [0..<n])" for c n :: nat
    by (simp add: sorted_wrt_map sorted_wrt_upt[THEN sorted_wrt_mono_rel[rotated]])
  show ?thesis
    using assms
    by (cases "north cfg"; cases "south cfg"; cases "west cfg"; cases "east cfg")
       (auto simp: exchange_stamps_def Let_def sorted_wrt_append up add.assoc)
qed


lemma neighbor_coords:
  assumes gr: "is_grid p g gc"
  shows "north (config_for N r p g) = Some nb \<Longrightarrow>
           my_row (config_for N nb p g) + 1 = my_row (config_for N r p g)"
    and "south (config_for N r p g) = Some nb \<Longrightarrow>
           my_row (config_for N nb p g) = my_row (config_for N r p g) + 1"
    and "west (config_for N r p g) = Some nb \<Longrightarrow>
           my_col (config_for N nb p g) + 1 = my_col (config_for N r p g)"
    and "east (config_for N r p g) = Some nb \<Longrightarrow>
           my_col (config_for N nb p g) = my_col (config_for N r p g) + 1"
proof -
  note d = is_gridD[OF gr]
  note cf = config_for_fields[OF gr]
  note nbs = config_for_neighbors[OF gr]
  show "my_row (config_for N nb p g) + 1 = my_row (config_for N r p g)"
    if "north (config_for N r p g) = Some nb"
  proof -
    from that have b: "0 < r div gc" and e: "nb = r - gc"
      unfolding nbs by (auto split: if_splits)
    show ?thesis unfolding cf e rank_north(1)[OF d(2) b] using b by simp
  qed
  show "my_row (config_for N nb p g) = my_row (config_for N r p g) + 1"
    if "south (config_for N r p g) = Some nb"
  proof -
    from that have e: "nb = r + gc" unfolding nbs by (auto split: if_splits)
    show ?thesis unfolding cf e rank_south(1)[OF d(2)] ..
  qed
  show "my_col (config_for N nb p g) + 1 = my_col (config_for N r p g)"
    if "west (config_for N r p g) = Some nb"
  proof -
    from that have c: "0 < r mod gc" and e: "nb = r - 1"
      unfolding nbs by (auto split: if_splits)
    show ?thesis unfolding cf e rank_west(2)[OF d(2) c] using c by simp
  qed
  show "my_col (config_for N nb p g) = my_col (config_for N r p g) + 1"
    if "east (config_for N r p g) = Some nb"
  proof -
    from that have c: "r mod gc < gc - 1" and e: "nb = r + 1"
      unfolding nbs by (auto split: if_splits)
    show ?thesis unfolding cf e rank_east(2)[OF c] ..
  qed
qed

lemma exchange_matched:
  assumes gr: "is_grid p g gc"
  shows "matched (map exchange_ops (map (\<lambda>r. config_for N r p g) [0..<p]))
                 (map exchange_stamps (map (\<lambda>r. config_for N r p g) [0..<p]))"
proof -
  note d = is_gridD[OF gr]
  note cf = config_for_fields[OF gr]
  let ?cfg = "\<lambda>r. config_for N r p g"
  let ?progs = "map exchange_ops (map ?cfg [0..<p])"
  let ?stamps = "map exchange_stamps (map ?cfg [0..<p])"
  let ?Z = "\<lambda>r. set (zip (exchange_stamps (?cfg r)) (exchange_ops (?cfg r)))"
  have nth: "?progs ! r = exchange_ops (?cfg r)" "?stamps ! r = exchange_stamps (?cfg r)"
    if "r < p" for r using that by simp_all
  have row: "my_row (?cfg r) < grid_rows (?cfg r)" if "r < p" for r
    unfolding cf using that d(3) by (simp add: less_mult_imp_div_less)
  have srow: "my_row (?cfg r) + 1 < grid_rows (?cfg r)" if "south (?cfg r) = Some nb" for r nb
    using that unfolding config_for_neighbors[OF gr] cf by (auto split: if_splits)
  have el: "dest op < p \<and> source op = dest op \<and> (t, mirror a op) \<in> ?Z (dest op)"
    if a: "a < p" and m: "(t, op) \<in> ?Z a" for a t op
  proof -
    note np = neighbor_pairs[OF gr a, of N]
    note nc = neighbor_coords[OF gr, of N a]
    let ?rows = "local_rows (?cfg a)"
    from m consider
      (n) nb where "north (?cfg a) = Some nb" "t = my_row (?cfg a)"
        "op = \<lparr>dest = nb, sendtag = 0, source = nb, recvtag = 1\<rparr>"
    | (s) nb where "south (?cfg a) = Some nb" "t = my_row (?cfg a) + 1"
        "op = \<lparr>dest = nb, sendtag = 1, source = nb, recvtag = 0\<rparr>"
    | (w) nb i where "west (?cfg a) = Some nb" "i < ?rows"
        "t = grid_rows (?cfg a) + my_col (?cfg a) * ?rows + i"
        "op = \<lparr>dest = nb, sendtag = 2 + i, source = nb, recvtag = 2 + ?rows + i\<rparr>"
    | (e) nb i where "east (?cfg a) = Some nb" "i < ?rows"
        "t = grid_rows (?cfg a) + (my_col (?cfg a) + 1) * ?rows + i"
        "op = \<lparr>dest = nb, sendtag = 2 + ?rows + i, source = nb, recvtag = 2 + i\<rparr>"
      unfolding exchange_zip_set by (auto split: option.splits)
    then show ?thesis
    proof cases
      case n
      from np(1)[OF n(1)] have nb: "nb < p" "south (?cfg nb) = Some a" by simp_all
      have "(my_row (?cfg nb) + 1, \<lparr>dest = a, sendtag = 1, source = a, recvtag = 0\<rparr>) \<in> ?Z nb"
        unfolding exchange_zip_set nb(2) by simp
      then have "(t, mirror a op) \<in> ?Z nb"
        unfolding n(2,3) nc(1)[OF n(1)] by (simp add: mirror_def)
      with nb(1) show ?thesis unfolding n(3) by simp
    next
      case s
      from np(2)[OF s(1)] have nb: "nb < p" "north (?cfg nb) = Some a" by simp_all
      have "(my_row (?cfg nb), \<lparr>dest = a, sendtag = 0, source = a, recvtag = 1\<rparr>) \<in> ?Z nb"
        unfolding exchange_zip_set nb(2) by simp
      then have "(t, mirror a op) \<in> ?Z nb"
        unfolding s(2,3) nc(2)[OF s(1)] by (simp add: mirror_def)
      with nb(1) show ?thesis unfolding s(3) by simp
    next
      case w
      from np(3)[OF w(1)] have nb: "nb < p" "east (?cfg nb) = Some a"
        "local_rows (?cfg nb) = ?rows" by simp_all
      have "(grid_rows (?cfg nb) + (my_col (?cfg nb) + 1) * local_rows (?cfg nb) + i,
             \<lparr>dest = a, sendtag = 2 + local_rows (?cfg nb) + i, source = a, recvtag = 2 + i\<rparr>) \<in> ?Z nb"
        unfolding exchange_zip_set nb(2) using w(2) nb(3) by simp
      then have "(t, mirror a op) \<in> ?Z nb"
        unfolding w(3,4) nb(3) nc(3)[OF w(1)] cf(5) by (simp add: mirror_def)
      with nb(1) show ?thesis unfolding w(4) by simp
    next
      case e
      from np(4)[OF e(1)] have nb: "nb < p" "west (?cfg nb) = Some a"
        "local_rows (?cfg nb) = ?rows" by simp_all
      have "(grid_rows (?cfg nb) + my_col (?cfg nb) * local_rows (?cfg nb) + i,
             \<lparr>dest = a, sendtag = 2 + i, source = a, recvtag = 2 + local_rows (?cfg nb) + i\<rparr>) \<in> ?Z nb"
        unfolding exchange_zip_set nb(2) using e(2) nb(3) by simp
      then have "(t, mirror a op) \<in> ?Z nb"
        unfolding e(3,4) nb(3) nc(4)[OF e(1)] cf(5) by (simp add: mirror_def)
      with nb(1) show ?thesis unfolding e(4) by simp
    qed
  qed
  show ?thesis unfolding matched_def
  proof (intro conjI allI impI)
    show "length ?stamps = length ?progs" by simp
  next
    fix a assume "a < length ?progs"
    then have a: "a < p" by simp
    show "length (?stamps ! a) = length (?progs ! a)"
      unfolding nth[OF a] by (rule exchange_stamps_length)
    show "sorted_wrt (<) (?stamps ! a)"
      unfolding nth[OF a] by (rule exchange_stamps_sorted[OF row[OF a] srow])
    show "\<forall>(t, op) \<in> set (zip (?stamps ! a) (?progs ! a)).
            dest op < length ?progs \<and> source op = dest op \<and>
            (t, mirror a op) \<in> set (zip (?stamps ! dest op) (?progs ! dest op))"
    proof (intro ballI, clarify)
      fix t op assume "(t, op) \<in> set (zip (?stamps ! a) (?progs ! a))"
      then have m: "(t, op) \<in> ?Z a" unfolding nth[OF a] .
      from el[OF a m] have e: "dest op < p" "source op = dest op" "(t, mirror a op) \<in> ?Z (dest op)"
        by simp_all
      show "dest op < length ?progs \<and> source op = dest op \<and>
            (t, mirror a op) \<in> set (zip (?stamps ! dest op) (?progs ! dest op))"
        unfolding nth[OF e(1)] using e by simp
    qed
  qed
qed


section \<open>The exchange runs to its end\<close>

lemma reachable_finishes:
  assumes m: "matched progs stamps" and r: "reachable progs s"
  shows "\<exists>s'. reachable progs s' \<and> finished progs s'"
  using r
proof (induction "pending progs s" arbitrary: s rule: less_induct)
  case less
  show ?case
  proof (cases "finished progs s")
    case True
    then show ?thesis using less.prems by blast
  next
    case False
    note inv = reachable_inv[OF m less.prems]
    from sched_progress[OF m inv False] obtain a b where ct: "can_transfer progs s a b" by blast
    have "pending progs (transfer s a b) < pending progs s"
      by (rule pending_transfer[OF sched_invD(1)[OF inv] ct])
    moreover have "reachable progs (transfer s a b)" by (rule reachable.step[OF less.prems ct])
    ultimately show ?thesis by (rule less.hyps)
  qed
qed

lemma group_configs_eq:
  assumes "\<forall>N r. setup_domain N r p = Some (config_for N r p g)"
  shows "group_configs N p = Some (map (\<lambda>r. config_for N r p g) [0..<p])"
  unfolding group_configs_def using assms by (simp add: those_map_total)

lemma matched_pairs:
  assumes m: "matched progs stamps" and a: "a < length progs" and op: "op \<in> set (progs ! a)"
  shows "dest op < length progs \<and> source op = dest op \<and> mirror a op \<in> set (progs ! dest op)"
proof -
  from op obtain k where k: "k < length (progs ! a)" "op = progs ! a ! k"
    by (auto simp: in_set_conv_nth)
  from matchedD(3)[OF m a k(1)] obtain k' where
    "k' < length (progs ! dest (progs ! a ! k))"
    "progs ! dest (progs ! a ! k) ! k' = mirror a (progs ! a ! k)" by blast
  then have "mirror a (progs ! a ! k) \<in> set (progs ! dest (progs ! a ! k))"
    by (metis nth_mem)
  with matchedD(1,2)[OF m a k(1)] k(2) show ?thesis by simp
qed

lemma exchange_ops_sends:
  "map (\<lambda>op. (dest op, sendtag op)) (exchange_ops cfg)
     = map (\<lambda>(d, t, m). (d, t)) (halo_sends l0 l1 l2 l3 cfg)"
  by (simp add: exchange_ops_def halo_sends_def sends_north_def sends_south_def sends_west_def
        sends_east_def Let_def comp_def split: option.splits)

lemma mismatched_tags_are_stuck:
  "\<not> finished [[\<lparr>dest = 1, sendtag = 0, source = 1, recvtag = 0\<rparr>],
                 [\<lparr>dest = 0, sendtag = 1, source = 0, recvtag = 1\<rparr>]]
        (start [[\<lparr>dest = 1, sendtag = 0, source = 1, recvtag = 0\<rparr>],
                [\<lparr>dest = 0, sendtag = 1, source = 0, recvtag = 1\<rparr>]]) \<and>
   \<not> (\<exists>a b. can_transfer [[\<lparr>dest = 1, sendtag = 0, source = 1, recvtag = 0\<rparr>],
                            [\<lparr>dest = 0, sendtag = 1, source = 0, recvtag = 1\<rparr>]]
          (start [[\<lparr>dest = 1, sendtag = 0, source = 1, recvtag = 0\<rparr>],
                  [\<lparr>dest = 0, sendtag = 1, source = 0, recvtag = 1\<rparr>]]) a b)"
proof
  show "\<not> finished [[\<lparr>dest = 1, sendtag = 0, source = 1, recvtag = 0\<rparr>],
                 [\<lparr>dest = 0, sendtag = 1, source = 0, recvtag = 1\<rparr>]]
        (start [[\<lparr>dest = 1, sendtag = 0, source = 1, recvtag = 0\<rparr>],
                [\<lparr>dest = 0, sendtag = 1, source = 0, recvtag = 1\<rparr>]])"
    by (simp add: finished_def start_def)
  have "\<not> can_transfer [[\<lparr>dest = 1, sendtag = 0, source = 1, recvtag = 0\<rparr>],
                            [\<lparr>dest = 0, sendtag = 1, source = 0, recvtag = 1\<rparr>]]
          (start [[\<lparr>dest = 1, sendtag = 0, source = 1, recvtag = 0\<rparr>],
                  [\<lparr>dest = 0, sendtag = 1, source = 0, recvtag = 1\<rparr>]]) a b" for a b
  proof (cases "a < 2 \<and> b < 2")
    case False
    then show ?thesis by (auto simp: can_transfer_def)
  next
    case True
    then have "(a = 0 \<or> a = 1) \<and> (b = 0 \<or> b = 1)" by auto
    then show ?thesis by (auto simp: can_transfer_def start_def)
  qed
  then show "\<not> (\<exists>a b. can_transfer [[\<lparr>dest = 1, sendtag = 0, source = 1, recvtag = 0\<rparr>],
                            [\<lparr>dest = 0, sendtag = 1, source = 0, recvtag = 1\<rparr>]]
          (start [[\<lparr>dest = 1, sendtag = 0, source = 1, recvtag = 0\<rparr>],
                  [\<lparr>dest = 0, sendtag = 1, source = 0, recvtag = 1\<rparr>]]) a b)" by blast
qed


section \<open>Claims about the geometry\<close>

text \<open>
  Claim C5. For every worker count \<open>p \<ge> 1\<close> the divisor search of \<open>setup_domain\<close>
  returns (it never reaches the division by zero), \<open>grid_rows\<close> divides \<open>p\<close>, is at most
  \<open>\<lfloor>sqrt p\<rfloor>\<close> and is the largest such number; \<open>grid_cols = p div grid_rows\<close>, and the
  worker of rank \<open>r\<close> sits at \<open>(r div grid_cols, r mod grid_cols)\<close>. For \<open>p = 6\<close> the
  grid is \<open>2 \<times> 3\<close>.
\<close>

theorem divisor_search_largest_divisor:
  "(1 \<le> p \<longrightarrow>
     (\<exists>cfg. setup_domain N r p = Some cfg \<and>
        grid_rows cfg dvd p \<and> int (grid_rows cfg) \<le> \<lfloor>sqrt (real p)\<rfloor> \<and>
        (\<forall>d. d dvd p \<and> int d \<le> \<lfloor>sqrt (real p)\<rfloor> \<longrightarrow> d \<le> grid_rows cfg) \<and>
        grid_cols cfg = p div grid_rows cfg \<and>
        my_row cfg = r div grid_cols cfg \<and> my_col cfg = r mod grid_cols cfg)) \<and>
   (\<exists>cfg. setup_domain N r 6 = Some cfg \<and> grid_rows cfg = 2 \<and> grid_cols cfg = 3)"
proof
  show "1 \<le> p \<longrightarrow>
     (\<exists>cfg. setup_domain N r p = Some cfg \<and>
        grid_rows cfg dvd p \<and> int (grid_rows cfg) \<le> \<lfloor>sqrt (real p)\<rfloor> \<and>
        (\<forall>d. d dvd p \<and> int d \<le> \<lfloor>sqrt (real p)\<rfloor> \<longrightarrow> d \<le> grid_rows cfg) \<and>
        grid_cols cfg = p div grid_rows cfg \<and>
        my_row cfg = r div grid_cols cfg \<and> my_col cfg = r mod grid_cols cfg)"
  proof
    assume "1 \<le> p"
    then obtain g where g: "1 \<le> g" "g \<le> nat (isqrt (int p))" "g dvd p"
      "\<forall>e. e dvd p \<and> e \<le> nat (isqrt (int p)) \<longrightarrow> e \<le> g"
      and sd: "\<forall>N r. setup_domain N r p = Some (config_for N r p g)"
      using setup_domain_Some by blast
    have fl: "\<And>d. (int d \<le> \<lfloor>sqrt (real p)\<rfloor>) = (d \<le> nat (isqrt (int p)))"
      by (simp only: isqrt_nat_floor [symmetric] of_nat_le_iff)
    show "\<exists>cfg. setup_domain N r p = Some cfg \<and>
        grid_rows cfg dvd p \<and> int (grid_rows cfg) \<le> \<lfloor>sqrt (real p)\<rfloor> \<and>
        (\<forall>d. d dvd p \<and> int d \<le> \<lfloor>sqrt (real p)\<rfloor> \<longrightarrow> d \<le> grid_rows cfg) \<and>
        grid_cols cfg = p div grid_rows cfg \<and>
        my_row cfg = r div grid_cols cfg \<and> my_col cfg = r mod grid_cols cfg"
      unfolding fl using g sd by (simp add: config_for_def)
  qed
next
  have "nat (isqrt (int 6)) = 2" by code_simp
  moreover have "grid_dim_search 6 2 = Some 2" by code_simp
  ultimately show "\<exists>cfg. setup_domain N r 6 = Some cfg \<and> grid_rows cfg = 2 \<and> grid_cols cfg = 3"
    by (simp add: setup_domain_def Let_def)
qed

theorem divisor_search_largest_divisor_witness:
  "(1::nat) \<le> 12 \<and>
     (\<exists>cfg. setup_domain 10 7 12 = Some cfg \<and>
        grid_rows cfg dvd 12 \<and> int (grid_rows cfg) \<le> \<lfloor>sqrt (real (12::nat))\<rfloor> \<and>
        (\<forall>d. d dvd 12 \<and> int d \<le> \<lfloor>sqrt (real (12::nat))\<rfloor> \<longrightarrow> d \<le> grid_rows cfg) \<and>
        grid_cols cfg = 12 div grid_rows cfg \<and>
        my_row cfg = 7 div grid_cols cfg \<and> my_col cfg = 7 mod grid_cols cfg)"
  using divisor_search_largest_divisor [of 12 10 7] by simp

text \<open>
  Claim C9. For \<open>N = 10\<close> and \<open>p = 3\<close> the grid is \<open>1 \<times> 3\<close>; the three workers have
  \<open>local_cols\<close> 3, 3 and 4, which sum to 10, and every \<open>local_rows\<close> is 10.
\<close>

theorem remainder_scenario_N10_p3:
  "map (\<lambda>r. map_option (\<lambda>c. (grid_rows c, grid_cols c, my_row c, my_col c, local_rows c, local_cols c))
             (setup_domain 10 r 3)) [0, 1, 2]
     = [Some (1, 3, 0, 0, 10, 3), Some (1, 3, 0, 1, 10, 3), Some (1, 3, 0, 2, 10, 4)]
   \<and> (3::nat) + 3 + 4 = 10"
proof -
  have "nat (isqrt (int 3)) = 1" by code_simp
  moreover have "grid_dim_search 3 1 = Some 1" by code_simp
  ultimately show ?thesis by (simp add: setup_domain_def Let_def)
qed


text \<open>
  Claim C4. For every worker count \<open>p \<ge> 1\<close> (and any image size), the \<open>local_rows\<close> of the
  workers of any one grid column sum to \<open>N\<close>, and the \<open>local_cols\<close> of the workers of any
  one grid row sum to \<open>N\<close>.
\<close>

theorem partition_completeness:
  assumes "1 \<le> p"
  shows "\<exists>cfg. setup_domain N 0 p = Some cfg \<and>
     (\<forall>c < grid_cols cfg. sum_list (map (local_rows_of N p) (grid_column_workers N p c)) = N) \<and>
     (\<forall>b < grid_rows cfg. sum_list (map (local_cols_of N p) (grid_row_workers N p b)) = N)"
proof -
  from setup_domain_grid[OF assms] obtain g gc where
    g: "1 \<le> g" "1 \<le> gc" "p = g * gc" "p div g = gc"
    and sd: "\<forall>N r. setup_domain N r p = Some (config_for N r p g)" by blast
  have "setup_domain N 0 p = Some (config_for N 0 p g)" using sd by blast
  moreover have "grid_cols (config_for N 0 p g) = gc" "grid_rows (config_for N 0 p g) = g"
    by (simp_all add: config_for_def g(4))
  ultimately show ?thesis
    using column_sum[OF g sd] row_sum[OF g sd] by auto
qed

theorem partition_completeness_witness:
  "(1::nat) \<le> 6 \<and> (\<exists>cfg. setup_domain 10 0 6 = Some cfg \<and> grid_cols cfg = 3 \<and> grid_rows cfg = 2 \<and>
     (\<forall>c < grid_cols cfg. sum_list (map (local_rows_of 10 6) (grid_column_workers 10 6 c)) = 10) \<and>
     (\<forall>b < grid_rows cfg. sum_list (map (local_cols_of 10 6) (grid_row_workers 10 6 b)) = 10))"
proof -
  have "nat (isqrt (int 6)) = 2" by code_simp
  moreover have "grid_dim_search 6 2 = Some 2" by code_simp
  ultimately have "setup_domain 10 0 6 = Some (config_for 10 0 6 2)"
    by (simp add: setup_domain_def config_for_def Let_def)
  then show ?thesis
    using partition_completeness [of 6 10] by (simp add: config_for_def)
qed

text \<open>
  Claim C8. For every rank \<open>r\<close> the block that rank 0 computes for \<open>r\<close> in
  \<open>scatter_image\<close> and in \<open>gather_image\<close> is the tile geometry that rank \<open>r\<close> computes for
  itself in \<open>setup_domain\<close>. So rank 0 sends to \<open>r\<close> exactly \<open>local_rows\<close> messages of
  \<open>local_cols\<close> elements each, which is what \<open>r\<close> receives, and \<open>r\<close> sends back
  \<open>local_rows\<close> messages of \<open>local_cols\<close> elements, the rows and columns of the block rank 0
  receives them into. Every pixel of the \<open>N \<times> N\<close> image lies in the block of exactly one
  rank.
\<close>

theorem coordinator_blocks_match_own_geometry:
  assumes "1 \<le> p"
  shows "\<exists>cfg0. setup_domain N 0 p = Some cfg0 \<and>
     (\<forall>r < p. \<exists>cfg. setup_domain N r p = Some cfg \<and>
          scatter_block cfg0 N r = own_block cfg \<and> gather_block cfg0 N r = own_block cfg \<and>
          (\<forall>glob loc. 0 < r \<and> length glob = N * N \<longrightarrow>
             length (inbox (snd (scatter_image_root glob loc cfg0 N)) r 0) = local_rows cfg \<and>
             (\<forall>m \<in> set (inbox (snd (scatter_image_root glob loc cfg0 N)) r 0).
                length m = local_cols cfg)) \<and>
          (\<forall>outp. length outp = local_rows cfg * local_cols cfg \<longrightarrow>
             length (inbox (gather_image_send outp cfg) 0 0) = local_rows cfg \<and>
             (\<forall>m \<in> set (inbox (gather_image_send outp cfg) 0 0). length m = local_cols cfg))) \<and>
     (\<forall>i < N. \<forall>j < N. \<exists>!r. r < p \<and> in_block (scatter_block cfg0 N r) i j)"
proof -
  from setup_domain_is_grid[OF assms] obtain g gc where gr: "is_grid p g gc"
    and sd: "\<forall>N r. setup_domain N r p = Some (config_for N r p g)" by blast
  note d = is_gridD[OF gr]
  let ?cfg = "\<lambda>r. config_for N r p g"
  have "setup_domain N 0 p = Some (?cfg 0)" using sd by blast
  moreover have "\<exists>cfg. setup_domain N r p = Some cfg \<and>
          scatter_block (?cfg 0) N r = own_block cfg \<and> gather_block (?cfg 0) N r = own_block cfg \<and>
          (\<forall>glob loc. 0 < r \<and> length glob = N * N \<longrightarrow>
             length (inbox (snd (scatter_image_root glob loc (?cfg 0) N)) r 0) = local_rows cfg \<and>
             (\<forall>m \<in> set (inbox (snd (scatter_image_root glob loc (?cfg 0) N)) r 0).
                length m = local_cols cfg)) \<and>
          (\<forall>outp. length outp = local_rows cfg * local_cols cfg \<longrightarrow>
             length (inbox (gather_image_send outp cfg) 0 0) = local_rows cfg \<and>
             (\<forall>m \<in> set (inbox (gather_image_send outp cfg) 0 0). length m = local_cols cfg))"
    if r: "r < p" for r
  proof (intro exI[of _ "?cfg r"] conjI allI impI)
    show "setup_domain N r p = Some (?cfg r)" using sd by blast
    show "scatter_block (?cfg 0) N r = own_block (?cfg r)" "gather_block (?cfg 0) N r = own_block (?cfg r)"
      by (simp_all add: blocks_of_config_for)
  next
    fix glob loc :: "int list" assume a: "0 < r \<and> length glob = N * N"
    then have r0: "0 < r" and len: "length glob = N * N" by simp_all
    show "length (inbox (snd (scatter_image_root glob loc (?cfg 0) N)) r 0) = local_rows (?cfg r)"
      by (rule scatter_messages_fit(1)[OF gr r0 r len])
    show "\<forall>m \<in> set (inbox (snd (scatter_image_root glob loc (?cfg 0) N)) r 0).
                length m = local_cols (?cfg r)"
      by (rule scatter_messages_fit(2)[OF gr r0 r len])
  next
    fix outp :: "int list" assume len: "length outp = local_rows (?cfg r) * local_cols (?cfg r)"
    show "length (inbox (gather_image_send outp (?cfg r)) 0 0) = local_rows (?cfg r)"
      by (rule gather_messages_fit(1)[OF len])
    show "\<forall>m \<in> set (inbox (gather_image_send outp (?cfg r)) 0 0). length m = local_cols (?cfg r)"
      by (rule gather_messages_fit(2)[OF len])
  qed
  moreover have "\<forall>i < N. \<forall>j < N. \<exists>!r. r < p \<and> in_block (scatter_block (?cfg 0) N r) i j"
    unfolding blocks_of_config_for using block_ex1[OF d(1,2,3)] by blast
  ultimately show ?thesis by blast
qed

theorem coordinator_blocks_match_own_geometry_witness:
  "(1::nat) \<le> 4 \<and> (\<exists>cfg0. setup_domain 8 0 4 = Some cfg0 \<and>
     (\<forall>r < 4. \<exists>cfg. setup_domain 8 r 4 = Some cfg \<and>
          scatter_block cfg0 8 r = own_block cfg \<and> gather_block cfg0 8 r = own_block cfg \<and>
          (\<forall>glob loc. 0 < r \<and> length glob = 8 * 8 \<longrightarrow>
             length (inbox (snd (scatter_image_root glob loc cfg0 8)) r 0) = local_rows cfg \<and>
             (\<forall>m \<in> set (inbox (snd (scatter_image_root glob loc cfg0 8)) r 0).
                length m = local_cols cfg)) \<and>
          (\<forall>outp. length outp = local_rows cfg * local_cols cfg \<longrightarrow>
             length (inbox (gather_image_send outp cfg) 0 0) = local_rows cfg \<and>
             (\<forall>m \<in> set (inbox (gather_image_send outp cfg) 0 0). length m = local_cols cfg))) \<and>
     (\<forall>i < 8. \<forall>j < 8. \<exists>!r. r < 4 \<and> in_block (scatter_block cfg0 8 r) i j))"
  using coordinator_blocks_match_own_geometry [of 4 8] by simp


section \<open>Claims about the stencil kernel\<close>

text \<open>
  Claim C2, as stated, fails, in two ways. Rank 0 of a \<open>2 \<times> 2\<close> grid over a \<open>2 \<times> 2\<close> image
  holds a one-pixel tile.
  \<^item> The kernel does not round the magnitude to the nearest integer: with the value 1 in
    the east and south border cells of the tile, \<open>Gx = Gy = 2\<close>, the square root of 8 rounds
    to 3, and the kernel writes 2.
  \<^item> The kernel computes in 32-bit integers: with the value 32768 in the east border cell,
    \<open>Gx = 65536\<close> and \<open>Gy = 0\<close>, the magnitude is 65536 and clamps to 255, and the kernel
    writes 0, because \<open>Gx * Gx\<close> wraps to 0.
\<close>

theorem stencil_kernel_rounding_counterexample:
  "setup_domain 2 0 4 = Some (config_for 2 0 4 2) \<and>
   compute_sobel_local [0, 0, 0, 0, 0, 1, 0, 1, 0] [0] (config_for 2 0 4 2) ! 0 = 2 \<and>
   magnitude_rounded (sobel_gx (tile_cell (config_for 2 0 4 2) [0, 0, 0, 0, 0, 1, 0, 1, 0]) 1 1)
                     (sobel_gy (tile_cell (config_for 2 0 4 2) [0, 0, 0, 0, 0, 1, 0, 1, 0]) 1 1) = 3 \<and>
   compute_sobel_local [0, 0, 0, 0, 0, 32768, 0, 0, 0] [0] (config_for 2 0 4 2) ! 0 = 0 \<and>
   magnitude_rounded (sobel_gx (tile_cell (config_for 2 0 4 2) [0, 0, 0, 0, 0, 32768, 0, 0, 0]) 1 1)
                     (sobel_gy (tile_cell (config_for 2 0 4 2) [0, 0, 0, 0, 0, 32768, 0, 0, 0]) 1 1) = 255"
proof (intro conjI)
  show "compute_sobel_local [0, 0, 0, 0, 0, 32768, 0, 0, 0] [0] (config_for 2 0 4 2) ! 0 = 0"
    by code_simp
  have "sobel_gx (tile_cell (config_for 2 0 4 2) [0, 0, 0, 0, 0, 32768, 0, 0, 0]) 1 1 = 65536"
    by (simp add: sobel_gx_def tile_cell_def config_for_def)
  moreover have "sobel_gy (tile_cell (config_for 2 0 4 2) [0, 0, 0, 0, 0, 32768, 0, 0, 0]) 1 1 = 0"
    by (simp add: sobel_gy_def tile_cell_def config_for_def)
  moreover have "sqrt 4294967296 = 65536"
    by (rule real_sqrt_unique) simp_all
  ultimately show "magnitude_rounded (sobel_gx (tile_cell (config_for 2 0 4 2) [0, 0, 0, 0, 0, 32768, 0, 0, 0]) 1 1)
                     (sobel_gy (tile_cell (config_for 2 0 4 2) [0, 0, 0, 0, 0, 32768, 0, 0, 0]) 1 1) = 255"
    by (simp add: magnitude_rounded_def clamp255_def)
next
  have "nat (isqrt (int 4)) = 2" by code_simp
  moreover have "grid_dim_search 4 2 = Some 2" by code_simp
  ultimately show "setup_domain 2 0 4 = Some (config_for 2 0 4 2)"
    by (simp add: setup_domain_def config_for_def Let_def)
  show "compute_sobel_local [0, 0, 0, 0, 0, 1, 0, 1, 0] [0] (config_for 2 0 4 2) ! 0 = 2"
    by code_simp
  have "sobel_gx (tile_cell (config_for 2 0 4 2) [0, 0, 0, 0, 0, 1, 0, 1, 0]) 1 1 = 2"
    by (simp add: sobel_gx_def tile_cell_def config_for_def)
  moreover have "sobel_gy (tile_cell (config_for 2 0 4 2) [0, 0, 0, 0, 0, 1, 0, 1, 0]) 1 1 = 2"
    by (simp add: sobel_gy_def tile_cell_def config_for_def)
  ultimately show "magnitude_rounded (sobel_gx (tile_cell (config_for 2 0 4 2) [0, 0, 0, 0, 0, 1, 0, 1, 0]) 1 1)
                     (sobel_gy (tile_cell (config_for 2 0 4 2) [0, 0, 0, 0, 0, 1, 0, 1, 0]) 1 1) = 3"
    by (simp add: magnitude_rounded_def round_sqrt_8 clamp255_def)
qed

text \<open>
  Claim C2, amended. Take a padded tile whose cells, border included, hold values of
  magnitude at most 4095 (pixel intensities from 0 to 255 in particular). For every
  interior cell of the tile (cell \<open>(i + 1, j + 1)\<close> of the padded tile, for
  \<open>i < local_rows\<close> and \<open>j < local_cols\<close>), the kernel writes into cell \<open>(i, j)\<close> of the output
  tile the value \<open>clamp(\<lfloor>sqrt(Gx\<^sup>2 + Gy\<^sup>2)\<rfloor>, 0, 255)\<close>: the square root is truncated, not
  rounded. \<open>Gx\<close> and \<open>Gy\<close> are the two 3x3 Sobel convolutions over the eight neighbours of
  the cell in the padded tile, as integers without bound: under the bound on the cells
  no operation of the kernel leaves the 32-bit range.
\<close>

theorem stencil_kernel_truncates:
  assumes "halo_size cfg = 1"
    and "length loc = (local_rows cfg + 2) * (local_cols cfg + 2)"
    and "\<forall>v \<in> set loc. \<bar>v\<bar> \<le> 4095"
    and "length outp = local_rows cfg * local_cols cfg"
    and "i < local_rows cfg" and "j < local_cols cfg"
  shows "compute_sobel_local loc outp cfg ! (i * local_cols cfg + j)
     = magnitude_truncated (sobel_gx (tile_cell cfg loc) (i + 1) (j + 1))
                           (sobel_gy (tile_cell cfg loc) (i + 1) (j + 1))"
  unfolding magnitude_truncated_def isqrt_sum_squares[symmetric]
  using assms by (rule compute_sobel_local_cell)

theorem stencil_kernel_truncates_witness:
  "halo_size (config_for 2 0 4 2) = 1 \<and>
   length [0, 0, 0, 0, 0, 1, 0, 1, 0 :: int]
     = (local_rows (config_for 2 0 4 2) + 2) * (local_cols (config_for 2 0 4 2) + 2) \<and>
   list_all (\<lambda>v. \<bar>v\<bar> \<le> 4095) [0, 0, 0, 0, 0, 1, 0, 1, 0 :: int] \<and>
   length [0::int] = local_rows (config_for 2 0 4 2) * local_cols (config_for 2 0 4 2) \<and>
   0 < local_rows (config_for 2 0 4 2) \<and> 0 < local_cols (config_for 2 0 4 2) \<and>
   compute_sobel_local [0, 0, 0, 0, 0, 1, 0, 1, 0] [0] (config_for 2 0 4 2) ! 0 = 2"
proof -
  have c: "halo_size (config_for 2 0 4 2) = 1" "local_rows (config_for 2 0 4 2) = 1"
    "local_cols (config_for 2 0 4 2) = 1"
    by (simp_all add: config_for_def)
  have gxv: "sobel_gx (tile_cell (config_for 2 0 4 2) [0, 0, 0, 0, 0, 1, 0, 1, 0]) (Suc 0) (Suc 0) = 2"
    by (simp add: sobel_gx_def tile_cell_def config_for_def)
  have gyv: "sobel_gy (tile_cell (config_for 2 0 4 2) [0, 0, 0, 0, 0, 1, 0, 1, 0]) (Suc 0) (Suc 0) = 2"
    by (simp add: sobel_gy_def tile_cell_def config_for_def)
  have "compute_sobel_local [0, 0, 0, 0, 0, 1, 0, 1, 0] [0] (config_for 2 0 4 2) ! (0 * local_cols (config_for 2 0 4 2) + 0)
     = magnitude_truncated (sobel_gx (tile_cell (config_for 2 0 4 2) [0, 0, 0, 0, 0, 1, 0, 1, 0]) (0 + 1) (0 + 1))
                           (sobel_gy (tile_cell (config_for 2 0 4 2) [0, 0, 0, 0, 0, 1, 0, 1, 0]) (0 + 1) (0 + 1))"
    by (rule stencil_kernel_truncates) (simp_all add: c)
  then show ?thesis
    by (simp add: c gxv gyv magnitude_truncated_def floor_sqrt_8 clamp255_def)
qed


section \<open>Claims about the Distributor and the Collector\<close>

text \<open>
  Claim C3. For every worker count \<open>p \<ge> 1\<close> and every image of \<open>N * N\<close> pixels, the
  Distributor followed by the Collector with the identity kernel in between (each
  output tile is the interior of the tile) succeeds and leaves the original image in the
  global buffer of the coordinator. This holds whatever the global buffer contains when
  the Collector starts (\<open>g0\<close>; in \<open>main\<close> it still contains the image): every pixel
  comes back from a tile.
\<close>

theorem distribute_collect_round_trip:
  assumes p: "1 \<le> p" and img: "length img = N * N" and g0: "length g0 = N * N"
  shows "\<exists>w0 w1 w2. init_world N p img = Some w0 \<and> scatter_world N w0 = Some w1 \<and>
           gather_world N (identity_world (w1[0 := (w1 ! 0)\<lparr>global_img := g0\<rparr>])) = Some w2 \<and>
           global_img (w2 ! 0) = img"
proof -
  from setup_domain_is_grid[OF p] obtain g gc where gr: "is_grid p g gc"
    and sd: "\<forall>N r. setup_domain N r p = Some (config_for N r p g)" by blast
  note d = is_gridD[OF gr]
  note cf = config_for_fields[OF gr]
  let ?cfg = "\<lambda>r. config_for N r p g"
  let ?w0 = "map (\<lambda>r. init_proc N img (?cfg r)) [0..<p]"
  have p0: "0 < p" using p by simp
  have iw: "init_world N p img = Some ?w0" by (rule init_world_eq[OF sd])
  have ok0: "world_ok N p g ?w0" by (rule init_world_ok[OF gr img])
  have glob0: "global_img (?w0 ! 0) = img" using p0 by (simp add: init_proc_def Let_def cf)
  from scatter_world_ok[OF gr ok0] obtain w1 where
    sw: "scatter_world N ?w0 = Some w1" and ok1: "world_ok N p g w1"
    and th: "\<And>r. r < p \<Longrightarrow> tile_holds (config (?w0 ! r)) N (local_img (w1 ! r)) (global_img (?w0 ! 0))"
    by blast
  from ok1 have lw1: "length w1 = p" and
    ok1r: "\<And>r. r < p \<Longrightarrow> config (w1 ! r) = ?cfg r"
         "\<And>r. r < p \<Longrightarrow> length (local_img (w1 ! r)) = (local_rows (?cfg r) + 2) * (local_cols (?cfg r) + 2)"
         "\<And>r. r < p \<Longrightarrow> length (output_img (w1 ! r)) = local_rows (?cfg r) * local_cols (?cfg r)"
         "\<And>r. r < p \<Longrightarrow> length (global_img (w1 ! r)) = N * N"
    unfolding world_ok_def by auto
  have th': "tile_holds (?cfg r) N (local_img (w1 ! r)) img" if "r < p" for r
    using th[OF that] that unfolding glob0 by (simp add: init_proc_def Let_def)
  let ?w1' = "w1[0 := (w1 ! 0)\<lparr>global_img := g0\<rparr>]"
  let ?wi = "identity_world ?w1'"
  have nth1: "?w1' ! r = (if r = 0 then (w1 ! 0)\<lparr>global_img := g0\<rparr> else w1 ! r)" if "r < p" for r
    using that lw1 by (simp add: nth_list_update)
  have nthi: "?wi ! r = (?w1' ! r)\<lparr>output_img :=
        identity_kernel (local_img (?w1' ! r)) (output_img (?w1' ! r)) (config (?w1' ! r))\<rparr>"
    if "r < p" for r
    using that lw1 by (simp add: identity_world_def)
  have fields: "config (?wi ! r) = ?cfg r"
      "local_img (?wi ! r) = local_img (w1 ! r)"
      "output_img (?wi ! r) = identity_kernel (local_img (w1 ! r)) (output_img (w1 ! r)) (?cfg r)"
      "length (global_img (?wi ! r)) = N * N"
    if r: "r < p" for r
    using ok1r(1,4)[OF r] ok1r(1)[OF p0] g0 by (auto simp: nthi[OF r] nth1[OF r])
  have oki: "world_ok N p g ?wi"
    unfolding world_ok_def
    using fields ok1r(2,3) lw1 by (simp add: identity_world_def identity_kernel_length)
  have outs: "output_img (?wi ! r) ! (i * local_cols (?cfg r) + j)
           = img ! ((start_row_of (?cfg r) + i) * N + start_col_of (?cfg r) + j)"
    if r: "r < p" and i: "i < local_rows (?cfg r)" and j: "j < local_cols (?cfg r)" for r i j
  proof -
    have "output_img (?wi ! r) ! (i * local_cols (?cfg r) + j)
        = local_img (w1 ! r) ! ((i + 1) * (local_cols (?cfg r) + 2) + (j + 1))"
      unfolding fields(3)[OF r]
      by (rule identity_kernel_cell[OF cf(4) ok1r(3)[OF r] i j])
    also have "\<dots> = img ! ((start_row_of (?cfg r) + i) * N + start_col_of (?cfg r) + j)"
      using th'[OF r] i j unfolding tile_holds_def by blast
    finally show ?thesis .
  qed
  have gw: "gather_world N ?wi = Some (?wi[0 := (?wi ! 0)\<lparr>global_img := img\<rparr>])"
    by (rule gather_world_agree[OF gr oki img outs])
  have "global_img ((?wi[0 := (?wi ! 0)\<lparr>global_img := img\<rparr>]) ! 0) = img"
    using p0 lw1 by (simp add: identity_world_def)
  with iw sw gw show ?thesis by blast
qed

theorem distribute_collect_round_trip_witness:
  "(1::nat) \<le> 2 \<and> length [1, 2, 3, 4 :: int] = 2 * 2 \<and> length [0, 0, 0, 0 :: int] = 2 * 2 \<and>
   (\<exists>w0 w1 w2. init_world 2 2 [1, 2, 3, 4] = Some w0 \<and> scatter_world 2 w0 = Some w1 \<and>
           gather_world 2 (identity_world (w1[0 := (w1 ! 0)\<lparr>global_img := [0, 0, 0, 0]\<rparr>])) = Some w2 \<and>
           global_img (w2 ! 0) = [1, 2, 3, 4])"
  using distribute_collect_round_trip [of 2 "[1, 2, 3, 4]" 2 "[0, 0, 0, 0]"] by simp


section \<open>Claims about the Boundary Exchanger\<close>

text \<open>
  Claim C7. Take a rank \<open>r\<close> whose geometry has no neighbour in direction \<open>d\<close>. The block
  of the exchange for \<open>d\<close> returns the tile unchanged, for every tile and every mailbox
  (no operation, no error), and sends nothing. The run from the allocation of \<open>main\<close>
  reaches a state after any number \<open>n\<close> of iterations, the next Distributor step and the
  next exchange return as well, and in all three states the border cells of the tile of
  \<open>r\<close> on side \<open>d\<close> are zero (the kernel and the Collector do not write tiles).
\<close>

theorem null_neighbor_border_stays_zero:
  assumes len: "length img = N * N" and r: "r < p"
    and sd: "setup_domain N r p = Some cfg" and nul: "neighbor d cfg = None"
  shows "(\<forall>loc env. exchange_dir d loc cfg env = Some loc \<and> sends_dir d loc cfg = []) \<and>
         (\<exists>w0 w w1 w2. init_world N p img = Some w0 \<and> run n N w0 = Some w \<and>
            scatter_world N w = Some w1 \<and> exchange_world w1 = Some w2 \<and>
            config (w ! r) = cfg \<and> zero_border d cfg (local_img (w ! r)) \<and>
            config (w1 ! r) = cfg \<and> zero_border d cfg (local_img (w1 ! r)) \<and>
            config (w2 ! r) = cfg \<and> zero_border d cfg (local_img (w2 ! r)))"
proof -
  from r have p: "1 \<le> p" by simp
  from setup_domain_is_grid[OF p] obtain g gc where gr: "is_grid p g gc"
    and sdg: "\<forall>N r. setup_domain N r p = Some (config_for N r p g)" by blast
  from sd sdg have cfg: "cfg = config_for N r p g" by simp
  let ?w0 = "map (\<lambda>r. init_proc N img (config_for N r p g)) [0..<p]"
  have w0: "init_world N p img = Some ?w0" by (rule init_world_eq[OF sdg])
  from run_Some[OF gr init_world_inv[OF gr len], of n] obtain w where
    w: "run n N ?w0 = Some w" and inv: "run_inv N p g w" by blast
  from inv have ok: "world_ok N p g w" unfolding run_inv_def by simp
  from scatter_world_ok[OF gr ok] obtain w1 where w1: "scatter_world N w = Some w1" by blast
  have inv1: "run_inv N p g w1" by (rule scatter_world_inv[OF gr inv w1])
  from exchange_world_Some[OF gr inv1] obtain w2 where
    w2: "exchange_world w1 = Some w2" and inv2: "run_inv N p g w2" by blast
  have st: "config (v ! r) = cfg \<and> zero_border d cfg (local_img (v ! r))"
    if v: "run_inv N p g v" for v
  proof -
    have c: "config (v ! r) = cfg" using v r cfg unfolding run_inv_def world_ok_def by simp
    with nul v r have "zero_border d (config (v ! r)) (local_img (v ! r))"
      unfolding run_inv_def by blast
    with c show ?thesis by simp
  qed
  have a: "\<forall>loc env. exchange_dir d loc cfg env = Some loc \<and> sends_dir d loc cfg = []"
    using null_neighbor_noop[OF nul] by blast
  from a w0 w w1 w2 st[OF inv] st[OF inv1] st[OF inv2] show ?thesis by blast
qed

theorem null_neighbor_border_stays_zero_witness:
  "length [1, 2, 3, 4 :: int] = 2 * 2 \<and> (0::nat) < 2 \<and>
   setup_domain 2 0 2 = Some (config_for 2 0 2 1) \<and>
   neighbor North (config_for 2 0 2 1) = None \<and>
   (\<exists>w. run 3 2 (the (init_world 2 2 [1, 2, 3, 4])) = Some w \<and>
        zero_border North (config_for 2 0 2 1) (local_img (w ! 0)))"
proof -
  have l: "length [1, 2, 3, 4 :: int] = 2 * 2" by simp
  have r: "(0::nat) < 2" by simp
  have s: "setup_domain 2 0 2 = Some (config_for 2 0 2 1)" by code_simp
  have n: "neighbor North (config_for 2 0 2 1) = None" by code_simp
  from null_neighbor_border_stays_zero[OF l r s n, of 3] l r s n show ?thesis by auto
qed


section \<open>Claims about the whole pipeline\<close>

text \<open>
  Claim C1 says that the gathered output equals the single-worker run at every interior
  cell, for every worker count. The code does not do that: with \<open>N = 4\<close> and four workers
  (a \<open>2 \<times> 2\<close> grid) on the image \<open>main\<close> generates, the four interior cells come out as 22,
  28, 38 and 39, where the single-worker run gives 32 four times. The exchange fills the
  border rows and columns of a tile but never its four corner cells, so the kernel
  reads 0 for the diagonal neighbour across a tile corner.
\<close>

theorem tile_corner_cells_differ_from_reference:
  "sobel_mpi 4 1 4 (main_image 4)
     = Some [14, 20, 24, 22, 31, 22, 28, 33, 43, 38, 39, 46, 43, 36, 40, 49] \<and>
   sobel_mpi 4 1 1 (main_image 4)
     = Some [14, 20, 24, 22, 31, 32, 32, 33, 43, 32, 32, 46, 43, 36, 40, 49]"
proof
  show "sobel_mpi 4 1 4 (main_image 4)
     = Some [14, 20, 24, 22, 31, 22, 28, 33, 43, 38, 39, 46, 43, 36, 40, 49]"
    by code_simp
  show "sobel_mpi 4 1 1 (main_image 4)
     = Some [14, 20, 24, 22, 31, 32, 32, 33, 43, 32, 32, 46, 43, 36, 40, 49]"
    by code_simp
qed

text \<open>
  Claim C6 says that the harness reports the minimum, mean and maximum iteration time and
  the mean exchange time. The line \<open>main\<close> prints holds the mean iteration time only:
  two runs whose iteration times (1 s and 3 s against 2 s and 2 s) and exchange times
  (1 s against 0 s) differ give the same report.
\<close>

theorem report_holds_only_the_mean:
  "main_report 1 4 [\<lparr>t_start = 0, t_comm_start = 0, t_comm_end = 1, t_end = 1\<rparr>,
                    \<lparr>t_start = 0, t_comm_start = 0, t_comm_end = 1, t_end = 3\<rparr>]
     = \<lparr>RANKS = 1, SIZE = 4, RUNS = 2, AVG_TIME = 2000\<rparr> \<and>
   main_report 1 4 [\<lparr>t_start = 0, t_comm_start = 1, t_comm_end = 1, t_end = 2\<rparr>,
                    \<lparr>t_start = 0, t_comm_start = 1, t_comm_end = 1, t_end = 2\<rparr>]
     = \<lparr>RANKS = 1, SIZE = 4, RUNS = 2, AVG_TIME = 2000\<rparr>"
  by (simp add: main_report_def accumulate_def Let_def)


section \<open>Claims about the blocking order of the exchange\<close>

text \<open>
  Claim C10. For every image size and every process group of at least one process, the
  calls of \<open>exchange_halo_blocking\<close> are paired: every call of a rank sends to and
  receives from one and the same neighbour, and the program of that neighbour holds the
  mirrored call, towards this rank and with the two tags swapped. So no send is issued
  alone; it is one half of a call whose other half receives from the peer, and the peer
  answers it with a call that sends and receives at once (a rank may wait until its peer
  arrives at that call). With synchronous sends, no state the group can reach is stuck:
  either every rank has returned from the exchange, or some send and its receive can
  complete; every such step lowers the number of pending sends and receives, and the
  state in which all ranks have returned is reached.
\<close>

theorem exchange_never_deadlocks:
  assumes p: "1 \<le> p"
  shows "\<exists>cfgs. group_configs N p = Some cfgs \<and> length cfgs = p \<and>
     (\<forall>r < p. \<forall>op \<in> set (exchange_ops (cfgs ! r)).
        dest op < p \<and> source op = dest op \<and>
        mirror r op \<in> set (exchange_ops (cfgs ! dest op))) \<and>
     (\<forall>s. reachable (map exchange_ops cfgs) s \<longrightarrow>
        (finished (map exchange_ops cfgs) s \<or> (\<exists>a b. can_transfer (map exchange_ops cfgs) s a b)) \<and>
        (\<forall>a b. can_transfer (map exchange_ops cfgs) s a b \<longrightarrow>
           pending (map exchange_ops cfgs) (transfer s a b) < pending (map exchange_ops cfgs) s)) \<and>
     (\<exists>s. reachable (map exchange_ops cfgs) s \<and> finished (map exchange_ops cfgs) s)"
proof -
  from setup_domain_is_grid[OF p] obtain g gc where gr: "is_grid p g gc"
    and sd: "\<forall>N r. setup_domain N r p = Some (config_for N r p g)" by blast
  let ?cfgs = "map (\<lambda>r. config_for N r p g) [0..<p]"
  let ?progs = "map exchange_ops ?cfgs"
  note m = exchange_matched[OF gr, of N]
  have pairs: "dest op < p \<and> source op = dest op \<and> mirror r op \<in> set (exchange_ops (?cfgs ! dest op))"
    if r: "r < p" and op: "op \<in> set (exchange_ops (?cfgs ! r))" for r op
  proof -
    from r op have "op \<in> set (?progs ! r)" by simp
    have rl: "r < length ?progs" using r by simp
    from matched_pairs[OF m rl \<open>op \<in> set (?progs ! r)\<close>]
    have d: "dest op < length ?progs" "source op = dest op" "mirror r op \<in> set (?progs ! dest op)"
      by blast+
    from d(1) have dp: "dest op < p" by simp
    have "?progs ! dest op = exchange_ops (?cfgs ! dest op)" using dp by simp
    with d(3) have "mirror r op \<in> set (exchange_ops (?cfgs ! dest op))" by simp
    with dp d(2) show ?thesis by simp
  qed
  have live: "(finished ?progs s \<or> (\<exists>a b. can_transfer ?progs s a b)) \<and>
        (\<forall>a b. can_transfer ?progs s a b \<longrightarrow> pending ?progs (transfer s a b) < pending ?progs s)"
    if "reachable ?progs s" for s
  proof -
    note inv = reachable_inv[OF m that]
    from sched_progress[OF m inv] pending_transfer[OF sched_invD(1)[OF inv]]
    show ?thesis by blast
  qed
  have fin: "\<exists>s. reachable ?progs s \<and> finished ?progs s"
    by (rule reachable_finishes[OF m reachable.initial])
  have "group_configs N p = Some ?cfgs" by (rule group_configs_eq[OF sd])
  moreover have "length ?cfgs = p" by simp
  ultimately show ?thesis using pairs live fin by blast
qed

theorem exchange_never_deadlocks_witness:
  "(1::nat) \<le> 4 \<and>
   \<not> finished (map exchange_ops (the (group_configs 4 4)))
       (start (map exchange_ops (the (group_configs 4 4)))) \<and>
   (\<exists>a b. can_transfer (map exchange_ops (the (group_configs 4 4)))
            (start (map exchange_ops (the (group_configs 4 4)))) a b)"
proof -
  have p: "(1::nat) \<le> 4" by simp
  from exchange_never_deadlocks[OF p, of 4] obtain cfgs where
    c: "group_configs 4 4 = Some cfgs"
    and live: "\<And>s. reachable (map exchange_ops cfgs) s \<Longrightarrow>
        finished (map exchange_ops cfgs) s \<or> (\<exists>a b. can_transfer (map exchange_ops cfgs) s a b)"
    by blast
  have nf: "\<not> finished (map exchange_ops (the (group_configs 4 4)))
       (start (map exchange_ops (the (group_configs 4 4))))" by code_simp
  from live[OF reachable.initial] nf c p show ?thesis by simp
qed

end
